(* ===== verification/Prelude.thy ===== *)
theory Prelude
  imports Main "HOL-Library.Word"
begin

text \<open>
  Shared vocabulary of the development: C characters and NUL-terminated strings, the
  functions of the C library that the server calls (\<^verbatim>\<open>strcasecmp\<close>, \<^verbatim>\<open>strstr\<close>, \<^verbatim>\<open>strtoll\<close>,
  the \<^verbatim>\<open>%d\<close>/\<^verbatim>\<open>%u\<close> conversions of \<^verbatim>\<open>snprintf\<close>), the growth rule of the dynamic arrays and
  the generic lemmas that the component theories use.

  Conventions. A byte buffer is a \<^typ>\<open>char list\<close>; a C string is the list of its characters
  without the terminating NUL, and a pointer into a string is the suffix it points to, so
  that \<^verbatim>\<open>*p == '\0'\<close> reads \<open>p = []\<close>. \<^verbatim>\<open>size_t\<close> values that count bytes of live objects are
  \<^typ>\<open>nat\<close>; where the code computes with values taken from the network the width is written
  out. The allocator is a predicate \<open>mem\<close>: \<open>mem n\<close> says whether an allocation of \<open>n\<close> bytes
  succeeds, so that every out-of-memory branch of the source is a branch of the model.
  \<^verbatim>\<open>HTTP_ASSERT\<close> is the release build's: it does nothing.
\<close>

section \<open>Collections of facts\<close>

named_theorems http_simps \<open>characteristic equations of the operations, for the component proofs\<close>
named_theorems inv_intros \<open>operations keep the invariants of their component\<close>

text \<open>Scans are \<open>takeWhile\<close>/\<open>dropWhile\<close> pairs; the proofs split on the pair, not on its elements.\<close>

declare takeWhile_eq_all_conv [simp del] dropWhile_eq_Nil_conv [simp del]

section \<open>Characters and bytes\<close>

type_synonym u8 = "8 word"
type_synonym u32 = "32 word"
type_synonym u64 = "64 word"
type_synonym allocator = "nat \<Rightarrow> bool"

abbreviation byte :: "char \<Rightarrow> nat" where "byte c \<equiv> of_char c"

abbreviation NUL :: char where "NUL \<equiv> CHR 0x00"
abbreviation TAB :: char where "TAB \<equiv> CHR 0x09"
abbreviation LF :: char where "LF \<equiv> CHR 0x0A"
abbreviation CR :: char where "CR \<equiv> CHR 0x0D"
abbreviation SP :: char where "SP \<equiv> CHR 0x20"
abbreviation DQUOTE :: char where "DQUOTE \<equiv> CHR 0x22"
abbreviation BACKSLASH :: char where "BACKSLASH \<equiv> CHR 0x5C"
abbreviation CRLF :: string where "CRLF \<equiv> [CR, LF]"

lemma char_of_nat_eq [simp]: "char_of (n::nat) = c \<longleftrightarrow> n mod 256 = byte c"
  by (metis char_of_eq_iff char_of_mod_256 of_char_mod_256 of_char_of)

lemma eq_char_of_nat [simp]: "c = char_of (n::nat) \<longleftrightarrow> byte c = n mod 256"
  by (metis char_of_nat_eq)

lemma byte_less_256 [simp]: "byte c < 256"
  by (metis of_char_mod_256 mod_less_divisor zero_less_numeral)

lemma byte_inject: "byte c = byte d \<longleftrightarrow> c = d"
  by simp

lemma byte_div_16 [simp]: "byte c div 16 < 16"
  by (rule less_mult_imp_div_less) simp

text \<open>A control character: below \<^verbatim>\<open>0x20\<close>, or DEL.\<close>

definition is_ctl :: "char \<Rightarrow> bool" where
  "is_ctl c \<longleftrightarrow> byte c < 0x20 \<or> byte c = 0x7f"

definition is_digit :: "char \<Rightarrow> bool" where
  "is_digit c \<longleftrightarrow> 48 \<le> byte c \<and> byte c \<le> 57"

definition is_lower :: "char \<Rightarrow> bool" where
  "is_lower c \<longleftrightarrow> 97 \<le> byte c \<and> byte c \<le> 122"

definition is_upper :: "char \<Rightarrow> bool" where
  "is_upper c \<longleftrightarrow> 65 \<le> byte c \<and> byte c \<le> 90"

definition is_alpha :: "char \<Rightarrow> bool" where
  "is_alpha c \<longleftrightarrow> is_lower c \<or> is_upper c"

text \<open>\<^verbatim>\<open>isspace\<close> in the C locale: space and the bytes 9 to 13.\<close>

definition is_space :: "char \<Rightarrow> bool" where
  "is_space c \<longleftrightarrow> byte c = 32 \<or> (9 \<le> byte c \<and> byte c \<le> 13)"

text \<open>Optional white space of the header grammar, and the list separators of header values.\<close>

definition is_ows :: "char \<Rightarrow> bool" where
  "is_ows c \<longleftrightarrow> c = SP \<or> c = TAB"

definition to_lower :: "char \<Rightarrow> char" where
  "to_lower c = (if is_upper c then char_of (byte c + 32) else c)"

lemmas char_class_defs =
  is_ctl_def is_digit_def is_lower_def is_upper_def is_alpha_def is_space_def is_ows_def
  to_lower_def

lemma to_lower_idem [simp]: "to_lower (to_lower c) = to_lower c"
  by (auto simp: to_lower_def is_upper_def)

section \<open>C strings\<close>

text \<open>The C string that starts at the front of a buffer, and the property of being one.\<close>

definition cstr :: "char list \<Rightarrow> string" where
  "cstr buf = takeWhile (\<lambda>c. c \<noteq> NUL) buf"

definition is_cstr :: "string \<Rightarrow> bool" where
  "is_cstr s \<longleftrightarrow> NUL \<notin> set s"

lemma is_cstr_cstr [simp]: "is_cstr (cstr buf)"
  unfolding is_cstr_def cstr_def by (blast dest: set_takeWhileD)

lemma cstr_id [simp]: "is_cstr s \<Longrightarrow> cstr s = s"
  by (induction s) (auto simp: is_cstr_def cstr_def)

lemma is_cstr_simps [simp]:
  "is_cstr []"
  "is_cstr (c # s) \<longleftrightarrow> c \<noteq> NUL \<and> is_cstr s"
  "is_cstr (s @ t) \<longleftrightarrow> is_cstr s \<and> is_cstr t"
  by (auto simp: is_cstr_def)

lemma is_cstr_sub: "is_cstr s \<Longrightarrow> set t \<subseteq> set s \<Longrightarrow> is_cstr t"
  by (auto simp: is_cstr_def)

lemma is_cstr_parts [intro]:
  "is_cstr s \<Longrightarrow> is_cstr (take n s)"
  "is_cstr s \<Longrightarrow> is_cstr (drop n s)"
  "is_cstr s \<Longrightarrow> is_cstr (takeWhile P s)"
  "is_cstr s \<Longrightarrow> is_cstr (dropWhile P s)"
  by (erule is_cstr_sub, rule set_take_subset,
      erule is_cstr_sub, rule set_drop_subset,
      erule is_cstr_sub, blast dest: set_takeWhileD,
      erule is_cstr_sub, blast dest: set_dropWhileD)

text \<open>\<^verbatim>\<open>strchr(s, c) != NULL\<close>: the search includes the terminator.\<close>

definition strchr_found :: "string \<Rightarrow> char \<Rightarrow> bool" where
  "strchr_found s c \<longleftrightarrow> c \<in> set s \<or> c = NUL"

text \<open>\<^verbatim>\<open>strcasecmp(a, b) == 0\<close> and \<^verbatim>\<open>strncasecmp(a, b, n) == 0\<close>.\<close>

definition strcaseeq :: "string \<Rightarrow> string \<Rightarrow> bool" where
  "strcaseeq a b \<longleftrightarrow> map to_lower a = map to_lower b"

definition strncaseeq :: "string \<Rightarrow> string \<Rightarrow> nat \<Rightarrow> bool" where
  "strncaseeq a b n \<longleftrightarrow> map to_lower (take n a) = map to_lower (take n b)"

lemma strcaseeq_refl [simp]: "strcaseeq a a"
  by (simp add: strcaseeq_def)

lemma strcaseeq_sym: "strcaseeq a b \<longleftrightarrow> strcaseeq b a"
  by (auto simp: strcaseeq_def)

lemma strcaseeq_trans: "strcaseeq a b \<Longrightarrow> strcaseeq b c \<Longrightarrow> strcaseeq a c"
  by (simp add: strcaseeq_def)

lemma strcaseeq_length: "strcaseeq a b \<Longrightarrow> length a = length b"
  unfolding strcaseeq_def by (metis length_map)

text \<open>\<^verbatim>\<open>strncmp(a, b, n) == 0\<close>.\<close>

definition strneq :: "string \<Rightarrow> string \<Rightarrow> nat \<Rightarrow> bool" where
  "strneq a b n \<longleftrightarrow> take n a = take n b"

text \<open>What \<^verbatim>\<open>snprintf(buf, size, "%s", s)\<close> leaves in the buffer.\<close>

definition snprint :: "nat \<Rightarrow> string \<Rightarrow> string" where
  "snprint n s = take (n - 1) s"

lemma snprint_fits [simp]: "length s < n \<Longrightarrow> snprint n s = s"
  by (simp add: snprint_def)

subsection \<open>Substring search\<close>

text \<open>
  The offset of the first occurrence of a needle: \<^verbatim>\<open>strstr\<close> on C strings, and the binary-safe
  search loops on buffers.
\<close>

definition starts_with :: "'a list \<Rightarrow> 'a list \<Rightarrow> bool" where
  "starts_with s pre \<longleftrightarrow> take (length pre) s = pre"

fun find_sub :: "'a list \<Rightarrow> 'a list \<Rightarrow> nat option" where
  "find_sub s pat =
     (if starts_with s pat then Some 0
      else (case s of [] \<Rightarrow> None | _ # t \<Rightarrow> map_option Suc (find_sub t pat)))"

declare find_sub.simps [simp del]

lemma starts_with_iff: "starts_with s pre \<longleftrightarrow> (\<exists>t. s = pre @ t)"
  unfolding starts_with_def by (metis append_eq_conv_conj append_take_drop_id)

lemma starts_with_append [simp]: "starts_with (pre @ t) pre"
  by (simp add: starts_with_def)

lemma find_sub_Nil: "find_sub [] pat = (if pat = [] then Some 0 else None)"
  by (auto simp: find_sub.simps [of "[]"] starts_with_def)

lemma find_sub_Cons:
  "find_sub (c # t) pat =
     (if starts_with (c # t) pat then Some 0 else map_option Suc (find_sub t pat))"
  by (simp add: find_sub.simps [of "c # t"])

lemma find_sub_Some:
  "find_sub s pat = Some i \<Longrightarrow>
     s = take i s @ pat @ drop (i + length pat) s \<and> i + length pat \<le> length s"
proof (induction s arbitrary: i)
  case Nil
  then show ?case by (simp add: find_sub_Nil split: if_splits)
next
  case (Cons c s)
  show ?case
  proof (cases "starts_with (c # s) pat")
    case True
    with Cons.prems have "i = 0" by (simp add: find_sub_Cons)
    moreover obtain t where "c # s = pat @ t" using True by (auto simp: starts_with_iff)
    ultimately show ?thesis by simp
  next
    case False
    with Cons.prems obtain j where "find_sub s pat = Some j" and "i = Suc j"
      by (auto simp: find_sub_Cons)
    with Cons.IH show ?thesis by simp
  qed
qed

lemma find_sub_first:
  "find_sub s pat = Some i \<Longrightarrow> j < i \<Longrightarrow> \<not> starts_with (drop j s) pat"
proof (induction s arbitrary: i j)
  case Nil
  then show ?case by (simp add: find_sub_Nil split: if_splits)
next
  case (Cons c s)
  then show ?case
    by (cases j) (auto simp: find_sub_Cons split: if_splits)
qed

lemma find_sub_None: "find_sub s pat = None \<Longrightarrow> \<not> starts_with (drop j s) pat"
proof (induction s arbitrary: j)
  case Nil
  then show ?case by (auto simp: find_sub_Nil starts_with_def split: if_splits)
next
  case (Cons c s)
  then show ?case
    by (cases j) (auto simp: find_sub_Cons split: if_splits)
qed

lemma find_sub_append: "\<exists>i. find_sub (s @ pat @ t) pat = Some i \<and> i \<le> length s"
proof (induction s)
  case Nil
  show ?case by (simp add: find_sub.simps [of "pat @ t"])
next
  case (Cons c s)
  then show ?case by (auto simp: find_sub_Cons)
qed

subsection \<open>Splitting\<close>

text \<open>The reference reading of separated text: the parts between separators, empty ones included.\<close>

fun split_on :: "'a \<Rightarrow> 'a list \<Rightarrow> 'a list list" where
  "split_on d [] = [[]]"
| "split_on d (c # s) =
     (if c = d then [] # split_on d s
      else (case split_on d s of [] \<Rightarrow> [[c]] | e # es \<Rightarrow> (c # e) # es))"

lemma split_on_not_Nil [simp]: "split_on d s \<noteq> []"
  by (cases s) (auto split: list.splits)

lemma split_on_span:
  "split_on d s =
     takeWhile (\<lambda>c. c \<noteq> d) s #
       (case dropWhile (\<lambda>c. c \<noteq> d) s of [] \<Rightarrow> [] | c # r \<Rightarrow> split_on d r)"
  by (induction s) (auto split: list.splits)

lemma split_on_no_sep: "e \<in> set (split_on d s) \<Longrightarrow> d \<notin> set e"
  by (induction s arbitrary: e) (auto split: list.splits if_splits)

subsection \<open>Scanning to a delimiter\<close>

lemma dropWhile_neq_cases: "dropWhile (\<lambda>c. c \<noteq> d) p = [] \<or> (\<exists>t. dropWhile (\<lambda>c. c \<noteq> d) p = d # t)"
  by (induction p) auto

lemma span_neq [simp]:
  "d \<notin> set e \<Longrightarrow> takeWhile (\<lambda>c. c \<noteq> d) (e @ d # r) = e"
  "d \<notin> set e \<Longrightarrow> dropWhile (\<lambda>c. c \<noteq> d) (e @ d # r) = d # r"
  "d \<notin> set e \<Longrightarrow> takeWhile (\<lambda>c. c \<noteq> d) e = e"
  "d \<notin> set e \<Longrightarrow> dropWhile (\<lambda>c. c \<noteq> d) e = []"
  by (induction e) auto

lemma takeWhile_neq_notin [simp]: "d \<notin> set (takeWhile (\<lambda>c. c \<noteq> d) p)"
  by (induction p) auto

text \<open>A trailing run of characters removed.\<close>

definition rstrip :: "('a \<Rightarrow> bool) \<Rightarrow> 'a list \<Rightarrow> 'a list" where
  "rstrip P s = rev (dropWhile P (rev s))"

lemma rstrip_Nil [simp]: "rstrip P [] = []"
  by (simp add: rstrip_def)

lemma rstrip_snoc [simp]: "rstrip P (s @ [c]) = (if P c then rstrip P s else s @ [c])"
  by (simp add: rstrip_def)

lemma rstrip_prefix: "\<exists>t. s = rstrip P s @ t \<and> list_all P t"
proof (induction s rule: rev_induct)
  case (snoc c s)
  then obtain t where t: "s = rstrip P s @ t" "list_all P t" by blast
  show ?case
  proof (cases "P c")
    case True
    with t have "s @ [c] = rstrip P (s @ [c]) @ (t @ [c]) \<and> list_all P (t @ [c])" by simp
    then show ?thesis by blast
  qed simp
qed simp

lemma rstrip_length: "length (rstrip P s) \<le> length s"
  by (metis append_eq_conv_conj length_append le_add1 rstrip_prefix)

lemma rstrip_take: "rstrip P s = take (length (rstrip P s)) s"
  by (metis append_eq_conv_conj rstrip_prefix)

lemma set_rstrip: "set (rstrip P s) \<subseteq> set s"
  by (metis rstrip_take set_take_subset)

lemma rstrip_last: "rstrip P s \<noteq> [] \<Longrightarrow> \<not> P (last (rstrip P s))"
  by (induction s rule: rev_induct) auto

lemma rstrip_id: "s = [] \<or> \<not> P (last s) \<Longrightarrow> rstrip P s = s"
  by (cases s rule: rev_cases) auto

section \<open>Numbers in text\<close>

text \<open>The decimal conversions \<^verbatim>\<open>%u\<close>, \<^verbatim>\<open>%zu\<close>, \<^verbatim>\<open>%llu\<close> and \<^verbatim>\<open>%d\<close>, and \<^verbatim>\<open>%llx\<close>.\<close>

function show_base :: "nat \<Rightarrow> nat \<Rightarrow> string" where
  "show_base b n =
     (let dg = (\<lambda>k. char_of (if k < 10 then 48 + k else 87 + k :: nat))
      in if b < 2 \<or> n < b then [dg n] else show_base b (n div b) @ [dg (n mod b)])"
  by pat_completeness auto
termination by (relation "measure (\<lambda>(b, n). n)") auto

declare show_base.simps [simp del]

definition show_nat :: "nat \<Rightarrow> string" where
  "show_nat n = show_base 10 n"

definition show_int :: "int \<Rightarrow> string" where
  "show_int i = (if i < 0 then CHR ''-'' # show_nat (nat (- i)) else show_nat (nat i))"

definition digit_val :: "char \<Rightarrow> nat" where
  "digit_val c = byte c - 48"

definition digits_val :: "string \<Rightarrow> nat" where
  "digits_val s = foldl (\<lambda>v c. 10 * v + digit_val c) 0 s"

lemma digits_val_snoc [simp]: "digits_val (s @ [c]) = 10 * digits_val s + digit_val c"
  by (simp add: digits_val_def)

lemma show_nat_rec:
  "show_nat n = (if n < 10 then [char_of (48 + n)] else show_nat (n div 10) @ [char_of (48 + n mod 10)])"
  by (simp add: show_nat_def show_base.simps [of 10 n] Let_def)

lemma show_nat_digits: "show_nat n \<noteq> [] \<and> (\<forall>c \<in> set (show_nat n). is_digit c)"
proof (induction n rule: less_induct)
  case (less n)
  show ?case
  proof (cases "n < 10")
    case True
    then show ?thesis by (simp add: show_nat_rec [of n] is_digit_def)
  next
    case False
    then have "n div 10 < n" by simp
    then have "show_nat (n div 10) \<noteq> [] \<and> (\<forall>c \<in> set (show_nat (n div 10)). is_digit c)"
      by (rule less)
    with False show ?thesis by (simp add: show_nat_rec [of n]) (simp add: is_digit_def)
  qed
qed

lemma digits_val_show_nat [simp]: "digits_val (show_nat n) = n"
proof (induction n rule: less_induct)
  case (less n)
  show ?case
  proof (cases "n < 10")
    case True
    then show ?thesis
      using digits_val_snoc [of "[]"]
      by (simp add: show_nat_rec [of n] digits_val_def digit_val_def)
  next
    case False
    then have "n div 10 < n" by simp
    with less False show ?thesis
      by (simp add: show_nat_rec [of n] digit_val_def)
  qed
qed

text \<open>
  \<^verbatim>\<open>strtoll(s, &end, 10)\<close>: leading white space, an optional sign, decimal digits. The result is
  the value, the rest of the string at \<^verbatim>\<open>end\<close>, and whether \<^verbatim>\<open>errno\<close> was set to \<^verbatim>\<open>ERANGE\<close>, in which
  case the value is clamped. Without digits \<^verbatim>\<open>end\<close> is the start of the input.
\<close>

definition LLONG_MAX :: int where "LLONG_MAX = 2 ^ 63 - 1"
definition LLONG_MIN :: int where "LLONG_MIN = - (2 ^ 63)"

definition strtoll :: "string \<Rightarrow> int \<times> string \<times> bool" where
  "strtoll s =
     (let t = dropWhile is_space s;
          neg = (t \<noteq> [] \<and> hd t = CHR ''-'');
          u = (if t \<noteq> [] \<and> (hd t = CHR ''-'' \<or> hd t = CHR ''+'') then tl t else t);
          ds = takeWhile is_digit u;
          v = (if neg then - int (digits_val ds) else int (digits_val ds))
      in if ds = [] then (0, s, False)
         else (max LLONG_MIN (min LLONG_MAX v), dropWhile is_digit u,
               v < LLONG_MIN \<or> LLONG_MAX < v))"

lemma strtoll_digits:
  assumes "ds \<noteq> []" and "\<forall>c \<in> set ds. is_digit c" and "int (digits_val ds) \<le> LLONG_MAX"
    and "rest = [] \<or> \<not> is_digit (hd rest)"
  shows "strtoll (ds @ rest) = (int (digits_val ds), rest, False)"
proof -
  obtain d ds' where ds: "ds = d # ds'" using assms(1) by (cases ds) auto
  have d: "\<not> is_space d" "d \<noteq> CHR ''-''" "d \<noteq> CHR ''+''"
    using assms(2) ds by (auto simp: is_digit_def is_space_def)
  have tw: "takeWhile is_digit (ds @ rest) = ds" and dw: "dropWhile is_digit (ds @ rest) = rest"
    using assms(2,4) by (cases rest; simp add: takeWhile_append dropWhile_append takeWhile_eq_all_conv
        dropWhile_eq_Nil_conv)+
  have sp: "dropWhile is_space (ds @ rest) = ds @ rest" using d(1) ds by simp
  have hd: "hd (ds @ rest) = d" and ne: "ds @ rest \<noteq> []" using ds by simp_all
  show ?thesis
    unfolding strtoll_def Let_def sp hd
    using assms(1,3) d ne by (simp add: tw dw LLONG_MIN_def)
qed

lemma strtoll_show_nat:
  assumes "int n \<le> LLONG_MAX"
  shows "strtoll (show_nat n) = (int n, [], False)"
  using strtoll_digits [of "show_nat n" "[]"] show_nat_digits [of n] assms by simp

text \<open>The largest \<^verbatim>\<open>size_t\<close>.\<close>

definition SIZE_MAX :: nat where "SIZE_MAX = 2 ^ 64 - 1"

section \<open>Dynamic arrays\<close>

text \<open>
  Routes, headers, middlewares, encoders and path segments live in heap arrays with a count
  and a capacity. A full array doubles (starting from \<open>init\<close>); a failed \<^verbatim>\<open>realloc\<close> leaves it as it
  is. The count is the length of the list.
\<close>

definition grow_cap :: "nat \<Rightarrow> nat \<Rightarrow> nat" where
  "grow_cap init cap = (if cap = 0 then init else cap * 2)"

text \<open>
  The contract of such an array: a component that appends through \<open>push\<close> keeps the elements it
  has in order, adds at most one at the end, and never holds more elements than it has room for.
\<close>

locale dyn_array =
  fixes elems :: "'s \<Rightarrow> 'a list"
    and cap :: "'s \<Rightarrow> nat"
    and push :: "'s \<Rightarrow> 'x \<Rightarrow> 's"
    and elem :: "'x \<Rightarrow> 'a"
  assumes push_elems: "elems (push s x) = elems s \<or> elems (push s x) = elems s @ [elem x]"
    and push_room: "length (elems s) \<le> cap s \<Longrightarrow> length (elems (push s x)) \<le> cap (push s x)"
    and push_cap_mono: "cap s \<le> cap (push s x)"
begin

definition pushes :: "'s \<Rightarrow> 'x list \<Rightarrow> 's" where
  "pushes s xs = foldl push s xs"

lemma pushes_Nil [simp]: "pushes s [] = s"
  by (simp add: pushes_def)

lemma pushes_Cons [simp]: "pushes s (x # xs) = pushes (push s x) xs"
  by (simp add: pushes_def)

lemma pushes_room: "length (elems s) \<le> cap s \<Longrightarrow> length (elems (pushes s xs)) \<le> cap (pushes s xs)"
  by (induction xs arbitrary: s) (auto simp: push_room)

lemma pushes_prefix: "\<exists>ys. elems (pushes s xs) = elems s @ ys \<and> length ys \<le> length xs"
proof (induction xs arbitrary: s)
  case Nil
  show ?case by simp
next
  case (Cons x xs)
  obtain ys where "elems (pushes (push s x) xs) = elems (push s x) @ ys" "length ys \<le> length xs"
    using Cons.IH by blast
  with push_elems [of s x] show ?case by auto
qed

lemma pushes_keep: "i < length (elems s) \<Longrightarrow> elems (pushes s xs) ! i = elems s ! i"
  using pushes_prefix [of s xs] by (auto simp: nth_append)

end

section \<open>First-occurrence lookup\<close>

text \<open>
  Headers, query pairs, form pairs, route params, locals and multipart parts are looked up by a
  linear search that stops at the first key that compares equal.
\<close>

fun lookup_first :: "('k \<Rightarrow> 'k \<Rightarrow> bool) \<Rightarrow> ('k \<times> 'v) list \<Rightarrow> 'k \<Rightarrow> 'v option" where
  "lookup_first eq [] k = None"
| "lookup_first eq (e # es) k = (if eq (fst e) k then Some (snd e) else lookup_first eq es k)"

lemma lookup_first_append:
  "lookup_first eq (xs @ ys) k =
     (case lookup_first eq xs k of Some v \<Rightarrow> Some v | None \<Rightarrow> lookup_first eq ys k)"
  by (induction xs) auto

lemma lookup_first_None: "lookup_first eq es k = None \<longleftrightarrow> (\<forall>e \<in> set es. \<not> eq (fst e) k)"
  by (induction es) auto

lemma lookup_first_Some:
  "lookup_first eq es k = Some v \<longleftrightarrow>
     (\<exists>i < length es. eq (fst (es ! i)) k \<and> snd (es ! i) = v \<and> (\<forall>j < i. \<not> eq (fst (es ! j)) k))"
proof (induction es)
  case Nil
  then show ?case by simp
next
  case (Cons e es)
  show ?case
  proof (cases "eq (fst e) k")
    case True
    then show ?thesis by (auto simp: nth_Cons' split: if_splits)
  next
    case False
    then have "lookup_first eq (e # es) k = Some v \<longleftrightarrow> lookup_first eq es k = Some v" by simp
    also have "\<dots> \<longleftrightarrow> (\<exists>i < length (e # es). eq (fst ((e # es) ! i)) k \<and> snd ((e # es) ! i) = v \<and>
        (\<forall>j < i. \<not> eq (fst ((e # es) ! j)) k))"
      unfolding Cons.IH using False
      by (auto simp: Ex_less_Suc2 All_less_Suc2)
    finally show ?thesis .
  qed
qed

lemma lookup_first_eq_map_of: "lookup_first (=) es k = map_of es k"
  by (induction es) auto

end
