(* ===== verification/Sockets.thy ===== *)
theory Sockets
  imports Prelude
begin

text \<open>
  The socket layer. The kernel's side of a connection is a script: the outcomes of the coming
  \<^verbatim>\<open>recv\<close> calls (data, a signal, a poll timeout, an error; the end of the script is an orderly
  shutdown by the peer) and of the coming \<^verbatim>\<open>send\<close> calls (how many bytes are taken, a signal, an
  error; beyond the script everything is taken). \<^verbatim>\<open>read_request\<close>, \<^verbatim>\<open>send_all\<close> (\<^verbatim>\<open>c_http.c\<close>) and
  \<^verbatim>\<open>ws_send_raw\<close> (\<^verbatim>\<open>c_http_ws.c\<close>) are loops over these outcomes. The contract of a sender is a
  locale, interpreted on both senders.
\<close>

section \<open>The kernel's side\<close>

text \<open>\<^verbatim>\<open>RTimeout\<close> carries the value of \<^verbatim>\<open>server->listening\<close> at the moment the poll timeout fires.\<close>

datatype recv_event = RData "char list" | REintr | RTimeout bool | RError
datatype send_event = STake nat | SEintr | SError

record socket =
  inbox :: "recv_event list"
  sends :: "send_event list"
  outbox :: "char list"

datatype recv_result = Got "char list" | Eof | Eintr | Timeout bool | Failed

definition recv :: "nat \<Rightarrow> socket \<Rightarrow> recv_result \<times> socket" where
  "recv n s =
     (case inbox s of
        [] \<Rightarrow> (Eof, s)
      | RData bs # es \<Rightarrow>
          (if bs = [] \<or> n = 0 then (Eof, s)
           else if length bs \<le> n then (Got bs, s\<lparr>inbox := es\<rparr>)
           else (Got (take n bs), s\<lparr>inbox := RData (drop n bs) # es\<rparr>))
      | REintr # es \<Rightarrow> (Eintr, s\<lparr>inbox := es\<rparr>)
      | RTimeout l # es \<Rightarrow> (Timeout l, s\<lparr>inbox := es\<rparr>)
      | RError # es \<Rightarrow> (Failed, s\<lparr>inbox := es\<rparr>))"

text \<open>The bytes still to come, and the work left in a script: what every retry loop consumes.\<close>

fun event_size :: "recv_event \<Rightarrow> nat" where
  "event_size (RData bs) = Suc (length bs)"
| "event_size _ = 1"

definition script_size :: "socket \<Rightarrow> nat" where
  "script_size s = sum_list (map event_size (inbox s))"

fun event_bytes :: "recv_event \<Rightarrow> char list" where
  "event_bytes (RData bs) = bs"
| "event_bytes _ = []"

definition pending :: "socket \<Rightarrow> char list" where
  "pending s = concat (map event_bytes (inbox s))"

lemma recv_progress:
  "recv n s = (r, s') \<Longrightarrow> r \<noteq> Eof \<Longrightarrow> script_size s' < script_size s"
  by (auto simp: recv_def script_size_def split: list.splits recv_event.splits if_splits)

lemma recv_Eof: "recv n s = (Eof, s') \<Longrightarrow> s' = s"
  by (auto simp: recv_def split: list.splits recv_event.splits if_splits)

lemma recv_Got:
  "recv n s = (Got bs, s') \<Longrightarrow> 0 < length bs \<and> length bs \<le> n \<and> pending s = bs @ pending s'"
  by (auto simp: recv_def pending_def split: list.splits recv_event.splits if_splits)

lemma recv_frame:
  "recv n s = (r, s') \<Longrightarrow> outbox s' = outbox s \<and> sends s' = sends s"
  by (auto simp: recv_def split: list.splits recv_event.splits if_splits)

lemma recv_pending:
  "recv n s = (r, s') \<Longrightarrow> (\<And>bs. r \<noteq> Got bs) \<Longrightarrow> pending s' = pending s"
  by (auto simp: recv_def pending_def split: list.splits recv_event.splits if_splits)

section \<open>Sending: \<open>send_all\<close> and \<open>ws_send_raw\<close>\<close>

function send_all :: "socket \<Rightarrow> char list \<Rightarrow> int \<times> socket" where
  "send_all s data =
     (if data = [] then (0, s)
      else (case sends s of
              [] \<Rightarrow> (0, s\<lparr>outbox := outbox s @ data\<rparr>)
            | STake k # es \<Rightarrow>
                send_all (s\<lparr>sends := es, outbox := outbox s @ take k data\<rparr>) (drop k data)
            | SEintr # es \<Rightarrow> send_all (s\<lparr>sends := es\<rparr>) data
            | SError # es \<Rightarrow> (- 1, s\<lparr>sends := es\<rparr>)))"
  by pat_completeness auto
termination by (relation "measure (\<lambda>(s, data). length (sends s))") auto

declare send_all.simps [simp del]

text \<open>\<^verbatim>\<open>ws_send_raw\<close> repeats the loop in the other translation unit.\<close>

function ws_send_raw :: "socket \<Rightarrow> char list \<Rightarrow> int \<times> socket" where
  "ws_send_raw s data =
     (if data = [] then (0, s)
      else (case sends s of
              [] \<Rightarrow> (0, s\<lparr>outbox := outbox s @ data\<rparr>)
            | STake k # es \<Rightarrow>
                ws_send_raw (s\<lparr>sends := es, outbox := outbox s @ take k data\<rparr>) (drop k data)
            | SEintr # es \<Rightarrow> ws_send_raw (s\<lparr>sends := es\<rparr>) data
            | SError # es \<Rightarrow> (- 1, s\<lparr>sends := es\<rparr>)))"
  by pat_completeness auto
termination by (relation "measure (\<lambda>(s, data). length (sends s))") auto

declare ws_send_raw.simps [simp del]

subsection \<open>The contract of a sender\<close>

locale byte_sender =
  fixes send :: "socket \<Rightarrow> char list \<Rightarrow> int \<times> socket"
  assumes send_prefix:
      "send s data = (rc, s') \<Longrightarrow> \<exists>k. outbox s' = outbox s @ take k data \<and> (rc = 0 \<longrightarrow> length data \<le> k)"
    and send_rc: "send s data = (rc, s') \<Longrightarrow> rc = 0 \<or> rc = - 1"
    and send_inbox: "send s data = (rc, s') \<Longrightarrow> inbox s' = inbox s"
    and send_reliable: "sends s = [] \<Longrightarrow> send s data = (0, s\<lparr>outbox := outbox s @ data\<rparr>)"
begin

text \<open>A response goes out as a sequence of chunks; the first failure ends it.\<close>

fun send_chunks :: "socket \<Rightarrow> char list list \<Rightarrow> int \<times> socket" where
  "send_chunks s [] = (0, s)"
| "send_chunks s (c # cs) =
     (case send s c of (rc, s') \<Rightarrow> if rc \<noteq> 0 then (- 1, s') else send_chunks s' cs)"

lemma send_complete:
  "send s data = (0, s') \<Longrightarrow> outbox s' = outbox s @ data"
  using send_prefix by fastforce

lemma send_chunks_complete:
  "send_chunks s cs = (0, s') \<Longrightarrow> outbox s' = outbox s @ concat cs"
proof (induction cs arbitrary: s)
  case Nil
  then show ?case by simp
next
  case (Cons c cs)
  obtain rc t where "send s c = (rc, t)" by (cases "send s c")
  with Cons show ?case by (auto simp: send_complete split: if_splits)
qed

lemma send_chunks_prefix:
  "send_chunks s cs = (rc, s') \<Longrightarrow> \<exists>k. outbox s' = outbox s @ take k (concat cs)"
proof (induction cs arbitrary: s)
  case Nil
  then show ?case by simp
next
  case (Cons c cs)
  obtain r t where s: "send s c = (r, t)" by (cases "send s c")
  show ?case
  proof (cases "r = 0")
    case True
    with Cons.prems s have "send_chunks t cs = (rc, s')" by simp
    with Cons.IH obtain k where "outbox s' = outbox t @ take k (concat cs)" by blast
    moreover have "outbox t = outbox s @ c" using s True send_complete by simp
    ultimately have "outbox s' = outbox s @ take (length c + k) (concat (c # cs))" by simp
    then show ?thesis by blast
  next
    case False
    obtain k where k: "outbox t = outbox s @ take k c" using send_prefix s by blast
    moreover have "s' = t" using Cons.prems s False by simp
    moreover have "take (min k (length c)) (concat (c # cs)) = take k c" by (simp add: min_def)
    ultimately show ?thesis by metis
  qed
qed

lemma send_chunks_inbox: "send_chunks s cs = (rc, s') \<Longrightarrow> inbox s' = inbox s"
proof (induction cs arbitrary: s)
  case Nil
  then show ?case by simp
next
  case (Cons c cs)
  obtain r t where "send s c = (r, t)" by (cases "send s c")
  with Cons show ?case by (auto dest: send_inbox split: if_splits)
qed

lemma send_chunks_reliable:
  "sends s = [] \<Longrightarrow> send_chunks s cs = (0, s\<lparr>outbox := outbox s @ concat cs\<rparr>)"
  by (induction cs arbitrary: s) (simp_all add: send_reliable)

end

lemma send_all_prefix:
  "send_all s data = (rc, s') \<Longrightarrow> \<exists>k. outbox s' = outbox s @ take k data \<and> (rc = 0 \<longrightarrow> length data \<le> k)"
proof (induction s data arbitrary: rc s' rule: send_all.induct)
  case (1 s data)
  show ?case
  proof (cases "data = []")
    case True
    with "1.prems" show ?thesis by (simp add: send_all.simps)
  next
    case ne: False
    show ?thesis
    proof (cases "sends s")
      case Nil
      with ne "1.prems" have "outbox s' = outbox s @ take (length data) data"
        by (auto simp: send_all.simps [of s data])
      then show ?thesis by blast
    next
      case (Cons e es)
      show ?thesis
      proof (cases e)
        case (STake k)
        let ?s = "s\<lparr>sends := es, outbox := outbox s @ take k data\<rparr>"
        have "send_all ?s (drop k data) = (rc, s')"
          using ne Cons STake "1.prems" by (simp add: send_all.simps [of s data])
        then obtain m where "outbox s' = outbox ?s @ take m (drop k data)"
          and "rc = 0 \<longrightarrow> length (drop k data) \<le> m"
          using "1.IH"(1) [OF ne Cons STake] by blast
        then have "outbox s' = outbox s @ take (k + m) data \<and> (rc = 0 \<longrightarrow> length data \<le> k + m)"
          by (auto simp: take_add)
        then show ?thesis by blast
      next
        case SEintr
        then have "send_all (s\<lparr>sends := es\<rparr>) data = (rc, s')"
          using ne Cons "1.prems" by (simp add: send_all.simps [of s data])
        then show ?thesis using "1.IH"(2) [OF ne Cons SEintr] by simp
      next
        case SError
        then have "outbox s' = outbox s @ take 0 data \<and> rc \<noteq> 0"
          using ne Cons "1.prems" by (auto simp: send_all.simps [of s data])
        then show ?thesis by blast
      qed
    qed
  qed
qed

lemma send_all_rc: "send_all s data = (rc, s') \<Longrightarrow> (rc = 0 \<or> rc = - 1) \<and> inbox s' = inbox s"
proof (induction s data arbitrary: rc s' rule: send_all.induct)
  case (1 s data)
  from "1.prems" show ?case
    unfolding send_all.simps [of s data]
    by (auto split: if_splits list.splits send_event.splits dest: "1.IH")
qed

lemma ws_send_raw_eq_send_all: "ws_send_raw s data = send_all s data"
proof (induction s data rule: send_all.induct)
  case (1 s data)
  then show ?case
    unfolding ws_send_raw.simps [of s data] send_all.simps [of s data]
    by (auto split: list.splits send_event.splits)
qed

interpretation sock: byte_sender send_all
proof unfold_locales
  fix s s' data rc
  assume a: "send_all s data = (rc, s')"
  show "\<exists>k. outbox s' = outbox s @ take k data \<and> (rc = 0 \<longrightarrow> length data \<le> k)"
    using a by (rule send_all_prefix)
  show "rc = 0 \<or> rc = - 1" and "inbox s' = inbox s" using send_all_rc [OF a] by auto
next
  fix s :: socket and data
  assume "sends s = []"
  then show "send_all s data = (0, s\<lparr>outbox := outbox s @ data\<rparr>)"
    by (simp add: send_all.simps)
qed

interpretation wssock: byte_sender ws_send_raw
  unfolding ws_send_raw_eq_send_all [abs_def]
  by (rule sock.byte_sender_axioms)

end
