(* ===== verification/Http_Types.thy ===== *)
theory Http_Types
  imports Sockets
begin

text \<open>
  The data model of \<^verbatim>\<open>include/c_http.h\<close> (and of the structs private to \<^verbatim>\<open>c_http.c\<close>,
  \<^verbatim>\<open>c_http_static.h\<close> and \<^verbatim>\<open>c_http_ws.c\<close>): limits, enums as datatypes, structs as records. A heap
  array with a count is a list; the capacity is kept where the code grows the array. Handlers
  are functions of the request and the response, as in the C callback types.
\<close>

section \<open>Limits\<close>

definition HTTP_METHOD_MAX :: nat where "HTTP_METHOD_MAX = 8"
definition HTTP_PATH_MAX :: nat where "HTTP_PATH_MAX = 512"
definition HTTP_VERSION_MAX :: nat where "HTTP_VERSION_MAX = 16"
definition HTTP_MAX_HEADERS :: nat where "HTTP_MAX_HEADERS = 64"
definition HTTP_MAX_BODY :: nat where "HTTP_MAX_BODY = 50 * 1024 * 1024"
definition HTTP_MAX_PARAMS :: nat where "HTTP_MAX_PARAMS = 16"
definition HTTP_PARAM_KEY_MAX :: nat where "HTTP_PARAM_KEY_MAX = 32"
definition HTTP_PARAM_VALUE_MAX :: nat where "HTTP_PARAM_VALUE_MAX = 64"
definition HTTP_MAX_QUERY :: nat where "HTTP_MAX_QUERY = 16"
definition HTTP_QUERY_KEY_MAX :: nat where "HTTP_QUERY_KEY_MAX = 32"
definition HTTP_QUERY_VALUE_MAX :: nat where "HTTP_QUERY_VALUE_MAX = 64"
definition HTTP_MAX_LOCALS :: nat where "HTTP_MAX_LOCALS = 16"
definition HTTP_LOCAL_KEY_MAX :: nat where "HTTP_LOCAL_KEY_MAX = 32"
definition HTTP_LOCAL_VALUE_MAX :: nat where "HTTP_LOCAL_VALUE_MAX = 64"
definition HTTP_ERROR_MESSAGE_MAX :: nat where "HTTP_ERROR_MESSAGE_MAX = 256"
definition HTTP_MAX_MULTIPART_PARTS :: nat where "HTTP_MAX_MULTIPART_PARTS = 16"
definition HTTP_MULTIPART_NAME_MAX :: nat where "HTTP_MULTIPART_NAME_MAX = 32"
definition HTTP_MULTIPART_FILE_MAX :: nat where "HTTP_MULTIPART_FILE_MAX = 64"
definition RES_BODY_MAX :: nat where "RES_BODY_MAX = 4096"
definition SEGMENT_TEXT_MAX :: nat where "SEGMENT_TEXT_MAX = 64"

lemmas limit_defs =
  HTTP_METHOD_MAX_def HTTP_PATH_MAX_def HTTP_VERSION_MAX_def HTTP_MAX_HEADERS_def
  HTTP_MAX_BODY_def HTTP_MAX_PARAMS_def HTTP_PARAM_KEY_MAX_def HTTP_PARAM_VALUE_MAX_def
  HTTP_MAX_QUERY_def HTTP_QUERY_KEY_MAX_def HTTP_QUERY_VALUE_MAX_def HTTP_MAX_LOCALS_def
  HTTP_LOCAL_KEY_MAX_def HTTP_LOCAL_VALUE_MAX_def HTTP_ERROR_MESSAGE_MAX_def
  HTTP_MAX_MULTIPART_PARTS_def HTTP_MULTIPART_NAME_MAX_def HTTP_MULTIPART_FILE_MAX_def
  RES_BODY_MAX_def SEGMENT_TEXT_MAX_def

section \<open>Enums\<close>

datatype HttpMethod =
    HTTP_METHOD_GET | HTTP_METHOD_POST | HTTP_METHOD_PUT | HTTP_METHOD_PATCH
  | HTTP_METHOD_DELETE | HTTP_METHOD_HEAD | HTTP_METHOD_OPTIONS | HTTP_METHOD_CONNECT
  | HTTP_METHOD_TRACE

datatype HttpRouteAddResult = HTTP_ROUTE_ADD_OK | HTTP_ROUTE_ADD_CONFLICT | HTTP_ROUTE_ADD_ERROR
datatype HttpUseResult = HTTP_USE_OK | HTTP_USE_ERROR
datatype HttpServerResult = SERVER_OK | SERVER_ERROR
datatype HttpBodyType =
  HTTP_BODY_NONE | HTTP_BODY_URLENCODED | HTTP_BODY_JSON | HTTP_BODY_MULTIPART | HTTP_BODY_OTHER
datatype HttpMiddlewareResult = HTTP_MIDDLEWARE_CONTINUE | HTTP_MIDDLEWARE_STOP
datatype HttpMiddlewareAddResult = HTTP_MIDDLEWARE_ADD_OK | HTTP_MIDDLEWARE_ADD_ERROR
datatype HttpSetHeaderResult = HTTP_SET_HEADER_OK | HTTP_SET_HEADER_ERROR
datatype HttpSetLocalResult = HTTP_SET_LOCAL_OK | HTTP_SET_LOCAL_ERROR
datatype HttpEncoderAddResult = HTTP_ENCODER_ADD_OK | HTTP_ENCODER_ADD_ERROR

text \<open>The members of \<^verbatim>\<open>HttpStatus\<close>, in declaration order.\<close>

definition HttpStatus :: "int list" where
  "HttpStatus =
     [100, 101, 102, 103,
      200, 201, 202, 203, 204, 205, 206, 207, 208, 226,
      300, 301, 302, 303, 304, 305, 307, 308,
      400, 401, 402, 403, 404, 405, 406, 407, 408, 409, 410, 411, 412, 413, 414, 415, 416, 417,
      418, 421, 422, 423, 424, 425, 426, 428, 429, 431, 451,
      500, 501, 502, 503, 504, 505, 506, 507, 508, 510, 511]"

section \<open>Request and response\<close>

type_synonym HttpHeader = "string \<times> string"

record HttpHeaders =
  items :: "HttpHeader list"
  capacity :: nat

definition no_headers :: HttpHeaders where
  "no_headers = \<lparr>items = [], capacity = 0\<rparr>"

record HttpRouteSegment =
  seg_text :: string
  is_param :: bool

record HttpRouteSegments =
  segments :: "HttpRouteSegment list"
  segs_capacity :: nat

text \<open>Route params live in a fixed array of slots; only the first \<open>param_count\<close> are valid.\<close>

record HttpParams =
  param_slots :: "(string \<times> string) list"
  param_count :: nat

definition no_params :: HttpParams where
  "no_params = \<lparr>param_slots = replicate HTTP_MAX_PARAMS ([], []), param_count = 0\<rparr>"

type_synonym HttpQuery = "(string \<times> string) list"
type_synonym HttpLocals = "(string \<times> string) list"

text \<open>Part data is a slice of the request body: offset and length.\<close>

record HttpMultipartPart =
  part_name :: string
  part_filename :: string
  part_content_type :: string
  part_data :: nat
  part_data_len :: nat

type_synonym HttpMultiparts = "HttpMultipartPart list"

record HttpRequest =
  req_method :: string
  req_path :: string
  req_version :: string
  req_ip :: string
  req_client_port :: nat
  req_headers :: HttpHeaders
  req_body :: "char list option"
  req_body_len :: nat
  req_params :: HttpParams
  req_query :: HttpQuery
  req_form :: HttpQuery
  req_multiparts :: HttpMultiparts

text \<open>
  \<^verbatim>\<open>body\<close>/\<^verbatim>\<open>body_len\<close> is the list of the valid bytes of the fixed buffer; \<^verbatim>\<open>dyn_body\<close> and
  \<^verbatim>\<open>encoded_body\<close> are the heap bodies with their lengths.
\<close>

record HttpResponse =
  res_status :: int
  res_body :: "char list"
  res_headers :: HttpHeaders
  dyn_body :: "char list option"
  res_locals :: HttpLocals
  encoded_body :: "char list option"
  file_path :: "string option"
  ranged :: bool
  range_start :: nat
  range_len :: nat
  res_error :: bool
  error_message :: string

definition empty_request :: HttpRequest where
  "empty_request =
     \<lparr>req_method = [], req_path = [], req_version = [], req_ip = [], req_client_port = 0,
      req_headers = no_headers, req_body = None, req_body_len = 0, req_params = no_params,
      req_query = [], req_form = [], req_multiparts = []\<rparr>"

definition empty_response :: HttpResponse where
  "empty_response =
     \<lparr>res_status = 0, res_body = [], res_headers = no_headers, dyn_body = None, res_locals = [],
      encoded_body = None, file_path = None, ranged = False, range_start = 0, range_len = 0,
      res_error = False, error_message = []\<rparr>"

type_synonym HttpHandler = "HttpRequest \<Rightarrow> HttpResponse \<Rightarrow> HttpResponse"
type_synonym HttpMiddlewareHandler =
  "HttpRequest \<Rightarrow> HttpResponse \<Rightarrow> HttpMiddlewareResult \<times> HttpResponse"
type_synonym HttpErrorHandler =
  "HttpRequest \<Rightarrow> HttpResponse \<Rightarrow> int \<Rightarrow> string \<Rightarrow> HttpResponse"

section \<open>Server configuration\<close>

record HttpRoute =
  route_path :: string
  route_handler :: HttpHandler
  route_method :: HttpMethod
  route_segments :: HttpRouteSegments

record HttpRoutes =
  routes :: "HttpRoute list"
  routes_capacity :: nat

record HttpRouter =
  router_routes :: HttpRoutes
  mounted :: bool

text \<open>Routers are shared between the application and the server: a mount holds a reference.\<close>

type_synonym router_ref = nat
type_synonym router_heap = "router_ref \<Rightarrow> HttpRouter option"

record HttpRouterMount =
  prefix_segments :: HttpRouteSegments
  mount_router :: router_ref

record HttpMiddleware =
  mid_path :: "string option"
  mid_handler :: HttpMiddlewareHandler

record HttpMiddlewares =
  middlewares :: "HttpMiddleware list"
  middlewares_capacity :: nat

text \<open>An encoder returns the encoded bytes, or \<^const>\<open>None\<close> for a non-zero return code.\<close>

record HttpEncoder =
  enc_name :: string
  encode :: "char list \<Rightarrow> char list option"

record HttpEncoders =
  encoders :: "HttpEncoder list"
  encoders_capacity :: nat

record HttpStaticConfig =
  cfg_prefix :: string
  cfg_root :: string
  cfg_index_file :: "string option"
  cfg_max_age :: nat

end
