(* ===== verification/Headers.thy ===== *)
theory Headers
  imports Http_Types
begin

text \<open>
  Header fields: the validation guards (\<^verbatim>\<open>is_tchar\<close>, \<^verbatim>\<open>is_valid_header_name\<close>,
  \<^verbatim>\<open>header_value_has_injection\<close>), the status and method tables, the growing header array
  (\<^verbatim>\<open>apply_header\<close>, \<^verbatim>\<open>http_set_header\<close>, \<^verbatim>\<open>replace_header\<close>), case-insensitive access
  (\<^verbatim>\<open>http_req_header\<close>) and the token scan of comma-separated values. The lemmas show that no field
  with an invalid name or a line break in its value ever enters the array, that failures change
  no field, and that the token scan decides membership in the comma-separated list.
\<close>

section \<open>Validation\<close>

definition is_tchar :: "char \<Rightarrow> bool" where
  "is_tchar c \<longleftrightarrow>
     (48 \<le> byte c \<and> byte c \<le> 57) \<or> (97 \<le> byte c \<and> byte c \<le> 122) \<or>
     (65 \<le> byte c \<and> byte c \<le> 90) \<or>
     strchr_found (''!#$%&'' @ [CHR 0x27] @ ''*+-.^_'' @ [CHR 0x60] @ ''|~'') c"

fun header_name_loop :: "string \<Rightarrow> bool" where
  "header_name_loop [] = True"
| "header_name_loop (c # p) =
     (if byte c \<le> 0x20 \<or> byte c = 0x7f \<or> byte c > 0x7e then False
      else if \<not> is_tchar c then False
      else header_name_loop p)"

definition is_valid_header_name :: "string \<Rightarrow> bool" where
  "is_valid_header_name name = (if name = [] then False else header_name_loop name)"

fun header_value_has_injection :: "string \<Rightarrow> bool" where
  "header_value_has_injection [] = False"
| "header_value_has_injection (c # p) =
     (if c = CR \<or> c = LF then True else header_value_has_injection p)"

text \<open>\<^verbatim>\<open>HTTP/d.d\<close> and nothing else; reading past a shorter string meets its terminator.\<close>

definition is_valid_http_version :: "string \<Rightarrow> bool" where
  "is_valid_http_version v \<longleftrightarrow>
     strneq v ''HTTP/'' 5 \<and> length v = 8 \<and> is_digit (v ! 5) \<and> v ! 6 = CHR ''.'' \<and> is_digit (v ! 7)"

definition is_valid_status_code :: "int \<Rightarrow> bool" where
  "is_valid_status_code status \<longleftrightarrow> status \<ge> 100 \<and> status \<le> 599"

section \<open>Status and method tables\<close>

definition status_table :: "(int \<times> string) list" where
  "status_table =
     [(100, ''Continue''), (101, ''Switching Protocols''), (102, ''Processing''),
      (103, ''Early Hints''), (200, ''OK''), (201, ''Created''), (202, ''Accepted''),
      (203, ''Non-Authoritative Information''), (204, ''No Content''), (205, ''Reset Content''),
      (206, ''Partial Content''), (207, ''Multi-Status''), (208, ''Already Reported''),
      (226, ''IM Used''), (300, ''Multiple Choices''), (301, ''Moved Permanently''),
      (302, ''Found''), (303, ''See Other''), (304, ''Not Modified''), (305, ''Use Proxy''),
      (307, ''Temporary Redirect''), (308, ''Permanent Redirect''), (400, ''Bad Request''),
      (401, ''Unauthorized''), (402, ''Payment Required''), (403, ''Forbidden''),
      (404, ''Not Found''), (405, ''Method Not Allowed''), (406, ''Not Acceptable''),
      (407, ''Proxy Authentication Required''), (408, ''Request Timeout''), (409, ''Conflict''),
      (410, ''Gone''), (411, ''Length Required''), (412, ''Precondition Failed''),
      (413, ''Content Too Large''), (414, ''URI Too Long''), (415, ''Unsupported Media Type''),
      (416, ''Range Not Satisfiable''), (417, ''Expectation Failed''),
      (418, ''I'' @ [CHR 0x27] @ ''m a Teapot''), (421, ''Misdirected Request''),
      (422, ''Unprocessable Content''), (423, ''Locked''), (424, ''Failed Dependency''),
      (425, ''Too Early''), (426, ''Upgrade Required''), (428, ''Precondition Required''),
      (429, ''Too Many Requests''), (431, ''Request Header Fields Too Large''),
      (451, ''Unavailable for Legal Reasons''), (500, ''Internal Server Error''),
      (501, ''Not Implemented''), (502, ''Bad Gateway''), (503, ''Service Unavailable''),
      (504, ''Gateway Timeout''), (505, ''HTTP Version Not Supported''),
      (506, ''Variant Also Negotiates''), (507, ''Insufficient Storage''),
      (508, ''Loop Detected''), (510, ''Not Extended''),
      (511, ''Network Authentication Required'')]"

definition status_text :: "int \<Rightarrow> string" where
  "status_text status =
     (if \<not> is_valid_status_code status then ''Unknown''
      else (case map_of status_table status of Some t \<Rightarrow> t | None \<Rightarrow> ''Unknown''))"

fun method_name :: "HttpMethod \<Rightarrow> string" where
  "method_name HTTP_METHOD_GET = ''GET''"
| "method_name HTTP_METHOD_POST = ''POST''"
| "method_name HTTP_METHOD_PUT = ''PUT''"
| "method_name HTTP_METHOD_PATCH = ''PATCH''"
| "method_name HTTP_METHOD_DELETE = ''DELETE''"
| "method_name HTTP_METHOD_HEAD = ''HEAD''"
| "method_name HTTP_METHOD_OPTIONS = ''OPTIONS''"
| "method_name HTTP_METHOD_CONNECT = ''CONNECT''"
| "method_name HTTP_METHOD_TRACE = ''TRACE''"

definition string_to_http_method :: "string \<Rightarrow> HttpMethod option" where
  "string_to_http_method m =
     (if m = ''GET'' then Some HTTP_METHOD_GET
      else if m = ''POST'' then Some HTTP_METHOD_POST
      else if m = ''PUT'' then Some HTTP_METHOD_PUT
      else if m = ''PATCH'' then Some HTTP_METHOD_PATCH
      else if m = ''DELETE'' then Some HTTP_METHOD_DELETE
      else if m = ''HEAD'' then Some HTTP_METHOD_HEAD
      else if m = ''OPTIONS'' then Some HTTP_METHOD_OPTIONS
      else if m = ''CONNECT'' then Some HTTP_METHOD_CONNECT
      else if m = ''TRACE'' then Some HTTP_METHOD_TRACE
      else None)"

section \<open>The header array\<close>

text \<open>\<^verbatim>\<open>sizeof(HttpHeader)\<close> is 16: two pointers.\<close>

definition apply_header :: "allocator \<Rightarrow> HttpHeaders \<Rightarrow> string \<Rightarrow> string \<Rightarrow> int \<times> HttpHeaders" where
  "apply_header mem headers key value =
     (if \<not> is_valid_header_name key then (- 1, headers)
      else if header_value_has_injection value then (- 1, headers)
      else
        let full = (length (items headers) = capacity headers);
            new_cap = grow_cap 8 (capacity headers)
        in if full \<and> \<not> mem (new_cap * 16) then (- 1, headers)
           else
             let grown = (if full then headers\<lparr>capacity := new_cap\<rparr> else headers)
             in if \<not> mem (length key + 1) \<or> \<not> mem (length value + 1) then (- 1, grown)
                else (0, grown\<lparr>items := items grown @ [(key, value)]\<rparr>))"

definition http_set_header ::
  "allocator \<Rightarrow> HttpHeaders \<Rightarrow> string option \<Rightarrow> string option \<Rightarrow> HttpSetHeaderResult \<times> HttpHeaders"
where
  "http_set_header mem headers key value =
     (case (key, value) of
        (Some k, Some v) \<Rightarrow>
          (case apply_header mem headers k v of
             (rc, h) \<Rightarrow> (if rc < 0 then HTTP_SET_HEADER_ERROR else HTTP_SET_HEADER_OK, h))
      | _ \<Rightarrow> (HTTP_SET_HEADER_ERROR, headers))"

text \<open>The loop of \<^verbatim>\<open>replace_header\<close>: the first field with the key gets the new value.\<close>

fun replace_loop ::
  "allocator \<Rightarrow> HttpHeader list \<Rightarrow> string \<Rightarrow> string \<Rightarrow> (int \<times> HttpHeader list) option" where
  "replace_loop mem [] key value = None"
| "replace_loop mem (h # hs) key value =
     (if strcaseeq (fst h) key
      then (if mem (length value + 1) then Some (0, (fst h, value) # hs) else Some (- 1, h # hs))
      else map_option (\<lambda>(rc, t). (rc, h # t)) (replace_loop mem hs key value))"

definition replace_header :: "allocator \<Rightarrow> HttpHeaders \<Rightarrow> string \<Rightarrow> string \<Rightarrow> int \<times> HttpHeaders" where
  "replace_header mem headers key value =
     (case replace_loop mem (items headers) key value of
        Some (rc, hs) \<Rightarrow> (rc, headers\<lparr>items := hs\<rparr>)
      | None \<Rightarrow> apply_header mem headers key value)"

definition http_headers_free :: "HttpHeaders \<Rightarrow> HttpHeaders" where
  "http_headers_free headers = headers\<lparr>items := [], capacity := 0\<rparr>"

section \<open>Access\<close>

definition http_req_header :: "HttpRequest \<Rightarrow> string option \<Rightarrow> string option" where
  "http_req_header req key =
     (case key of None \<Rightarrow> None
      | Some k \<Rightarrow> lookup_first strcaseeq (items (req_headers req)) k)"

section \<open>Comma-separated values\<close>

definition is_list_sep :: "char \<Rightarrow> bool" where
  "is_list_sep c \<longleftrightarrow> c = SP \<or> c = TAB \<or> c = CHR '',''"

definition rtrim :: "string \<Rightarrow> string" where
  "rtrim s = rev (dropWhile is_ows (rev s))"

lemma scan_shorter:
  "v \<noteq> [] \<Longrightarrow> length (dropWhile (\<lambda>c. c \<noteq> CHR '','') (dropWhile is_list_sep v)) < length v"
  by (cases v)
    (auto simp: is_list_sep_def less_Suc_eq_le intro: order_trans [OF length_dropWhile_le])

function header_contains_token :: "string \<Rightarrow> string \<Rightarrow> bool" where
  "header_contains_token value token =
     (if value = [] then False
      else
        let start = dropWhile is_list_sep value;
            el = rtrim (takeWhile (\<lambda>c. c \<noteq> CHR '','') start);
            rest = dropWhile (\<lambda>c. c \<noteq> CHR '','') start
        in if length el = length token \<and> strncaseeq el token (length el) then True
           else header_contains_token rest token)"
  by pat_completeness auto
termination
  by (relation "measure (\<lambda>(v, t). length v)") (auto simp: scan_shorter)

declare header_contains_token.simps [simp del]

section \<open>Validation lemmas\<close>

lemma tchar_range: "is_tchar c \<Longrightarrow> c = NUL \<or> (0x20 < byte c \<and> byte c < 0x7f)"
  unfolding is_tchar_def strchr_found_def by (elim disjE) auto

lemma is_valid_header_name_iff:
  "is_valid_header_name name \<longleftrightarrow> name \<noteq> [] \<and> (\<forall>c \<in> set name. is_tchar c \<and> c \<noteq> NUL)"
proof -
  have "header_name_loop p \<longleftrightarrow> (\<forall>c \<in> set p. is_tchar c \<and> c \<noteq> NUL)" for p
  proof (induction p)
    case (Cons c p)
    have "header_name_loop (c # p) \<longleftrightarrow> is_tchar c \<and> c \<noteq> NUL \<and> header_name_loop p"
    proof (cases "is_tchar c")
      case True
      then have "c = NUL \<or> (0x20 < byte c \<and> byte c < 0x7f)" by (rule tchar_range)
      then show ?thesis using True by (elim disjE) auto
    qed simp
    with Cons.IH show ?case by simp
  qed simp
  then show ?thesis by (simp add: is_valid_header_name_def)
qed

lemma header_value_has_injection_iff:
  "header_value_has_injection v \<longleftrightarrow> CR \<in> set v \<or> LF \<in> set v"
  by (induction v) auto

lemma valid_name_no_colon_or_break:
  assumes "is_valid_header_name name" and "c \<in> set name"
  shows "c \<noteq> CHR '':'' \<and> c \<noteq> CR \<and> c \<noteq> LF \<and> c \<noteq> SP \<and> c \<noteq> TAB \<and> c \<noteq> NUL"
proof -
  have c: "is_tchar c" "c \<noteq> NUL" using assms by (auto simp: is_valid_header_name_iff)
  have "\<not> is_tchar CHR '':''" "\<not> is_tchar CR" "\<not> is_tchar LF" "\<not> is_tchar SP" "\<not> is_tchar TAB"
    by (simp_all add: is_tchar_def strchr_found_def)
  with c show ?thesis by metis
qed

section \<open>The header array: invariant and behaviour\<close>

text \<open>Every stored field has a valid name and a value without line breaks.\<close>

definition field_ok :: "HttpHeader \<Rightarrow> bool" where
  "field_ok h \<longleftrightarrow> is_valid_header_name (fst h) \<and> \<not> header_value_has_injection (snd h)"

definition headers_inv :: "HttpHeaders \<Rightarrow> bool" where
  "headers_inv h \<longleftrightarrow> length (items h) \<le> capacity h \<and> list_all field_ok (items h)"

lemma headers_inv_empty [inv_intros, simp]: "headers_inv no_headers"
  by (simp add: headers_inv_def no_headers_def)

lemma apply_header_rejects [http_simps]:
  "\<not> is_valid_header_name k \<Longrightarrow> apply_header mem h k v = (- 1, h)"
  "header_value_has_injection v \<Longrightarrow> apply_header mem h k v = (- 1, h)"
  by (simp_all add: apply_header_def)

lemma apply_header_cases:
  assumes "apply_header mem h k v = (rc, h')"
  shows "(rc = - 1 \<and> items h' = items h) \<or>
         (rc = 0 \<and> items h' = items h @ [(k, v)] \<and> field_ok (k, v))"
  using assms
  by (auto simp: apply_header_def field_ok_def Let_def split: if_splits)

lemma apply_header_rc: "fst (apply_header mem h k v) = 0 \<or> fst (apply_header mem h k v) = - 1"
  by (auto simp: apply_header_def Let_def)

lemma apply_header_ok [http_simps]:
  assumes "\<And>n. mem n" and "field_ok (k, v)"
  shows "fst (apply_header mem h k v) = 0 \<and> items (snd (apply_header mem h k v)) = items h @ [(k, v)]"
  using assms by (simp add: apply_header_def field_ok_def Let_def)

interpretation hdrs: dyn_array items capacity "\<lambda>h x. snd (apply_header mem h (fst x) (snd x))" "\<lambda>x. x"
  for mem
proof unfold_locales
  fix s :: HttpHeaders and x
  obtain rc h' where e: "apply_header mem s (fst x) (snd x) = (rc, h')" by fastforce
  show "items (snd (apply_header mem s (fst x) (snd x))) = items s \<or>
        items (snd (apply_header mem s (fst x) (snd x))) = items s @ [x]"
    using apply_header_cases [OF e] e by auto
  show "length (items s) \<le> capacity s \<Longrightarrow>
        length (items (snd (apply_header mem s (fst x) (snd x))))
          \<le> capacity (snd (apply_header mem s (fst x) (snd x)))"
    by (auto simp: apply_header_def Let_def grow_cap_def)
  show "capacity s \<le> capacity (snd (apply_header mem s (fst x) (snd x)))"
    by (auto simp: apply_header_def Let_def grow_cap_def)
qed

lemma apply_header_inv [inv_intros]:
  "headers_inv h \<Longrightarrow> headers_inv (snd (apply_header mem h k v))"
  using hdrs.push_room [of h mem "(k, v)"] apply_header_cases [of mem h k v]
  by (cases "apply_header mem h k v") (auto simp: headers_inv_def)

lemma http_set_header_inv [inv_intros]:
  "headers_inv h \<Longrightarrow> headers_inv (snd (http_set_header mem h k v))"
  using apply_header_inv [of h mem]
  by (cases k; cases v) (simp_all add: http_set_header_def split_def)

lemma http_set_header_cases:
  assumes "http_set_header mem h (Some k) (Some v) = (r, h')"
  shows "(r = HTTP_SET_HEADER_ERROR \<and> items h' = items h) \<or>
         (r = HTTP_SET_HEADER_OK \<and> items h' = items h @ [(k, v)] \<and> field_ok (k, v))"
proof -
  obtain rc g where e: "apply_header mem h k v = (rc, g)" by fastforce
  with assms have "h' = g" and "r = (if rc < 0 then HTTP_SET_HEADER_ERROR else HTTP_SET_HEADER_OK)"
    by (auto simp: http_set_header_def)
  with apply_header_cases [OF e] show ?thesis by auto
qed

lemma http_set_header_ok [http_simps]:
  assumes "\<And>n. mem n" and "field_ok (k, v)"
  shows "fst (http_set_header mem h (Some k) (Some v)) = HTTP_SET_HEADER_OK \<and>
    items (snd (http_set_header mem h (Some k) (Some v))) = items h @ [(k, v)]"
  using apply_header_ok [of mem k v h] assms by (simp add: http_set_header_def split_def)

subsection \<open>Replacing a field\<close>

lemma replace_loop_spec:
  "replace_loop mem hs k v = Some (rc, hs') \<Longrightarrow>
     map fst hs' = map fst hs \<and> (\<exists>h \<in> set hs. strcaseeq (fst h) k) \<and>
     (rc = 0 \<longrightarrow> lookup_first strcaseeq hs' k = Some v) \<and> (rc \<noteq> 0 \<longrightarrow> hs' = hs) \<and>
     set hs' \<subseteq> set hs \<union> {(x, v) | x. x \<in> fst ` set hs}"
proof (induction hs arbitrary: rc hs')
  case Nil
  then show ?case by simp
next
  case (Cons h hs)
  show ?case
  proof (cases "strcaseeq (fst h) k")
    case True
    with Cons.prems show ?thesis by (cases h) (auto split: if_splits)
  next
    case False
    with Cons.prems obtain t where "replace_loop mem hs k v = Some (rc, t)" and "hs' = h # t"
      by auto
    with Cons.IH False show ?thesis by (auto dest!: Cons.IH)
  qed
qed

lemma replace_loop_None: "replace_loop mem hs k v = None \<longleftrightarrow> (\<forall>h \<in> set hs. \<not> strcaseeq (fst h) k)"
  by (induction hs) auto

lemma replace_header_lookup:
  assumes "replace_header mem h k v = (0, h')"
  shows "lookup_first strcaseeq (items h') k = Some v"
proof (cases "replace_loop mem (items h) k v")
  case None
  with assms have "apply_header mem h k v = (0, h')" by (simp add: replace_header_def)
  from apply_header_cases [OF this] have "items h' = items h @ [(k, v)]" by auto
  moreover have "lookup_first strcaseeq (items h) k = None"
    using None by (simp add: replace_loop_None lookup_first_None)
  ultimately show ?thesis by (simp add: lookup_first_append)
next
  case (Some x)
  with assms show ?thesis
    by (cases x) (auto simp: replace_header_def dest!: replace_loop_spec)
qed

text \<open>Replacing never introduces a second field with the key.\<close>

lemma replace_header_unique:
  assumes "replace_header mem h k v = (rc, h')"
    and "length (filter (\<lambda>f. strcaseeq (fst f) k) (items h)) \<le> 1"
  shows "length (filter (\<lambda>f. strcaseeq (fst f) k) (items h')) \<le> 1"
proof (cases "replace_loop mem (items h) k v")
  case None
  with assms have "apply_header mem h k v = (rc, h')" by (simp add: replace_header_def)
  moreover have "filter (\<lambda>f. strcaseeq (fst f) k) (items h) = []"
    using None by (simp add: replace_loop_None filter_empty_conv)
  ultimately show ?thesis using apply_header_cases by fastforce
next
  case (Some x)
  then obtain hs' where e: "replace_loop mem (items h) k v = Some (rc, hs')" and "items h' = hs'"
    using assms(1) by (cases x) (auto simp: replace_header_def)
  moreover have "length (filter (\<lambda>f. strcaseeq (fst f) k) hs) =
      length (filter (\<lambda>x. strcaseeq x k) (map fst hs))" for hs :: "HttpHeader list"
    by (induction hs) auto
  ultimately show ?thesis using assms(2) replace_loop_spec [OF e] by metis
qed

lemma replace_header_inv [inv_intros]:
  assumes "headers_inv h" and "\<not> header_value_has_injection v"
  shows "headers_inv (snd (replace_header mem h k v))"
proof (cases "replace_loop mem (items h) k v")
  case None
  then show ?thesis using apply_header_inv [OF assms(1)] by (simp add: replace_header_def)
next
  case (Some x)
  then obtain rc hs' where e: "replace_loop mem (items h) k v = Some (rc, hs')" by (cases x) auto
  note spec = replace_loop_spec [OF e]
  have "length hs' = length (items h)" using spec by (metis length_map)
  moreover have "list_all field_ok hs'"
    using spec assms by (fastforce simp: headers_inv_def list_all_iff field_ok_def)
  ultimately show ?thesis using assms(1) e by (simp add: replace_header_def headers_inv_def)
qed

section \<open>Token lists\<close>

definition trim_ows :: "string \<Rightarrow> string" where
  "trim_ows s = rtrim (dropWhile is_ows s)"

lemma split_commas_ows:
  assumes "is_ows c"
  obtains e es where "split_on (CHR '','') s = e # es" and "split_on (CHR '','') (c # s) = (c # e) # es"
proof -
  obtain e es where "split_on (CHR '','') s = e # es" by (cases "split_on (CHR '','') s") auto
  moreover have "c \<noteq> CHR '',''" using assms by (auto simp: is_ows_def)
  ultimately show thesis using that by simp
qed

lemma trim_ows_Nil [simp]: "trim_ows [] = []"
  by (simp add: trim_ows_def rtrim_def)

lemma trim_ows_Cons_ows [simp]: "is_ows c \<Longrightarrow> trim_ows (c # s) = trim_ows s"
  by (simp add: trim_ows_def)

lemma split_commas_skip_seps:
  assumes "\<not> Q []"
  shows "(\<exists>e \<in> set (split_on (CHR '','') v). Q (trim_ows e)) \<longleftrightarrow>
         (\<exists>e \<in> set (split_on (CHR '','') (dropWhile is_list_sep v)). Q (trim_ows e))"
proof (induction v)
  case Nil
  then show ?case by simp
next
  case (Cons c v)
  show ?case
  proof (cases "is_ows c")
    case True
    then have "is_list_sep c" by (auto simp: is_ows_def is_list_sep_def)
    moreover obtain e es where "split_on (CHR '','') v = e # es" "split_on (CHR '','') (c # v) = (c # e) # es"
      using split_commas_ows [OF True] by blast
    ultimately show ?thesis using Cons.IH True by simp
  next
    case False
    show ?thesis
    proof (cases "c = CHR '',''")
      case True
      then show ?thesis using Cons.IH assms by (simp add: is_list_sep_def)
    next
      case nc: False
      then have "\<not> is_list_sep c" using False by (auto simp: is_ows_def is_list_sep_def)
      then show ?thesis by simp
    qed
  qed
qed

text \<open>
  The scan is shared by \<^verbatim>\<open>header_contains_token\<close> and \<^verbatim>\<open>ws_header_has_token\<close>: any function that
  satisfies the loop's equation decides membership in the list.
\<close>

locale token_scan =
  fixes scan :: "string \<Rightarrow> string \<Rightarrow> bool"
  assumes scan_step:
    "scan v token =
       (if v = [] then False
        else
          let start = dropWhile is_list_sep v;
              el = rtrim (takeWhile (\<lambda>c. c \<noteq> CHR '','') start);
              rest = dropWhile (\<lambda>c. c \<noteq> CHR '','') start
          in if length el = length token \<and> strncaseeq el token (length el) then True
             else scan rest token)"
begin

lemma element_match:
  "length el = length token \<and> strncaseeq el token (length el) \<longleftrightarrow> strcaseeq el token"
  using map_eq_imp_length_eq [of to_lower el to_lower token]
  by (auto simp: strncaseeq_def strcaseeq_def)

lemma scan_iff:
  "token \<noteq> [] \<Longrightarrow>
     scan v token \<longleftrightarrow> (\<exists>e \<in> set (split_on (CHR '','') v). strcaseeq (trim_ows e) token)"
proof (induction "length v" arbitrary: v rule: less_induct)
  case less
  note Q = split_commas_skip_seps [where Q = "\<lambda>e. strcaseeq e token"]
  have nQ: "\<not> strcaseeq [] token" using less.prems by (auto simp: strcaseeq_def)
  show ?case
  proof (cases "v = []")
    case True
    then show ?thesis using nQ by (subst scan_step) simp
  next
    case False
    define start where "start = dropWhile is_list_sep v"
    define el where "el = takeWhile (\<lambda>c. c \<noteq> CHR '','') start"
    define rest where "rest = dropWhile (\<lambda>c. c \<noteq> CHR '','') start"
    have trim: "trim_ows el = rtrim el"
    proof (cases start)
      case Nil
      then show ?thesis by (simp add: el_def trim_ows_def)
    next
      case (Cons c t)
      then have "\<not> is_list_sep c" using hd_dropWhile [of is_list_sep v] start_def by auto
      then have "\<not> is_ows c" by (auto simp: is_list_sep_def is_ows_def)
      then show ?thesis using Cons by (simp add: el_def trim_ows_def)
    qed
    have shorter: "length rest < length v"
      using scan_shorter [OF False] by (simp add: rest_def start_def)
    have "scan v token \<longleftrightarrow> strcaseeq (rtrim el) token \<or> scan rest token"
      using False
      by (subst scan_step) (simp add: Let_def element_match el_def rest_def start_def)
    also have "scan rest token \<longleftrightarrow> (\<exists>e \<in> set (split_on (CHR '','') rest). strcaseeq (trim_ows e) token)"
      using less.hyps [OF shorter less.prems] .
    also have "\<dots> \<longleftrightarrow> (\<exists>e \<in> set (case rest of [] \<Rightarrow> [] | c # r \<Rightarrow> split_on (CHR '','') r).
        strcaseeq (trim_ows e) token)"
    proof (cases rest)
      case (Cons c r)
      then have "c = CHR '',''" using hd_dropWhile [of "\<lambda>c. c \<noteq> CHR '',''" start] rest_def by auto
      then show ?thesis using Cons nQ by simp
    qed (simp add: nQ)
    finally show ?thesis
      using Q [OF nQ, of v] split_on_span [of "CHR '',''" start] trim
      by (simp add: start_def el_def rest_def)
  qed
qed

end

interpretation conn: token_scan header_contains_token
  by unfold_locales (rule header_contains_token.simps)

section \<open>Properties\<close>

text \<open>The reason phrase of a status is \<^verbatim>\<open>Unknown\<close> exactly when the status is not a member of
  the enum \<^verbatim>\<open>HttpStatus\<close>: the switch of \<^verbatim>\<open>status_text\<close> covers the whole enum and nothing else.\<close>

theorem status_text_complete: "status_text s = ''Unknown'' \<longleftrightarrow> s \<notin> set HttpStatus"
proof -
  have dom: "map fst status_table = HttpStatus" by (simp add: status_table_def HttpStatus_def)
  have rng: "\<forall>e \<in> set status_table. snd e \<noteq> ''Unknown'' \<and> is_valid_status_code (fst e)"
    by (simp add: status_table_def is_valid_status_code_def)
  show ?thesis
  proof (cases "map_of status_table s")
    case None
    then have "s \<notin> set HttpStatus" by (metis dom map_of_eq_None_iff list.set_map)
    with None show ?thesis by (simp add: status_text_def)
  next
    case (Some t)
    then have "(s, t) \<in> set status_table" by (rule map_of_SomeD)
    with rng Some have "status_text s = t" and "t \<noteq> ''Unknown''" and "s \<in> set HttpStatus"
      unfolding dom [symmetric] by (force simp: status_text_def)+
    then show ?thesis by simp
  qed
qed

text \<open>\<^verbatim>\<open>string_to_http_method\<close> recognises exactly the nine method names, each as its method,
  case-sensitively: it is the inverse of \<^verbatim>\<open>method_name\<close>.\<close>

theorem method_name_roundtrip: "string_to_http_method s = Some m \<longleftrightarrow> s = method_name m"
  by (cases m) (auto simp: string_to_http_method_def)


lemma replace_header_frame:
  assumes "replace_header mem h k v = (0, h')"
  shows "filter (\<lambda>f. \<not> strcaseeq (fst f) k) (items h') = filter (\<lambda>f. \<not> strcaseeq (fst f) k) (items h)"
proof -
  have loop: "replace_loop mem hs k v = Some (0, hs') \<Longrightarrow>
      filter (\<lambda>f. \<not> strcaseeq (fst f) k) hs' = filter (\<lambda>f. \<not> strcaseeq (fst f) k) hs" for hs hs'
    by (induction hs arbitrary: hs') (auto split: if_splits)
  show ?thesis
  proof (cases "replace_loop mem (items h) k v")
    case None
    with assms have "apply_header mem h k v = (0, h')" by (simp add: replace_header_def)
    from apply_header_cases [OF this] show ?thesis by auto
  next
    case (Some x)
    with assms loop show ?thesis by (cases x) (auto simp: replace_header_def)
  qed
qed

text \<open>After \<^verbatim>\<open>replace_header\<close> reports success a lookup of the key, in any spelling of its case,
  finds the new value; if the key occurred at most once before, it still does; and every field
  with another name is still there, in order.\<close>

theorem replace_header_correct:
  assumes "replace_header mem h k v = (0, h')" and "strcaseeq k k'"
  shows "lookup_first strcaseeq (items h') k' = Some v \<and>
    (length (filter (\<lambda>f. strcaseeq (fst f) k) (items h)) \<le> 1 \<longrightarrow>
       length (filter (\<lambda>f. strcaseeq (fst f) k) (items h')) \<le> 1) \<and>
    filter (\<lambda>f. \<not> strcaseeq (fst f) k) (items h') = filter (\<lambda>f. \<not> strcaseeq (fst f) k) (items h)"
proof -
  have eq: "lookup_first strcaseeq es k' = lookup_first strcaseeq es k" for es :: "HttpHeader list"
  proof (induction es)
    case (Cons e es)
    have "strcaseeq (fst e) k' \<longleftrightarrow> strcaseeq (fst e) k"
      using assms(2) strcaseeq_sym strcaseeq_trans by metis
    with Cons show ?case by simp
  qed simp
  show ?thesis
    unfolding eq
    using replace_header_lookup [OF assms(1)] replace_header_unique [OF assms(1)]
      replace_header_frame [OF assms(1)] by blast
qed

theorem replace_header_correct_witness:
  "\<exists>h'. replace_header (\<lambda>n. True) \<lparr>items = [(''A'', ''1''), (''Date'', ''x'')], capacity = 8\<rparr>
      ''date'' ''y'' = (0, h') \<and>
    lookup_first strcaseeq (items h') ''DATE'' = Some ''y'' \<and>
    filter (\<lambda>f. \<not> strcaseeq (fst f) ''date'') (items h') = [(''A'', ''1'')]"
proof -
  let ?h = "\<lparr>items = [(''A'', ''1''), (''Date'', ''x'')], capacity = 8\<rparr>"
  have r: "replace_header (\<lambda>n. True) ?h ''date'' ''y'' = (0, \<lparr>items = [(''A'', ''1''), (''Date'', ''y'')], capacity = 8\<rparr>)"
    by (simp add: replace_header_def strcaseeq_def to_lower_def is_upper_def)
  have c: "strcaseeq ''date'' ''DATE''" by (simp add: strcaseeq_def to_lower_def is_upper_def)
  have "filter (\<lambda>f. \<not> strcaseeq (fst f) ''date'') (items ?h) = [(''A'', ''1'')]"
    by (simp add: strcaseeq_def to_lower_def is_upper_def)
  with r replace_header_correct [OF r c] show ?thesis by metis
qed

text \<open>The in-place scan of \<^verbatim>\<open>header_contains_token\<close> decides exactly whether some element of the
  comma-separated value, trimmed of spaces and tabs, equals the token up to case.\<close>

theorem header_contains_token_iff:
  assumes "token \<noteq> []"
  shows "header_contains_token value token \<longleftrightarrow>
    (\<exists>e \<in> set (split_on (CHR '','') value). strcaseeq (trim_ows e) token)"
  using assms by (rule conn.scan_iff)

theorem header_contains_token_iff_witness:
  "header_contains_token ''Upgrade,  Keep-Alive '' ''keep-alive''"
proof -
  have "split_on (CHR '','') ''Upgrade,  Keep-Alive '' = [''Upgrade'', ''  Keep-Alive '']" by simp
  moreover have "strcaseeq (trim_ows ''  Keep-Alive '') ''keep-alive''"
    by (simp add: strcaseeq_def trim_ows_def rtrim_def is_ows_def to_lower_def is_upper_def)
  ultimately show ?thesis
    using header_contains_token_iff [of "''keep-alive''" "''Upgrade,  Keep-Alive ''"] by simp
qed

end
