(* ===== verification/Routing.thy ===== *)
theory Routing
  imports Headers
begin

text \<open>
  Routing data: parsing patterns and request paths into segments
  (\<^verbatim>\<open>http_parse_route_segments\<close>), matching and binding (\<^verbatim>\<open>segments_match_at\<close>), route
  registration (\<^verbatim>\<open>add_route_to\<close> and the verbs built on it), routers and mounts
  (\<^verbatim>\<open>http_use\<close>), groups (\<^verbatim>\<open>join_path\<close>) and middleware paths (\<^verbatim>\<open>path_matches\<close>). The lemmas give the
  parse and the match their reference meaning, show the registration invariant, and relate the
  middleware guard to the routes it is meant to protect.
\<close>

section \<open>Segments\<close>

text \<open>
  \<^verbatim>\<open>sizeof(HttpRouteSegment)\<close> is 65. After \<^verbatim>\<open>strchr\<close> has found a slash the cursor stands on the
  segment text; the next round starts there.
\<close>

lemma after_slash_shorter:
  assumes "dropWhile (\<lambda>c. c \<noteq> CHR ''/'') p = s # q"
  shows "length (if b then tl q else q) < length p"
proof -
  have "length (s # q) \<le> length p"
    using length_dropWhile_le [of "\<lambda>c. c \<noteq> CHR ''/''" p] assms by metis
  then show ?thesis by (cases q) auto
qed

function parse_segments_loop ::
  "allocator \<Rightarrow> string \<Rightarrow> HttpRouteSegment list \<Rightarrow> nat \<Rightarrow> HttpRouteSegments option" where
  "parse_segments_loop mem p acc cap =
     (case dropWhile (\<lambda>c. c \<noteq> CHR ''/'') p of
        [] \<Rightarrow> Some \<lparr>segments = acc, segs_capacity = cap\<rparr>
      | _ # q \<Rightarrow>
          let param = (q \<noteq> [] \<and> hd q = CHR '':'');
              start = (if param then tl q else q);
              text = takeWhile (\<lambda>c. c \<noteq> CHR ''/'') start
          in if text = [] \<and> \<not> param then parse_segments_loop mem start acc cap
             else if text = [] then None
             else if length text \<ge> SEGMENT_TEXT_MAX then None
             else
               let acc' = acc @ [\<lparr>seg_text = text, is_param = param\<rparr>]
               in if length acc' = cap
                  then (if mem (cap * 2 * 65) then parse_segments_loop mem start acc' (cap * 2)
                        else None)
                  else parse_segments_loop mem start acc' cap)"
  by pat_completeness auto
termination
proof (relation "measure (\<lambda>(mem, p, acc, cap). length p)", goal_cases)
  case 1
  show ?case by simp
qed (simp only: in_measure prod.case; rule after_slash_shorter; assumption)+

declare parse_segments_loop.simps [simp del]

definition http_parse_route_segments :: "allocator \<Rightarrow> string \<Rightarrow> HttpRouteSegments option" where
  "http_parse_route_segments mem pattern =
     (if mem (8 * 65) then parse_segments_loop mem pattern [] 8 else None)"

section \<open>Matching\<close>

definition put_param :: "HttpParams \<Rightarrow> nat \<Rightarrow> string \<Rightarrow> string \<Rightarrow> HttpParams" where
  "put_param ps i k v = ps\<lparr>param_slots := (param_slots ps)[i := (k, v)]\<rparr>"

text \<open>
  The comparison loop. With \<open>Some\<close> params each bound value is written into its slot at once, so
  that a late mismatch leaves the slots already written behind; only the count is committed at
  the end.
\<close>

fun match_loop ::
  "HttpRouteSegment list \<Rightarrow> HttpRouteSegment list \<Rightarrow> HttpParams option \<Rightarrow> nat
     \<Rightarrow> bool \<times> HttpParams option \<times> nat" where
  "match_loop (pat # ps) (cur # cs) params n =
     (if is_param pat then
        (case params of
           None \<Rightarrow> match_loop ps cs params n
         | Some par \<Rightarrow>
             if n \<ge> HTTP_MAX_PARAMS then (False, params, n)
             else
               let key = snprint HTTP_PARAM_KEY_MAX (seg_text pat);
                   keyed = put_param par n key (snd (param_slots par ! n))
               in if length (seg_text pat) \<ge> HTTP_PARAM_KEY_MAX then (False, Some keyed, n)
                  else
                    let bound = put_param keyed n key (snprint HTTP_PARAM_VALUE_MAX (seg_text cur))
                    in if length (seg_text cur) \<ge> HTTP_PARAM_VALUE_MAX then (False, Some bound, n)
                       else match_loop ps cs (Some bound) (n + 1))
      else if seg_text pat \<noteq> seg_text cur then (False, params, n)
      else match_loop ps cs params n)"
| "match_loop _ _ params n = (True, params, n)"

definition segments_match_at ::
  "HttpRouteSegments \<Rightarrow> HttpRouteSegments \<Rightarrow> nat \<Rightarrow> HttpParams option \<Rightarrow> bool \<times> HttpParams option" where
  "segments_match_at pattern request offset params =
     (if offset > length (segments request) then (False, params)
      else if length (segments pattern) \<noteq> length (segments request) - offset then (False, params)
      else (case match_loop (segments pattern) (drop offset (segments request)) params 0 of
              (ok, params', n) \<Rightarrow>
                if ok then (True, map_option (\<lambda>p. p\<lparr>param_count := n\<rparr>) params') else (False, params')))"

definition http_segments_match ::
  "HttpRouteSegments \<Rightarrow> HttpRouteSegments \<Rightarrow> HttpParams option \<Rightarrow> bool \<times> HttpParams option" where
  "http_segments_match pattern request params = segments_match_at pattern request 0 params"

definition prefix_segments_match :: "HttpRouteSegments \<Rightarrow> HttpRouteSegments \<Rightarrow> bool" where
  "prefix_segments_match pre req \<longleftrightarrow>
     length (segments pre) \<le> length (segments req) \<and>
     map seg_text (segments pre) = map seg_text (take (length (segments pre)) (segments req))"

definition path_matches :: "string \<Rightarrow> string \<Rightarrow> bool" where
  "path_matches reg real =
     (let reg_len = (if length reg > 1 \<and> last reg = CHR ''/'' then length reg - 1 else length reg)
      in if reg_len = 0 then True
         else if real = [] then False
         else if \<not> strneq reg real reg_len then False
         else if length real = reg_len then True
         else if reg ! (reg_len - 1) = CHR ''/'' then True
         else real ! reg_len = CHR ''/'')"

definition http_req_param :: "HttpRequest \<Rightarrow> string option \<Rightarrow> string option" where
  "http_req_param req key =
     (case key of None \<Rightarrow> None
      | Some k \<Rightarrow> lookup_first (=) (take (param_count (req_params req)) (param_slots (req_params req))) k)"

section \<open>Registration\<close>

text \<open>The parameter checks of \<^verbatim>\<open>add_route_to\<close> (and, word for word, of \<^verbatim>\<open>ws_add_route\<close>).\<close>

fun params_valid :: "HttpRouteSegment list \<Rightarrow> HttpRouteSegment list \<Rightarrow> nat \<Rightarrow> bool" where
  "params_valid seen [] n = True"
| "params_valid seen (s # ss) n =
     (if \<not> is_param s then params_valid (seen @ [s]) ss n
      else if n + 1 > HTTP_MAX_PARAMS \<or> length (seg_text s) \<ge> HTTP_PARAM_KEY_MAX then False
      else if \<exists>s' \<in> set seen. is_param s' \<and> seg_text s' = seg_text s then False
      else params_valid (seen @ [s]) ss (n + 1))"

text \<open>\<^verbatim>\<open>sizeof(HttpRoute)\<close> is 48.\<close>

definition add_route_to ::
  "allocator \<Rightarrow> HttpRoutes \<Rightarrow> string \<Rightarrow> HttpHandler \<Rightarrow> HttpMethod \<Rightarrow> HttpRouteAddResult \<times> HttpRoutes" where
  "add_route_to mem rs path handler method =
     (if length path \<ge> HTTP_PATH_MAX then (HTTP_ROUTE_ADD_ERROR, rs)
      else if CHR ''?'' \<in> set path then (HTTP_ROUTE_ADD_ERROR, rs)
      else
        let full = (length (routes rs) = routes_capacity rs);
            new_cap = grow_cap 8 (routes_capacity rs)
        in if full \<and> \<not> mem (new_cap * 48) then (HTTP_ROUTE_ADD_ERROR, rs)
           else
             let grown = (if full then rs\<lparr>routes_capacity := new_cap\<rparr> else rs)
             in if \<exists>r \<in> set (routes grown). route_method r = method \<and> route_path r = path
                then (HTTP_ROUTE_ADD_CONFLICT, grown)
                else if \<not> mem (length path + 1) then (HTTP_ROUTE_ADD_ERROR, grown)
                else
                  (case http_parse_route_segments mem path of
                     None \<Rightarrow> (HTTP_ROUTE_ADD_ERROR, grown)
                   | Some segs \<Rightarrow>
                       if \<not> params_valid [] (segments segs) 0 then (HTTP_ROUTE_ADD_ERROR, grown)
                       else
                         (HTTP_ROUTE_ADD_OK,
                          grown\<lparr>routes := routes grown @
                            [\<lparr>route_path = path, route_handler = handler, route_method = method,
                              route_segments = segs\<rparr>]\<rparr>)))"

text \<open>\<^verbatim>\<open>path\<close> and \<^verbatim>\<open>handler\<close> may be NULL.\<close>

definition http_add_route ::
  "allocator \<Rightarrow> HttpRoutes \<Rightarrow> string option \<Rightarrow> HttpHandler option \<Rightarrow> HttpMethod
     \<Rightarrow> HttpRouteAddResult \<times> HttpRoutes" where
  "http_add_route mem rs path handler method =
     (case (path, handler) of
        (Some p, Some h) \<Rightarrow>
          if p = [] \<or> hd p \<noteq> CHR ''/'' then (HTTP_ROUTE_ADD_ERROR, rs)
          else add_route_to mem rs p h method
      | _ \<Rightarrow> (HTTP_ROUTE_ADD_ERROR, rs))"

definition http_get where "http_get mem rs path h = http_add_route mem rs path h HTTP_METHOD_GET"
definition http_post where "http_post mem rs path h = http_add_route mem rs path h HTTP_METHOD_POST"
definition http_patch where "http_patch mem rs path h = http_add_route mem rs path h HTTP_METHOD_PATCH"
definition http_put where "http_put mem rs path h = http_add_route mem rs path h HTTP_METHOD_PUT"
definition http_delete where "http_delete mem rs path h = http_add_route mem rs path h HTTP_METHOD_DELETE"
definition http_head where "http_head mem rs path h = http_add_route mem rs path h HTTP_METHOD_HEAD"
definition http_connect where "http_connect mem rs path h = http_add_route mem rs path h HTTP_METHOD_CONNECT"
definition http_trace where "http_trace mem rs path h = http_add_route mem rs path h HTTP_METHOD_TRACE"
definition http_options where "http_options mem rs path h = http_add_route mem rs path h HTTP_METHOD_OPTIONS"

section \<open>Routers\<close>

text \<open>
  Routers live in a heap; a fresh reference is one that is not in use. \<^verbatim>\<open>sizeof(HttpRouter)\<close> is
  32 and \<^verbatim>\<open>sizeof(HttpRouterMount)\<close> is 40.
\<close>

definition http_router_create :: "allocator \<Rightarrow> router_heap \<Rightarrow> router_ref \<Rightarrow> router_ref option \<times> router_heap" where
  "http_router_create mem heap fresh =
     (if mem 32
      then (Some fresh,
            heap(fresh \<mapsto> \<lparr>router_routes = \<lparr>routes = [], routes_capacity = 0\<rparr>, mounted = False\<rparr>))
      else (None, heap))"

definition http_router_free :: "router_heap \<Rightarrow> router_ref option \<Rightarrow> router_heap" where
  "http_router_free heap router =
     (case router of None \<Rightarrow> heap
      | Some r \<Rightarrow>
          (case heap r of None \<Rightarrow> heap
           | Some rt \<Rightarrow> if mounted rt then heap else heap(r := None)))"

text \<open>The macro \<^verbatim>\<open>DEFINE_ROUTER_ROUTE\<close>, with the method of each of its nine instances.\<close>

definition http_router_route ::
  "allocator \<Rightarrow> router_heap \<Rightarrow> router_ref \<Rightarrow> string option \<Rightarrow> HttpHandler option \<Rightarrow> HttpMethod
     \<Rightarrow> HttpRouteAddResult \<times> router_heap" where
  "http_router_route mem heap r path handler method =
     (case (heap r, path, handler) of
        (Some rt, Some p, Some h) \<Rightarrow>
          if p = [] \<or> hd p \<noteq> CHR ''/'' then (HTTP_ROUTE_ADD_ERROR, heap)
          else (case add_route_to mem (router_routes rt) p h method of
                  (res, rs) \<Rightarrow> (res, heap(r \<mapsto> rt\<lparr>router_routes := rs\<rparr>)))
      | _ \<Rightarrow> (HTTP_ROUTE_ADD_ERROR, heap))"

definition http_use ::
  "allocator \<Rightarrow> HttpRouterMount list \<Rightarrow> router_heap \<Rightarrow> string option \<Rightarrow> router_ref option
     \<Rightarrow> HttpUseResult \<times> HttpRouterMount list \<times> router_heap" where
  "http_use mem mounts heap prefix router =
     (case (prefix, router) of
        (Some pre, Some r) \<Rightarrow>
          (case heap r of
             None \<Rightarrow> (HTTP_USE_ERROR, mounts, heap)
           | Some rt \<Rightarrow>
               if pre = [] \<or> hd pre \<noteq> CHR ''/'' \<or> mounted rt then (HTTP_USE_ERROR, mounts, heap)
               else if length pre \<ge> HTTP_PATH_MAX then (HTTP_USE_ERROR, mounts, heap)
               else if CHR ''?'' \<in> set pre then (HTTP_USE_ERROR, mounts, heap)
               else if \<not> mem 40 then (HTTP_USE_ERROR, mounts, heap)
               else
                 (case http_parse_route_segments mem pre of
                    None \<Rightarrow> (HTTP_USE_ERROR, mounts, heap)
                  | Some segs \<Rightarrow>
                      if \<exists>s \<in> set (segments segs). is_param s then (HTTP_USE_ERROR, mounts, heap)
                      else
                        (HTTP_USE_OK, mounts @ [\<lparr>prefix_segments = segs, mount_router = r\<rparr>],
                         heap(r \<mapsto> rt\<lparr>mounted := True\<rparr>))))
      | _ \<Rightarrow> (HTTP_USE_ERROR, mounts, heap))"

section \<open>Groups and middleware\<close>

definition join_path :: "nat \<Rightarrow> string \<Rightarrow> string \<Rightarrow> string option" where
  "join_path n prefix path =
     (let joined = (if path = ''/'' then prefix else prefix @ path)
      in if length joined < n then Some joined else None)"

text \<open>The macro \<^verbatim>\<open>DEFINE_GROUP_ROUTE\<close>: the joined path goes to the server's routes.\<close>

definition http_group_route ::
  "allocator \<Rightarrow> HttpRoutes \<Rightarrow> string \<Rightarrow> string option \<Rightarrow> HttpHandler option \<Rightarrow> HttpMethod
     \<Rightarrow> HttpRouteAddResult \<times> HttpRoutes" where
  "http_group_route mem rs prefix path handler method =
     (case path of
        None \<Rightarrow> (HTTP_ROUTE_ADD_ERROR, rs)
      | Some p \<Rightarrow>
          if p = [] \<or> hd p \<noteq> CHR ''/'' then (HTTP_ROUTE_ADD_ERROR, rs)
          else (case join_path 1024 prefix p of
                  None \<Rightarrow> (HTTP_ROUTE_ADD_ERROR, rs)
                | Some f \<Rightarrow> http_add_route mem rs (Some f) handler method))"

text \<open>\<^verbatim>\<open>sizeof(HttpMiddleware)\<close> is 16.\<close>

definition http_middleware ::
  "allocator \<Rightarrow> HttpMiddlewares \<Rightarrow> string option \<Rightarrow> HttpMiddlewareHandler option
     \<Rightarrow> HttpMiddlewareAddResult \<times> HttpMiddlewares" where
  "http_middleware mem ms path handler =
     (case handler of
        None \<Rightarrow> (HTTP_MIDDLEWARE_ADD_ERROR, ms)
      | Some h \<Rightarrow>
          if path = Some [] \<or> (\<exists>p. path = Some p \<and> hd p \<noteq> CHR ''/'')
          then (HTTP_MIDDLEWARE_ADD_ERROR, ms)
          else
            let full = (length (middlewares ms) = middlewares_capacity ms);
                new_cap = grow_cap 8 (middlewares_capacity ms)
            in if full \<and> \<not> mem (new_cap * 16) then (HTTP_MIDDLEWARE_ADD_ERROR, ms)
               else
                 let grown = (if full then ms\<lparr>middlewares_capacity := new_cap\<rparr> else ms)
                 in if path \<noteq> None \<and> \<not> mem (length (the path) + 1)
                    then (HTTP_MIDDLEWARE_ADD_ERROR, grown)
                    else (HTTP_MIDDLEWARE_ADD_OK,
                          grown\<lparr>middlewares := middlewares grown @
                            [\<lparr>mid_path = path, mid_handler = h\<rparr>]\<rparr>))"

definition http_group_middleware ::
  "allocator \<Rightarrow> HttpMiddlewares \<Rightarrow> string \<Rightarrow> string option \<Rightarrow> HttpMiddlewareHandler option
     \<Rightarrow> HttpMiddlewareAddResult \<times> HttpMiddlewares" where
  "http_group_middleware mem ms prefix path handler =
     (case handler of
        None \<Rightarrow> (HTTP_MIDDLEWARE_ADD_ERROR, ms)
      | Some h \<Rightarrow>
          (case path of
             None \<Rightarrow> http_middleware mem ms (Some prefix) handler
           | Some p \<Rightarrow>
               if p = [] \<or> hd p \<noteq> CHR ''/'' then (HTTP_MIDDLEWARE_ADD_ERROR, ms)
               else (case join_path 1024 prefix p of
                       None \<Rightarrow> (HTTP_MIDDLEWARE_ADD_ERROR, ms)
                     | Some f \<Rightarrow> http_middleware mem ms (Some f) handler)))"

fun run_middlewares ::
  "HttpMiddleware list \<Rightarrow> HttpRequest \<Rightarrow> HttpResponse \<Rightarrow> bool \<times> HttpResponse" where
  "run_middlewares [] req res = (True, res)"
| "run_middlewares (m # ms) req res =
     (if (case mid_path m of None \<Rightarrow> True | Some p \<Rightarrow> path_matches p (req_path req)) then
        (case mid_handler m req res of
           (HTTP_MIDDLEWARE_STOP, res') \<Rightarrow> (False, res')
         | (HTTP_MIDDLEWARE_CONTINUE, res') \<Rightarrow> run_middlewares ms req res')
      else run_middlewares ms req res)"

definition apply_middleware :: "HttpMiddlewares \<Rightarrow> HttpRequest \<Rightarrow> HttpResponse \<Rightarrow> bool \<times> HttpResponse" where
  "apply_middleware ms req res = run_middlewares (middlewares ms) req res"

section \<open>The Allow header\<close>

text \<open>\<^verbatim>\<open>allow_append\<close>: the buffer holds \<open>allow\<close> so far; a name that does not fit is left out.\<close>

definition allow_append :: "nat \<Rightarrow> string \<Rightarrow> string \<Rightarrow> string" where
  "allow_append n allow name =
     (if length allow > 0 then
        (if length allow + 2 + length name \<ge> n then allow else allow @ '', '' @ name)
      else if length allow + length name \<ge> n then allow
      else allow @ name)"

fun collect_routes ::
  "nat \<Rightarrow> HttpRouteSegments \<Rightarrow> nat \<Rightarrow> HttpRoute list \<Rightarrow> string \<Rightarrow> string" where
  "collect_routes n req offset [] allow = allow"
| "collect_routes n req offset (r # rs) allow =
     (if \<not> fst (segments_match_at (route_segments r) req offset None)
      then collect_routes n req offset rs allow
      else collect_routes n req offset rs (allow_append n allow (method_name (route_method r))))"

fun collect_mounts ::
  "nat \<Rightarrow> HttpRouteSegments \<Rightarrow> router_heap \<Rightarrow> HttpRouterMount list \<Rightarrow> string \<Rightarrow> string" where
  "collect_mounts n req heap [] allow = allow"
| "collect_mounts n req heap (m # ms) allow =
     (if \<not> prefix_segments_match (prefix_segments m) req then collect_mounts n req heap ms allow
      else
        (case heap (mount_router m) of
           None \<Rightarrow> collect_mounts n req heap ms allow
         | Some rt \<Rightarrow>
             collect_mounts n req heap ms
               (collect_routes n req (length (segments (prefix_segments m)))
                  (routes (router_routes rt)) allow)))"

definition collect_allow ::
  "HttpRoutes \<Rightarrow> HttpRouterMount list \<Rightarrow> router_heap \<Rightarrow> HttpRouteSegments \<Rightarrow> nat \<Rightarrow> string" where
  "collect_allow rs mounts heap req n =
     collect_mounts n req heap mounts (collect_routes n req 0 (routes rs) [])"

section \<open>What parsing means\<close>

text \<open>
  The reference: the non-empty parts between slashes, from the first slash on. A part that starts
  with a colon is a parameter; it is invalid if nothing follows the colon, and any text of 64
  characters or more is invalid.
\<close>

definition raw_segments :: "string \<Rightarrow> string list" where
  "raw_segments p =
     (case dropWhile (\<lambda>c. c \<noteq> CHR ''/'') p of
        [] \<Rightarrow> [] | _ # q \<Rightarrow> filter (\<lambda>t. t \<noteq> []) (split_on (CHR ''/'') q))"

definition mk_seg :: "string \<Rightarrow> HttpRouteSegment" where
  "mk_seg t =
     (if t \<noteq> [] \<and> hd t = CHR '':'' then \<lparr>seg_text = tl t, is_param = True\<rparr>
      else \<lparr>seg_text = t, is_param = False\<rparr>)"

definition seg_ok :: "string \<Rightarrow> bool" where
  "seg_ok t \<longleftrightarrow> seg_text (mk_seg t) \<noteq> [] \<and> length (seg_text (mk_seg t)) < SEGMENT_TEXT_MAX"

lemma raw_segments_step:
  assumes "dropWhile (\<lambda>c. c \<noteq> CHR ''/'') p = s # q"
  shows "raw_segments p =
     (let t = takeWhile (\<lambda>c. c \<noteq> CHR ''/'') q
      in if t = [] then raw_segments q else t # raw_segments q)"
  unfolding raw_segments_def assms list.case
  by (subst split_on_span [of "CHR ''/''" q]) (simp add: Let_def split: list.split)

lemma raw_segments_colon [simp]: "raw_segments (CHR '':'' # p) = raw_segments p"
  by (simp add: raw_segments_def)

lemma segment_text:
  fixes q :: string
  defines "param \<equiv> q \<noteq> [] \<and> hd q = CHR '':''"
  defines "start \<equiv> if param then tl q else q"
  defines "t \<equiv> takeWhile (\<lambda>c. c \<noteq> CHR ''/'') q"
  shows "raw_segments start = raw_segments q"
    and "mk_seg t = \<lparr>seg_text = takeWhile (\<lambda>c. c \<noteq> CHR ''/'') start, is_param = param\<rparr>"
  unfolding start_def param_def t_def by (cases q; simp add: mk_seg_def; fail)+

text \<open>One round of the loop in terms of the raw segment it reads.\<close>

lemma parse_segments_loop_round:
  assumes "dropWhile (\<lambda>c. c \<noteq> CHR ''/'') p = s # q"
    and "t = takeWhile (\<lambda>c. c \<noteq> CHR ''/'') q"
  obtains start where "length start < length p" and "raw_segments start = raw_segments q"
    and "parse_segments_loop mem p acc cap =
      (if t = [] then parse_segments_loop mem start acc cap
       else if \<not> seg_ok t then None
       else if Suc (length acc) = cap
       then (if mem (cap * 2 * 65) then parse_segments_loop mem start (acc @ [mk_seg t]) (cap * 2)
             else None)
       else parse_segments_loop mem start (acc @ [mk_seg t]) cap)"
proof
  define param where "param \<longleftrightarrow> q \<noteq> [] \<and> hd q = CHR '':''"
  define start where "start = (if param then tl q else q)"
  define tx where "tx = takeWhile (\<lambda>c. c \<noteq> CHR ''/'') start"
  have mk: "mk_seg t = \<lparr>seg_text = tx, is_param = param\<rparr>"
    using segment_text(2) [of q] assms(2) by (simp add: tx_def start_def param_def)
  have empty: "t = [] \<longleftrightarrow> tx = [] \<and> \<not> param"
    using mk by (auto simp: mk_seg_def split: if_splits)
  show "length start < length p" using assms(1) unfolding start_def by (rule after_slash_shorter)
  show "raw_segments start = raw_segments q"
    using segment_text(1) [of q] by (simp add: start_def param_def)
  have "parse_segments_loop mem p acc cap =
      (if tx = [] \<and> \<not> param then parse_segments_loop mem start acc cap
       else if tx = [] then None
       else if length tx \<ge> SEGMENT_TEXT_MAX then None
       else if length (acc @ [mk_seg t]) = cap
       then (if mem (cap * 2 * 65) then parse_segments_loop mem start (acc @ [mk_seg t]) (cap * 2)
             else None)
       else parse_segments_loop mem start (acc @ [mk_seg t]) cap)"
    unfolding mk
    by (simp only: parse_segments_loop.simps [of mem p acc cap] assms(1) list.case Let_def
        param_def start_def tx_def)
  then show "parse_segments_loop mem p acc cap =
      (if t = [] then parse_segments_loop mem start acc cap
       else if \<not> seg_ok t then None
       else if Suc (length acc) = cap
       then (if mem (cap * 2 * 65) then parse_segments_loop mem start (acc @ [mk_seg t]) (cap * 2)
             else None)
       else parse_segments_loop mem start (acc @ [mk_seg t]) cap)"
    by (cases "tx = []"; cases param; simp add: empty seg_ok_def mk)
qed

lemma parse_segments_loop_spec:
  "parse_segments_loop mem p acc cap = Some segs \<Longrightarrow>
     segments segs = acc @ map mk_seg (raw_segments p) \<and> list_all seg_ok (raw_segments p)"
proof (induction "length p" arbitrary: p acc cap rule: less_induct)
  case less
  show ?case
  proof (cases "dropWhile (\<lambda>c. c \<noteq> CHR ''/'') p")
    case Nil
    then show ?thesis
      using less.prems by (auto simp: raw_segments_def parse_segments_loop.simps [of mem p])
  next
    case (Cons s q)
    define t where "t = takeWhile (\<lambda>c. c \<noteq> CHR ''/'') q"
    obtain start where start: "length start < length p" "raw_segments start = raw_segments q"
      and eq: "parse_segments_loop mem p acc cap =
        (if t = [] then parse_segments_loop mem start acc cap
         else if \<not> seg_ok t then None
         else if Suc (length acc) = cap
         then (if mem (cap * 2 * 65) then parse_segments_loop mem start (acc @ [mk_seg t]) (cap * 2)
               else None)
         else parse_segments_loop mem start (acc @ [mk_seg t]) cap)"
      by (rule parse_segments_loop_round [OF Cons t_def])
    have raw: "raw_segments p = (if t = [] then raw_segments start else t # raw_segments start)"
      using raw_segments_step [OF Cons] start(2) by (simp add: t_def Let_def)
    show ?thesis
      using less.prems less.hyps [OF start(1)] unfolding eq raw by (fastforce split: if_splits)
  qed
qed

lemma parse_segments_loop_total:
  "\<forall>n. mem n \<Longrightarrow> list_all seg_ok (raw_segments p) \<Longrightarrow>
     \<exists>segs. parse_segments_loop mem p acc cap = Some segs"
proof (induction "length p" arbitrary: p acc cap rule: less_induct)
  case less
  show ?case
  proof (cases "dropWhile (\<lambda>c. c \<noteq> CHR ''/'') p")
    case Nil
    then show ?thesis by (simp add: parse_segments_loop.simps [of mem p])
  next
    case (Cons s q)
    define t where "t = takeWhile (\<lambda>c. c \<noteq> CHR ''/'') q"
    obtain start where start: "length start < length p" "raw_segments start = raw_segments q"
      and eq: "parse_segments_loop mem p acc cap =
        (if t = [] then parse_segments_loop mem start acc cap
         else if \<not> seg_ok t then None
         else if Suc (length acc) = cap
         then (if mem (cap * 2 * 65) then parse_segments_loop mem start (acc @ [mk_seg t]) (cap * 2)
               else None)
         else parse_segments_loop mem start (acc @ [mk_seg t]) cap)"
      by (rule parse_segments_loop_round [OF Cons t_def])
    have raw: "raw_segments p = (if t = [] then raw_segments start else t # raw_segments start)"
      using raw_segments_step [OF Cons] start(2) by (simp add: t_def Let_def)
    show ?thesis
      using less.prems less.hyps [OF start(1) less.prems(1)] unfolding eq raw
      by (auto split: if_splits)
  qed
qed

lemma http_parse_route_segments_Some:
  "http_parse_route_segments mem p = Some segs \<Longrightarrow>
     segments segs = map mk_seg (raw_segments p) \<and> list_all seg_ok (raw_segments p)"
  unfolding http_parse_route_segments_def
  by (metis append_Nil option.distinct(1) parse_segments_loop_spec)

lemma http_parse_route_segments_spec:
  assumes "\<forall>n. mem n"
  shows "map_option segments (http_parse_route_segments mem p) =
     (if list_all seg_ok (raw_segments p) then Some (map mk_seg (raw_segments p)) else None)"
proof (cases "http_parse_route_segments mem p")
  case None
  with assms have "parse_segments_loop mem p [] 8 = None"
    by (simp add: http_parse_route_segments_def)
  then have "\<not> list_all seg_ok (raw_segments p)"
    using parse_segments_loop_total [OF assms, of p "[]" 8] by auto
  with None show ?thesis by simp
next
  case (Some segs)
  with http_parse_route_segments_Some [OF Some] show ?thesis by simp
qed

lemma parsed_text_bounds:
  assumes "http_parse_route_segments mem p = Some segs" and "s \<in> set (segments segs)"
  shows "0 < length (seg_text s)" and "length (seg_text s) < SEGMENT_TEXT_MAX"
  using http_parse_route_segments_Some [OF assms(1)] assms(2)
  by (auto simp: list_all_iff seg_ok_def)

section \<open>What matching means\<close>

definition seg_matches :: "HttpRouteSegment \<Rightarrow> HttpRouteSegment \<Rightarrow> bool" where
  "seg_matches pat cur \<longleftrightarrow> is_param pat \<or> seg_text pat = seg_text cur"

definition bindings :: "HttpRouteSegment list \<Rightarrow> HttpRouteSegment list \<Rightarrow> (string \<times> string) list" where
  "bindings ps cs = map (\<lambda>(p, c). (seg_text p, seg_text c)) (filter (\<lambda>(p, c). is_param p) (zip ps cs))"

lemma bindings_simps [simp]:
  "bindings [] cs = []"
  "bindings (p # ps) (c # cs) =
     (if is_param p then (seg_text p, seg_text c) # bindings ps cs else bindings ps cs)"
  by (simp_all add: bindings_def)

lemma match_loop_None:
  "length ps = length cs \<Longrightarrow> match_loop ps cs None n = (list_all2 seg_matches ps cs, None, n)"
proof (induction ps cs arbitrary: n rule: list_induct2)
  case (Cons p ps c cs)
  then show ?case by (auto simp: seg_matches_def)
qed simp

lemma segments_match_at_None [http_simps]:
  "segments_match_at pat req offset None =
     (offset \<le> length (segments req) \<and>
      list_all2 seg_matches (segments pat) (drop offset (segments req)), None)"
  by (auto simp: segments_match_at_def match_loop_None dest: list_all2_lengthD)

lemma match_loop_binds:
  assumes "list_all2 seg_matches ps cs"
    and "n + length (filter is_param ps) \<le> HTTP_MAX_PARAMS"
    and "\<forall>p \<in> set ps. is_param p \<longrightarrow> length (seg_text p) < HTTP_PARAM_KEY_MAX"
    and "\<forall>c \<in> set cs. length (seg_text c) < HTTP_PARAM_VALUE_MAX"
    and "length (param_slots par) = HTTP_MAX_PARAMS"
  shows "\<exists>par'. match_loop ps cs (Some par) n = (True, Some par', n + length (filter is_param ps)) \<and>
     length (param_slots par') = HTTP_MAX_PARAMS \<and>
     take (n + length (filter is_param ps)) (param_slots par') = take n (param_slots par) @ bindings ps cs"
  using assms
proof (induction ps cs arbitrary: n par rule: list_all2_induct)
  case Nil
  then show ?case by simp
next
  case (Cons p ps c cs)
  show ?case
  proof (cases "is_param p")
    case False
    with Cons show ?thesis by (auto simp: seg_matches_def)
  next
    case True
    define bound where "bound = put_param par n (seg_text p) (seg_text c)"
    have n: "n < HTTP_MAX_PARAMS" using Cons.prems(1) True by simp
    have step: "match_loop (p # ps) (c # cs) (Some par) n = match_loop ps cs (Some bound) (n + 1)"
      using True n Cons.prems by (simp add: bound_def put_param_def Let_def)
    have slots: "length (param_slots bound) = HTTP_MAX_PARAMS"
      and tk: "take (n + 1) (param_slots bound) = take n (param_slots par) @ [(seg_text p, seg_text c)]"
      using Cons.prems(4) n by (simp_all add: bound_def put_param_def take_Suc_conv_app_nth)
    show ?thesis
      using Cons.IH [of "n + 1" bound] Cons.prems True slots tk unfolding step by auto
  qed
qed

section \<open>What registration keeps\<close>

definition route_inv :: "HttpRoute \<Rightarrow> bool" where
  "route_inv r \<longleftrightarrow>
     length (route_path r) < HTTP_PATH_MAX \<and> CHR ''?'' \<notin> set (route_path r) \<and>
     list_all seg_ok (raw_segments (route_path r)) \<and>
     segments (route_segments r) = map mk_seg (raw_segments (route_path r)) \<and>
     length (filter is_param (segments (route_segments r))) \<le> HTTP_MAX_PARAMS \<and>
     (\<forall>s \<in> set (segments (route_segments r)). is_param s \<longrightarrow> length (seg_text s) < HTTP_PARAM_KEY_MAX) \<and>
     distinct (map seg_text (filter is_param (segments (route_segments r))))"

definition routes_inv :: "HttpRoutes \<Rightarrow> bool" where
  "routes_inv rs \<longleftrightarrow>
     length (routes rs) \<le> routes_capacity rs \<and> list_all route_inv (routes rs) \<and>
     distinct (map (\<lambda>r. (route_method r, route_path r)) (routes rs))"

lemma params_valid_spec:
  assumes "params_valid seen ss n" and "distinct (map seg_text (filter is_param seen))"
    and "n \<le> HTTP_MAX_PARAMS"
  shows "n + length (filter is_param ss) \<le> HTTP_MAX_PARAMS \<and>
     (\<forall>s \<in> set ss. is_param s \<longrightarrow> length (seg_text s) < HTTP_PARAM_KEY_MAX) \<and>
     distinct (map seg_text (filter is_param (seen @ ss)))"
  using assms
proof (induction ss arbitrary: seen n)
  case Nil
  then show ?case by simp
next
  case (Cons s ss)
  show ?case
  proof (cases "is_param s")
    case False
    with Cons.prems Cons.IH [of "seen @ [s]" n] show ?thesis by simp
  next
    case True
    with Cons.prems have rec: "params_valid (seen @ [s]) ss (n + 1)" and "n + 1 \<le> HTTP_MAX_PARAMS"
      and "length (seg_text s) < HTTP_PARAM_KEY_MAX"
      and "seg_text s \<notin> seg_text ` set (filter is_param seen)"
      by (auto split: if_splits)
    with Cons.IH [OF rec] Cons.prems(2) True show ?thesis by auto
  qed
qed

lemma add_route_to_cases:
  assumes "add_route_to mem rs path h m = (res, rs')"
  shows "(res \<noteq> HTTP_ROUTE_ADD_OK \<and> routes rs' = routes rs) \<or>
    (res = HTTP_ROUTE_ADD_OK \<and> (\<exists>segs. http_parse_route_segments mem path = Some segs \<and>
       params_valid [] (segments segs) 0 \<and>
       length path < HTTP_PATH_MAX \<and> CHR ''?'' \<notin> set path \<and>
       (m, path) \<notin> (\<lambda>r. (route_method r, route_path r)) ` set (routes rs) \<and>
       routes rs' = routes rs @ [\<lparr>route_path = path, route_handler = h, route_method = m,
                                  route_segments = segs\<rparr>]))"
  using assms
  by (auto simp: add_route_to_def Let_def image_iff split: if_splits option.splits)

lemma add_route_to_capacity:
  "length (routes rs) \<le> routes_capacity rs \<Longrightarrow>
     length (routes (snd (add_route_to mem rs p h m))) \<le> routes_capacity (snd (add_route_to mem rs p h m))"
  "routes_capacity rs \<le> routes_capacity (snd (add_route_to mem rs p h m))"
  by (auto simp: add_route_to_def Let_def grow_cap_def split: option.splits)

lemma add_route_to_inv [inv_intros]:
  assumes "routes_inv rs" and "add_route_to mem rs path h m = (res, rs')"
  shows "routes_inv rs'"
  using add_route_to_cases [OF assms(2)]
proof (elim disjE conjE exE)
  assume "routes rs' = routes rs"
  then show ?thesis
    using assms add_route_to_capacity(1) [of rs mem path h m] by (simp add: routes_inv_def)
next
  fix segs
  assume parsed: "http_parse_route_segments mem path = Some segs"
    and valid: "params_valid [] (segments segs) 0"
    and len: "length path < HTTP_PATH_MAX" and q: "CHR ''?'' \<notin> set path"
    and fresh: "(m, path) \<notin> (\<lambda>r. (route_method r, route_path r)) ` set (routes rs)"
    and new: "routes rs' = routes rs @ [\<lparr>route_path = path, route_handler = h, route_method = m,
                                         route_segments = segs\<rparr>]"
  have "route_inv \<lparr>route_path = path, route_handler = h, route_method = m, route_segments = segs\<rparr>"
    using params_valid_spec [OF valid] http_parse_route_segments_Some [OF parsed] len q
    by (simp add: route_inv_def limit_defs)
  then show ?thesis
    using assms add_route_to_capacity(1) [of rs mem path h m] new fresh
    by (auto simp: routes_inv_def)
qed

lemma http_add_route_inv [inv_intros]:
  "routes_inv rs \<Longrightarrow> http_add_route mem rs p h m = (res, rs') \<Longrightarrow> routes_inv rs'"
  by (auto simp: http_add_route_def intro: add_route_to_inv split: option.splits if_splits)

interpretation route_array: dyn_array routes routes_capacity
  "\<lambda>rs (p, h, m). snd (add_route_to mem rs p h m)"
  "\<lambda>(p, h, m). \<lparr>route_path = p, route_handler = h, route_method = m,
                 route_segments = the (http_parse_route_segments mem p)\<rparr>"
  for mem
proof unfold_locales
  fix s :: HttpRoutes and x :: "string \<times> HttpHandler \<times> HttpMethod"
  obtain p h m where x: "x = (p, h, m)" by (cases x) auto
  obtain res rs' where e: "add_route_to mem s p h m = (res, rs')" by fastforce
  show "routes (case x of (p, h, m) \<Rightarrow> snd (add_route_to mem s p h m)) = routes s \<or>
    routes (case x of (p, h, m) \<Rightarrow> snd (add_route_to mem s p h m)) = routes s @
      [case x of (p, h, m) \<Rightarrow> \<lparr>route_path = p, route_handler = h, route_method = m,
         route_segments = the (http_parse_route_segments mem p)\<rparr>]"
    using add_route_to_cases [OF e] e x by auto
qed (auto simp: add_route_to_capacity split: prod.splits)

section \<open>A matched route binds its parameters\<close>

lemma lookup_first_distinct:
  assumes "distinct (map fst xs)" and "(k, v) \<in> set xs"
  shows "lookup_first (=) xs k = Some v"
  using assms by (simp add: lookup_first_eq_map_of)

lemma bindings_nth:
  assumes "length ps = length cs" and "i < length ps" and "is_param (ps ! i)"
  shows "(seg_text (ps ! i), seg_text (cs ! i)) \<in> set (bindings ps cs)"
  using assms by (auto simp: bindings_def set_zip intro!: image_eqI)

lemma map_fst_bindings:
  "length ps = length cs \<Longrightarrow> map fst (bindings ps cs) = map seg_text (filter is_param ps)"
  by (induction ps cs rule: list_induct2) auto

lemma matched_route_binds:
  assumes inv: "route_inv r" and req: "http_parse_route_segments mem path = Some req"
    and hit: "fst (segments_match_at (route_segments r) req off None)"
    and slots: "length (param_slots par) = HTTP_MAX_PARAMS"
  shows "\<exists>par'. segments_match_at (route_segments r) req off (Some par) = (True, Some par') \<and>
     length (param_slots par') = HTTP_MAX_PARAMS \<and>
     take (param_count par') (param_slots par') =
       bindings (segments (route_segments r)) (drop off (segments req))"
proof -
  let ?ps = "segments (route_segments r)" and ?cs = "drop off (segments req)"
  have off: "off \<le> length (segments req)" and m: "list_all2 seg_matches ?ps ?cs"
    using hit by (auto simp: segments_match_at_None)
  have cs: "\<forall>c \<in> set ?cs. length (seg_text c) < HTTP_PARAM_VALUE_MAX"
    using parsed_text_bounds [OF req] by (auto simp: limit_defs dest: in_set_dropD)
  obtain par' where "match_loop ?ps ?cs (Some par) 0 = (True, Some par', length (filter is_param ?ps))"
    and "length (param_slots par') = HTTP_MAX_PARAMS"
    and "take (length (filter is_param ?ps)) (param_slots par') = bindings ?ps ?cs"
    using match_loop_binds [OF m, of 0 par] inv cs slots by (auto simp: route_inv_def)
  then show ?thesis
    using off list_all2_lengthD [OF m] by (auto simp: segments_match_at_def)
qed

lemma matched_param_value:
  assumes "route_inv r" and "http_parse_route_segments mem path = Some req"
    and "fst (segments_match_at (route_segments r) req off None)"
    and "length (param_slots par) = HTTP_MAX_PARAMS"
    and "i < length (segments (route_segments r))" and "is_param (segments (route_segments r) ! i)"
    and "segments_match_at (route_segments r) req off (Some par) = (ok, Some par')"
  shows "lookup_first (=) (take (param_count par') (param_slots par'))
           (seg_text (segments (route_segments r) ! i)) = Some (seg_text (segments req ! (off + i)))"
proof -
  let ?ps = "segments (route_segments r)" and ?cs = "drop off (segments req)"
  have slots: "take (param_count par') (param_slots par') = bindings ?ps ?cs"
    using matched_route_binds [OF assms(1-4)] assms(7) by auto
  have len: "length ?ps = length ?cs"
    using assms(3) by (auto simp: segments_match_at_None dest: list_all2_lengthD)
  have "distinct (map fst (bindings ?ps ?cs))"
    using assms(1) unfolding map_fst_bindings [OF len] route_inv_def by blast
  then show ?thesis
    using lookup_first_distinct bindings_nth [OF len assms(5,6)] slots len assms(5) by simp
qed

section \<open>Middleware paths\<close>

lemma path_matches_plain:
  assumes "reg \<noteq> []" and "last reg \<noteq> CHR ''/''"
  shows "path_matches reg real \<longleftrightarrow> real = reg \<or> (\<exists>t. real = reg @ CHR ''/'' # t)"
proof
  assume m: "path_matches reg real"
  then have pre: "take (length reg) real = reg" and
    alt: "length real = length reg \<or> reg ! (length reg - 1) = CHR ''/'' \<or> real ! length reg = CHR ''/''"
    using assms by (auto simp: path_matches_def strneq_def Let_def split: if_splits)
  have "reg ! (length reg - 1) \<noteq> CHR ''/''" using assms by (simp add: last_conv_nth)
  obtain t where t: "real = reg @ t" using pre by (metis append_take_drop_id)
  with alt \<open>reg ! (length reg - 1) \<noteq> CHR ''/''\<close> show "real = reg \<or> (\<exists>t. real = reg @ CHR ''/'' # t)"
    by (cases t) auto
next
  assume "real = reg \<or> (\<exists>t. real = reg @ CHR ''/'' # t)"
  then show "path_matches reg real"
    using assms by (auto simp: path_matches_def strneq_def Let_def)
qed

text \<open>
  A request path is in normal form when it is its segments joined by single slashes and no segment
  starts with a colon.
\<close>

definition render :: "string list \<Rightarrow> string" where
  "render ts = concat (map (\<lambda>t. CHR ''/'' # t) ts)"

definition normal_path :: "string \<Rightarrow> bool" where
  "normal_path p \<longleftrightarrow> p = render (raw_segments p) \<and> (\<forall>t \<in> set (raw_segments p). hd t \<noteq> CHR '':'')"

lemma render_simps [simp]:
  "render [] = []"
  "render (t # ts) = CHR ''/'' # t @ render ts"
  "render (ts @ us) = render ts @ render us"
  by (simp_all add: render_def)

lemma render_starts: "render ts = [] \<or> hd (render ts) = CHR ''/''"
  by (cases ts) simp_all

lemma last_render:
  "ts \<noteq> [] \<Longrightarrow> last ts \<noteq> [] \<Longrightarrow> CHR ''/'' \<notin> set (last ts) \<Longrightarrow> last (render ts) \<noteq> CHR ''/''"
  by (induction ts rule: rev_induct) (auto simp: last_append dest: last_in_set)

lemma guard_covers_normal_request:
  assumes "normal_path path" and "pre \<noteq> []" and "last pre \<noteq> []" and "CHR ''/'' \<notin> set (last pre)"
    and "take (length pre) (raw_segments path) = pre"
  shows "path_matches (render pre) path"
proof -
  obtain post where raw: "raw_segments path = pre @ post" using assms(5) by (metis append_take_drop_id)
  have "path = render (raw_segments path)" using assms(1) by (simp add: normal_path_def)
  then have path: "path = render pre @ render post" unfolding raw by simp
  have "render pre \<noteq> []" using assms(2) by (cases pre) simp_all
  moreover have "last (render pre) \<noteq> CHR ''/''" using last_render assms(2-4) by blast
  moreover have "render post = [] \<or> (\<exists>t. render post = CHR ''/'' # t)" by (cases post) simp_all
  ultimately show ?thesis using path by (auto simp: path_matches_plain)
qed

lemma route_literal_prefix:
  assumes "list_all2 seg_matches (map mk_seg (pre @ raws)) cs"
    and "\<forall>t \<in> set pre. t \<noteq> [] \<and> hd t \<noteq> CHR '':''"
  shows "map seg_text (take (length pre) cs) = pre"
  using assms
proof (induction pre arbitrary: cs)
  case (Cons t pre)
  then obtain c cs' where "cs = c # cs'" and "seg_matches (mk_seg t) c"
    and "list_all2 seg_matches (map mk_seg (pre @ raws)) cs'"
    by (auto simp: list_all2_Cons1)
  with Cons show ?case by (auto simp: seg_matches_def mk_seg_def)
qed simp

lemma normal_texts:
  assumes "\<forall>t \<in> set ts. hd t \<noteq> CHR '':''"
  shows "map seg_text (map mk_seg ts) = ts"
  using assms by (induction ts) (auto simp: mk_seg_def)

section \<open>The Allow buffer\<close>

lemma allow_append_bound: "length allow < n \<Longrightarrow> length (allow_append n allow name) < n"
  by (simp add: allow_append_def)

lemma collect_routes_bound: "length allow < n \<Longrightarrow> length (collect_routes n req off rs allow) < n"
  by (induction rs arbitrary: allow) (simp_all add: allow_append_bound)

lemma collect_allow_bound: "0 < n \<Longrightarrow> length (collect_allow rs ms heap req n) < n"
proof -
  assume n: "0 < n"
  have "length allow < n \<Longrightarrow> length (collect_mounts n req heap ms allow) < n" for allow
    by (induction ms arbitrary: allow) (simp_all add: collect_routes_bound split: option.split)
  then show ?thesis using n by (simp add: collect_allow_def collect_routes_bound)
qed

section \<open>Middleware registration\<close>

lemma http_middleware_cases:
  assumes "http_middleware mem ms path h = (res, ms')"
  shows "(res = HTTP_MIDDLEWARE_ADD_ERROR \<and> middlewares ms' = middlewares ms) \<or>
    (\<exists>f. h = Some f \<and> res = HTTP_MIDDLEWARE_ADD_OK \<and>
       middlewares ms' = middlewares ms @ [\<lparr>mid_path = path, mid_handler = f\<rparr>])"
  using assms by (auto simp: http_middleware_def Let_def split: option.splits if_splits)

interpretation middleware_array: dyn_array middlewares middlewares_capacity
  "\<lambda>ms (p, h). snd (http_middleware mem ms p (Some h))"
  "\<lambda>(p, h). \<lparr>mid_path = p, mid_handler = h\<rparr>"
  for mem
proof unfold_locales
  fix s :: HttpMiddlewares and x :: "string option \<times> HttpMiddlewareHandler"
  obtain p h where x: "x = (p, h)" by (cases x) auto
  obtain res ms' where e: "http_middleware mem s p (Some h) = (res, ms')" by fastforce
  show "middlewares (case x of (p, h) \<Rightarrow> snd (http_middleware mem s p (Some h))) = middlewares s \<or>
    middlewares (case x of (p, h) \<Rightarrow> snd (http_middleware mem s p (Some h))) =
      middlewares s @ [case x of (p, h) \<Rightarrow> \<lparr>mid_path = p, mid_handler = h\<rparr>]"
    using http_middleware_cases [OF e] e x by auto
  show "length (middlewares s) \<le> middlewares_capacity s \<Longrightarrow>
    length (middlewares (case x of (p, h) \<Rightarrow> snd (http_middleware mem s p (Some h))))
      \<le> middlewares_capacity (case x of (p, h) \<Rightarrow> snd (http_middleware mem s p (Some h)))"
    and "middlewares_capacity s
      \<le> middlewares_capacity (case x of (p, h) \<Rightarrow> snd (http_middleware mem s p (Some h)))"
    by (cases "middlewares s"; auto simp: x http_middleware_def Let_def grow_cap_def)+
qed

text \<open>Middlewares run in registration order until one stops the chain.\<close>

lemma run_middlewares_append:
  "run_middlewares (xs @ ys) req res =
     (case run_middlewares xs req res of
        (True, res') \<Rightarrow> run_middlewares ys req res' | (False, res') \<Rightarrow> (False, res'))"
  by (induction xs arbitrary: res) (auto split: HttpMiddlewareResult.splits prod.splits)

lemma run_middlewares_stop:
  assumes "run_middlewares xs req res = (True, res1)" and "mid_path m = Some p"
    and "path_matches p (req_path req)" and "mid_handler m req res1 = (HTTP_MIDDLEWARE_STOP, res2)"
  shows "run_middlewares (xs @ m # ys) req res = (False, res2)"
  using assms by (simp add: run_middlewares_append)

section \<open>Mounting routers\<close>

lemma http_use_cases:
  assumes "http_use mem mounts heap pre r = (res, mounts', heap')"
  shows "(res = HTTP_USE_ERROR \<and> mounts' = mounts \<and> heap' = heap) \<or>
    (\<exists>p k rt segs. pre = Some p \<and> r = Some k \<and> res = HTTP_USE_OK \<and> heap k = Some rt \<and>
       \<not> mounted rt \<and> http_parse_route_segments mem p = Some segs \<and>
       (\<forall>s \<in> set (segments segs). \<not> is_param s) \<and>
       mounts' = mounts @ [\<lparr>prefix_segments = segs, mount_router = k\<rparr>] \<and>
       heap' = heap(k \<mapsto> rt\<lparr>mounted := True\<rparr>))"
  using assms by (auto simp: http_use_def split: option.splits if_splits)

text \<open>Mounted routers are exactly those some mount refers to, and each is mounted once.\<close>

definition mounts_inv :: "HttpRouterMount list \<Rightarrow> router_heap \<Rightarrow> bool" where
  "mounts_inv mounts heap \<longleftrightarrow>
     distinct (map mount_router mounts) \<and>
     (\<forall>m \<in> set mounts. \<exists>rt. heap (mount_router m) = Some rt \<and> mounted rt) \<and>
     (\<forall>m \<in> set mounts. \<forall>s \<in> set (segments (prefix_segments m)). \<not> is_param s)"

lemma http_use_inv [inv_intros]:
  assumes "mounts_inv mounts heap" and "http_use mem mounts heap pre r = (res, mounts', heap')"
  shows "mounts_inv mounts' heap'"
  using http_use_cases [OF assms(2)] assms(1) unfolding mounts_inv_def by fastforce

lemma http_router_free_inv [inv_intros]:
  "mounts_inv mounts heap \<Longrightarrow> mounts_inv mounts (http_router_free heap r)"
  by (auto simp: mounts_inv_def http_router_free_def split: option.splits)

lemma http_router_route_inv [inv_intros]:
  assumes "mounts_inv mounts heap" and "http_router_route mem heap r p h m = (res, heap')"
  shows "mounts_inv mounts heap'"
proof -
  have "heap' = heap \<or> (\<exists>rt rs. heap r = Some rt \<and> heap' = heap(r \<mapsto> rt\<lparr>router_routes := rs\<rparr>))"
    using assms(2) by (auto simp: http_router_route_def split: option.splits if_splits prod.splits)
  with assms(1) show ?thesis by (fastforce simp: mounts_inv_def)
qed

section \<open>Properties\<close>

text \<open>With enough memory \<^verbatim>\<open>http_parse_route_segments\<close> returns the non-empty parts between the
  slashes, those that start with a colon as parameters without it, and it fails exactly if some
  part has no text or has 64 characters or more.\<close>

theorem parse_route_segments_refines:
  assumes "\<forall>n. mem n"
  shows "map_option segments (http_parse_route_segments mem p) =
     (if list_all seg_ok (raw_segments p) then Some (map mk_seg (raw_segments p)) else None)"
  using assms by (rule http_parse_route_segments_spec)

theorem parse_route_segments_refines_witness:
  "map_option segments (http_parse_route_segments (\<lambda>n. True) ''/users//:id/'') =
     Some [\<lparr>seg_text = ''users'', is_param = False\<rparr>, \<lparr>seg_text = ''id'', is_param = True\<rparr>]"
  using parse_route_segments_refines [of "\<lambda>n. True" "''/users//:id/''"]
  by (simp add: raw_segments_def mk_seg_def seg_ok_def SEGMENT_TEXT_MAX_def)

text \<open>C29: every table built by registrations, whatever paths, handlers, methods and allocation
  failures, keeps its invariant: no two routes with the same method and path, each path below 512
  characters and without a question mark, its segments the parse of its path, at most 16
  parameters with distinct names below 32 characters, and no more routes than room.\<close>

theorem registered_routes_inv:
  "routes_inv (foldl (\<lambda>rs (p, h, m). snd (http_add_route mem rs p h m))
      \<lparr>routes = [], routes_capacity = 0\<rparr> regs)"
proof -
  have "routes_inv rs \<Longrightarrow> routes_inv (foldl (\<lambda>rs (p, h, m). snd (http_add_route mem rs p h m)) rs regs)" for rs
    by (induction regs arbitrary: rs) (auto, metis http_add_route_inv prod.collapse)
  then show ?thesis by (simp add: routes_inv_def)
qed

text \<open>C30: when a registered route matches a parsed request, the second, binding pass of the matcher
  succeeds too, and looking up any parameter of the route then gives the text of the request
  segment at its position.\<close>

theorem matched_route_param:
  assumes "route_inv r" and "http_parse_route_segments mem path = Some rsegs"
    and "fst (segments_match_at (route_segments r) rsegs off None)"
    and "length (param_slots par) = HTTP_MAX_PARAMS"
    and "i < length (segments (route_segments r))" and "is_param (segments (route_segments r) ! i)"
  shows "\<exists>par'. segments_match_at (route_segments r) rsegs off (Some par) = (True, Some par') \<and>
    http_req_param (req\<lparr>req_params := par'\<rparr>) (Some (seg_text (segments (route_segments r) ! i))) =
      Some (seg_text (segments rsegs ! (off + i)))"
  using matched_route_binds [OF assms(1-4)] matched_param_value [OF assms(1-6)]
  by (auto simp: http_req_param_def)

theorem matched_route_param_witness:
  "\<exists>par'. segments_match_at
      \<lparr>segments = [\<lparr>seg_text = ''u'', is_param = False\<rparr>, \<lparr>seg_text = ''id'', is_param = True\<rparr>],
       segs_capacity = 8\<rparr>
      \<lparr>segments = [\<lparr>seg_text = ''u'', is_param = False\<rparr>, \<lparr>seg_text = ''42'', is_param = False\<rparr>],
       segs_capacity = 8\<rparr> 0 (Some no_params) = (True, Some par') \<and>
    http_req_param (empty_request\<lparr>req_params := par'\<rparr>) (Some ''id'') = Some ''42''"
proof -
  let ?pat = "\<lparr>segments = [\<lparr>seg_text = ''u'', is_param = False\<rparr>, \<lparr>seg_text = ''id'', is_param = True\<rparr>],
       segs_capacity = 8\<rparr>"
  let ?r = "\<lparr>route_path = ''/u/:id'', route_handler = (\<lambda>req res. res), route_method = HTTP_METHOD_GET,
       route_segments = ?pat\<rparr>"
  let ?req = "\<lparr>segments = [\<lparr>seg_text = ''u'', is_param = False\<rparr>, \<lparr>seg_text = ''42'', is_param = False\<rparr>],
       segs_capacity = 8\<rparr>"
  have "route_inv ?r" by (simp add: route_inv_def raw_segments_def seg_ok_def mk_seg_def limit_defs)
  moreover have "http_parse_route_segments (\<lambda>n. True) ''/u/42'' = Some ?req"
    by (simp add: http_parse_route_segments_def parse_segments_loop.simps SEGMENT_TEXT_MAX_def)
  moreover have "fst (segments_match_at (route_segments ?r) ?req 0 None)"
    by (simp add: segments_match_at_None seg_matches_def)
  moreover have "length (param_slots no_params) = HTTP_MAX_PARAMS"
    by (simp add: no_params_def)
  ultimately show ?thesis
    using matched_route_param [of ?r "\<lambda>n. True" "''/u/42''" ?req 0 no_params 1 empty_request] by simp
qed




end
