(* ===== verification/Query.thy ===== *)
theory Query
  imports Http_Types
begin

text \<open>
  Query strings and urlencoded bodies (\<^verbatim>\<open>hex_val\<close>, \<^verbatim>\<open>query_decode\<close>, \<^verbatim>\<open>parse_query\<close>,
  \<^verbatim>\<open>http_req_query\<close>, \<^verbatim>\<open>http_req_form\<close>). The lemmas show that the single-pass parser computes the
  first sixteen well-formed pairs of the \<^verbatim>\<open>&\<close>-separated text, that every stored pair fits its
  buffers and is free of control characters, and that percent-encoded pairs come back unchanged.
\<close>

section \<open>Decoding\<close>

definition hex_val :: "char \<Rightarrow> int" where
  "hex_val c =
     (if 48 \<le> byte c \<and> byte c \<le> 57 then int (byte c) - 48
      else if 97 \<le> byte c \<and> byte c \<le> 102 then int (byte c) - 97 + 10
      else if 65 \<le> byte c \<and> byte c \<le> 70 then int (byte c) - 65 + 10
      else - 1)"

text \<open>\<open>room\<close> is the write index \<^verbatim>\<open>o\<close>; the result is what is still to be written.\<close>

fun query_decode_loop :: "string \<Rightarrow> nat \<Rightarrow> nat \<Rightarrow> string option" where
  "query_decode_loop [] pos out_size = Some []"
| "query_decode_loop (c # cs) pos out_size =
     (if pos + 1 \<ge> out_size then None
      else if c = CHR ''%'' then
        (case cs of
           h # l # rest \<Rightarrow>
             let hi = hex_val h; lo = hex_val l
             in if hi < 0 \<or> lo < 0 then None
                else
                  let decoded = char_of (nat (hi * 16 + lo)) :: char
                  in if is_ctl decoded then None
                     else map_option ((#) decoded) (query_decode_loop rest (pos + 1) out_size)
         | _ \<Rightarrow> None)
      else if c = CHR ''+'' then map_option ((#) SP) (query_decode_loop cs (pos + 1) out_size)
      else if is_ctl c then None
      else map_option ((#) c) (query_decode_loop cs (pos + 1) out_size))"

definition query_decode :: "string \<Rightarrow> nat \<Rightarrow> string option" where
  "query_decode inp out_size = (if out_size = 0 then None else query_decode_loop inp 0 out_size)"

section \<open>Pairs\<close>

definition pair_split :: "string \<Rightarrow> string \<times> string \<times> string" where
  "pair_split p =
     (let key = takeWhile (\<lambda>c. c \<noteq> CHR ''&'' \<and> c \<noteq> CHR ''='') p;
          r = dropWhile (\<lambda>c. c \<noteq> CHR ''&'' \<and> c \<noteq> CHR ''='') p
      in if r \<noteq> [] \<and> hd r = CHR ''=''
         then (key, takeWhile (\<lambda>c. c \<noteq> CHR ''&'') (tl r), dropWhile (\<lambda>c. c \<noteq> CHR ''&'') (tl r))
         else (key, [], r))"

definition decode_pair :: "string \<Rightarrow> string \<Rightarrow> (string \<times> string) option" where
  "decode_pair key val =
     (if key = [] then None
      else (case query_decode key HTTP_QUERY_KEY_MAX of
              None \<Rightarrow> None
            | Some k \<Rightarrow> (case query_decode val HTTP_QUERY_VALUE_MAX of
                          None \<Rightarrow> None | Some v \<Rightarrow> Some (k, v))))"

lemma pair_split_shorter:
  assumes "pair_split p = (key, val, r)" and "p \<noteq> []"
  shows "length (if r \<noteq> [] \<and> hd r = CHR ''&'' then tl r else r) < length p"
proof -
  let ?P = "\<lambda>c. c \<noteq> CHR ''&'' \<and> c \<noteq> CHR ''=''"
  have d: "length (dropWhile ?P p) \<le> length p" by (rule length_dropWhile_le)
  show ?thesis
  proof (cases "dropWhile ?P p")
    case Nil
    then show ?thesis using assms by (auto simp: pair_split_def Let_def)
  next
    case (Cons c t)
    then have c: "\<not> ?P c" using hd_dropWhile [of ?P p] by auto
    have t: "length t < length p" using d Cons by simp
    show ?thesis
      using assms c t length_dropWhile_le [of "\<lambda>c. c \<noteq> CHR ''&''" t]
      unfolding pair_split_def Let_def Cons by (auto split: if_splits)
  qed
qed

function parse_query_loop :: "string \<Rightarrow> HttpQuery \<Rightarrow> HttpQuery" where
  "parse_query_loop p out =
     (if p = [] \<or> length out \<ge> HTTP_MAX_QUERY then out
      else
        (case pair_split p of
           (key, val, r) \<Rightarrow>
             parse_query_loop
               (if r \<noteq> [] \<and> hd r = CHR ''&'' then tl r else r)
               (case decode_pair key val of None \<Rightarrow> out | Some kv \<Rightarrow> out @ [kv])))"
  by pat_completeness auto
termination
proof (relation "measure (\<lambda>(p, out). length p)", goal_cases)
  case (2 p out key y val r)
  then show ?case using pair_split_shorter [of p key val r] by simp
qed simp

declare parse_query_loop.simps [simp del]

definition parse_query :: "string option \<Rightarrow> HttpQuery" where
  "parse_query query = (case query of None \<Rightarrow> [] | Some q \<Rightarrow> parse_query_loop q [])"

definition http_req_query :: "HttpRequest \<Rightarrow> string option \<Rightarrow> string option" where
  "http_req_query req key =
     (case key of None \<Rightarrow> None | Some k \<Rightarrow> lookup_first (=) (req_query req) k)"

definition http_req_form :: "HttpRequest \<Rightarrow> string option \<Rightarrow> string option" where
  "http_req_form req key =
     (case key of None \<Rightarrow> None | Some k \<Rightarrow> lookup_first (=) (req_form req) k)"

section \<open>Decoded text is clean and bounded\<close>

lemma query_decode_loop_clean:
  "query_decode_loop inp pos n = Some s \<Longrightarrow>
     (\<forall>c \<in> set s. \<not> is_ctl c) \<and> (s = [] \<or> pos + length s < n)"
proof (induction inp pos n arbitrary: s rule: query_decode_loop.induct)
  case (1 pos n)
  then show ?case by simp
next
  case (2 c cs pos n)
  have sp: "\<not> is_ctl SP" by (simp add: is_ctl_def)
  show ?case
  proof (cases "c = CHR ''%''")
    case True
    with "2.prems" obtain h l rest t where cs: "cs = h # l # rest" and pos: "\<not> n \<le> pos + 1"
      and hex: "\<not> (hex_val h < 0 \<or> hex_val l < 0)"
      and d: "\<not> is_ctl (char_of (nat (hex_val h * 16 + hex_val l)))"
      and rec: "query_decode_loop rest (pos + 1) n = Some t"
      and s: "s = char_of (nat (hex_val h * 16 + hex_val l)) # t"
      by (auto simp: Let_def split: list.splits if_splits)
    have "(\<forall>c \<in> set t. \<not> is_ctl c) \<and> (t = [] \<or> pos + 1 + length t < n)"
      using "2.IH"(1) [OF pos True cs refl refl refl hex refl d rec] .
    with d s pos show ?thesis by auto
  next
    case False
    show ?thesis
    proof (cases "c = CHR ''+''")
      case plus: True
      with False "2.prems" obtain t where pos: "\<not> n \<le> pos + 1"
        and rec: "query_decode_loop cs (pos + 1) n = Some t" and s: "s = SP # t"
        by (auto split: if_splits)
      from "2.IH"(2) [OF pos False plus rec] pos s sp show ?thesis by auto
    next
      case lit: False
      with False "2.prems" obtain t where pos: "\<not> n \<le> pos + 1" and c: "\<not> is_ctl c"
        and rec: "query_decode_loop cs (pos + 1) n = Some t" and s: "s = c # t"
        by (auto split: if_splits)
      from "2.IH"(3) [OF pos False lit c rec] pos s c show ?thesis by auto
    qed
  qed
qed

lemma query_decode_clean:
  "query_decode inp n = Some s \<Longrightarrow> (\<forall>c \<in> set s. \<not> is_ctl c) \<and> length s < n"
  by (auto simp: query_decode_def dest: query_decode_loop_clean split: if_splits)

definition query_inv :: "HttpQuery \<Rightarrow> bool" where
  "query_inv q \<longleftrightarrow>
     length q \<le> HTTP_MAX_QUERY \<and>
     (\<forall>(k, v) \<in> set q. length k < HTTP_QUERY_KEY_MAX \<and> length v < HTTP_QUERY_VALUE_MAX \<and>
        (\<forall>c \<in> set k \<union> set v. \<not> is_ctl c))"

lemma decode_pair_clean:
  assumes "decode_pair key val = Some (k, v)"
  shows "length k < HTTP_QUERY_KEY_MAX \<and> length v < HTTP_QUERY_VALUE_MAX \<and>
     (\<forall>c \<in> set k \<union> set v. \<not> is_ctl c)"
  using assms
  by (auto simp: decode_pair_def dest!: query_decode_clean split: if_splits option.splits)

lemma parse_query_loop_inv: "query_inv out \<Longrightarrow> query_inv (parse_query_loop p out)"
proof (induction p out rule: parse_query_loop.induct)
  case (1 p out)
  show ?case
  proof (cases "p = [] \<or> length out \<ge> HTTP_MAX_QUERY")
    case True
    then show ?thesis using "1.prems" by (simp add: parse_query_loop.simps [of p])
  next
    case False
    obtain key val r where ps: "pair_split p = (key, val, r)" by (cases "pair_split p")
    have "query_inv (case decode_pair key val of None \<Rightarrow> out | Some kv \<Rightarrow> out @ [kv])"
      using "1.prems" False decode_pair_clean [of key val]
      by (auto simp: query_inv_def split: option.split)
    with "1.IH" [OF False ps [symmetric] refl] False ps show ?thesis
      by (simp add: parse_query_loop.simps [of p])
  qed
qed

lemma parse_query_inv [inv_intros]: "query_inv (parse_query q)"
proof -
  have "query_inv []" by (simp add: query_inv_def)
  then show ?thesis by (cases q) (simp_all add: parse_query_def parse_query_loop_inv)
qed

section \<open>The reference reading\<close>

text \<open>Split at \<^verbatim>\<open>&\<close>, then at the first \<^verbatim>\<open>=\<close>; keep the pairs that decode; keep the first sixteen.\<close>

definition piece_pair :: "string \<Rightarrow> (string \<times> string) option" where
  "piece_pair piece =
     decode_pair (takeWhile (\<lambda>c. c \<noteq> CHR ''='') piece) (tl (dropWhile (\<lambda>c. c \<noteq> CHR ''='') piece))"

definition query_pairs :: "string \<Rightarrow> HttpQuery" where
  "query_pairs q = List.map_filter piece_pair (split_on (CHR ''&'') q)"

lemma map_filter_Cons:
  "List.map_filter f (x # xs) =
     (case f x of None \<Rightarrow> List.map_filter f xs | Some y \<Rightarrow> y # List.map_filter f xs)"
  by (simp add: List.map_filter_def split: option.split)

lemma dropWhile_takeWhile_swap:
  assumes "\<And>c. P c \<Longrightarrow> Q c"
  shows "takeWhile P (takeWhile Q p) = takeWhile P p"
    and "dropWhile P (takeWhile Q p) = takeWhile Q (dropWhile P p)"
    and "dropWhile Q (dropWhile P p) = dropWhile Q p"
  using assms by (induction p) auto

lemma pair_split_piece:
  assumes "pair_split p = (key, val, r)"
  shows "decode_pair key val = piece_pair (takeWhile (\<lambda>c. c \<noteq> CHR ''&'') p)"
    and "r = dropWhile (\<lambda>c. c \<noteq> CHR ''&'') p"
proof -
  let ?P = "\<lambda>c. c \<noteq> CHR ''&'' \<and> c \<noteq> CHR ''=''" and ?Q = "\<lambda>c. c \<noteq> CHR ''&''"
  let ?E = "\<lambda>c. c \<noteq> CHR ''=''"
  have tk: "takeWhile ?E (takeWhile ?Q p) = takeWhile ?P p"
    and dr: "dropWhile ?E (takeWhile ?Q p) = takeWhile ?Q (dropWhile ?P p)"
    by (induction p) auto
  have dd: "dropWhile ?Q (dropWhile ?P p) = dropWhile ?Q p" by (induction p) auto
  have hd: "dropWhile ?P p = c # t \<Longrightarrow> c = CHR ''&'' \<or> c = CHR ''=''" for c t
    using hd_dropWhile [of ?P p] by auto
  show "decode_pair key val = piece_pair (takeWhile ?Q p)"
    using assms hd unfolding piece_pair_def tk dr
    by (cases "dropWhile ?P p") (auto simp: pair_split_def Let_def split: if_splits)
  show "r = dropWhile ?Q p"
    using assms hd unfolding dd [symmetric]
    by (cases "dropWhile ?P p") (auto simp: pair_split_def Let_def split: if_splits)
qed

lemma query_pairs_step:
  "query_pairs p =
     (let rest = (case dropWhile (\<lambda>c. c \<noteq> CHR ''&'') p of [] \<Rightarrow> [] | _ # r \<Rightarrow> query_pairs r)
      in case piece_pair (takeWhile (\<lambda>c. c \<noteq> CHR ''&'') p) of None \<Rightarrow> rest | Some kv \<Rightarrow> kv # rest)"
  unfolding query_pairs_def
  by (subst split_on_span) (simp add: map_filter_Cons Let_def List.map_filter_def split: list.split option.split)

lemma parse_query_loop_eq:
  "length out \<le> HTTP_MAX_QUERY \<Longrightarrow> parse_query_loop p out = take HTTP_MAX_QUERY (out @ query_pairs p)"
proof (induction p out rule: parse_query_loop.induct)
  case (1 p out)
  show ?case
  proof (cases "p = [] \<or> length out \<ge> HTTP_MAX_QUERY")
    case True
    then show ?thesis
      using "1.prems"
      by (auto simp: parse_query_loop.simps [of p] query_pairs_def List.map_filter_def piece_pair_def
          decode_pair_def)
  next
    case False
    obtain key val r where ps: "pair_split p = (key, val, r)" by (cases "pair_split p")
    define out' where "out' = (case decode_pair key val of None \<Rightarrow> out | Some kv \<Rightarrow> out @ [kv])"
    define rest where "rest = (if r \<noteq> [] \<and> hd r = CHR ''&'' then tl r else r)"
    have r: "r = dropWhile (\<lambda>c. c \<noteq> CHR ''&'') p" using pair_split_piece(2) [OF ps] .
    then have rr: "r = [] \<or> (\<exists>t. r = CHR ''&'' # t)"
      using dropWhile_neq_cases [of "CHR ''&''" p] by simp
    have nil: "query_pairs [] = []"
      by (simp add: query_pairs_def List.map_filter_def piece_pair_def decode_pair_def)
    have "length out' \<le> HTTP_MAX_QUERY" using False by (simp add: out'_def split: option.split)
    then have "parse_query_loop rest out' = take HTTP_MAX_QUERY (out' @ query_pairs rest)"
      using "1.IH" [OF False ps [symmetric] refl] by (simp add: out'_def rest_def)
    moreover have "out' @ query_pairs rest = out @ query_pairs p"
      using rr nil pair_split_piece(1) [OF ps] r [symmetric]
      by (subst query_pairs_step [of p])
        (auto simp: out'_def rest_def Let_def split: option.split)
    moreover have "parse_query_loop p out = parse_query_loop rest out'"
      using False ps by (simp add: parse_query_loop.simps [of p] out'_def rest_def)
    ultimately show ?thesis by simp
  qed
qed

section \<open>Percent-encoding round trip\<close>

definition hex_digit :: "nat \<Rightarrow> char" where
  "hex_digit k = char_of (if k < 10 then 48 + k else 55 + k)"

definition pct_encode :: "string \<Rightarrow> string" where
  "pct_encode s = concat (map (\<lambda>c. [CHR ''%'', hex_digit (byte c div 16), hex_digit (byte c mod 16)]) s)"

lemma hex_val_hex_digit: "k < 16 \<Longrightarrow> hex_val (hex_digit k) = int k"
  by (auto simp: hex_val_def hex_digit_def)

lemma hex_digit_plain: "k < 16 \<Longrightarrow> hex_digit k \<noteq> CHR ''&'' \<and> hex_digit k \<noteq> CHR ''=''"
  by (auto simp: hex_digit_def)

lemma pct_encode_plain: "c \<in> set (pct_encode s) \<Longrightarrow> c \<noteq> CHR ''&'' \<and> c \<noteq> CHR ''=''"
proof (induction s)
  case (Cons d s)
  from Cons hex_digit_plain show ?case by (auto simp: pct_encode_def)
qed (simp add: pct_encode_def)

lemma query_decode_loop_encode:
  "\<forall>c \<in> set s. \<not> is_ctl c \<Longrightarrow> pos + length s < n \<Longrightarrow>
     query_decode_loop (pct_encode s) pos n = Some s"
proof (induction s arbitrary: pos)
  case (Cons c s)
  have "int (byte c div 16) * 16 + int (byte c mod 16) = int (byte c)"
    by (metis div_mult_mod_eq of_nat_add of_nat_mult of_nat_numeral)
  moreover have "pct_encode (c # s) =
      CHR ''%'' # hex_digit (byte c div 16) # hex_digit (byte c mod 16) # pct_encode s"
    by (simp add: pct_encode_def)
  ultimately show ?case
    using Cons by (simp add: hex_val_hex_digit Let_def)
qed (simp add: pct_encode_def)

fun render_pairs :: "HttpQuery \<Rightarrow> string" where
  "render_pairs [] = []"
| "render_pairs [(k, v)] = pct_encode k @ CHR ''='' # pct_encode v"
| "render_pairs ((k, v) # kvs) = pct_encode k @ CHR ''='' # pct_encode v @ CHR ''&'' # render_pairs kvs"

lemma piece_pair_encode:
  assumes "k \<noteq> []" and "length k < HTTP_QUERY_KEY_MAX" and "length v < HTTP_QUERY_VALUE_MAX"
    and "\<forall>c \<in> set k \<union> set v. \<not> is_ctl c"
  shows "piece_pair (pct_encode k @ CHR ''='' # pct_encode v) = Some (k, v)"
proof -
  have "CHR ''='' \<notin> set (pct_encode k)" using pct_encode_plain by blast
  moreover have "pct_encode k \<noteq> []" using assms(1) by (cases k) (simp_all add: pct_encode_def)
  ultimately show ?thesis
    using assms by (simp add: piece_pair_def decode_pair_def query_decode_def
        query_decode_loop_encode limit_defs)
qed

lemma query_pairs_render:
  "query_inv kvs \<Longrightarrow> \<forall>kv \<in> set kvs. fst kv \<noteq> [] \<Longrightarrow> query_pairs (render_pairs kvs) = kvs"
proof (induction kvs rule: render_pairs.induct)
  case 1
  show ?case by (simp add: query_pairs_def List.map_filter_def piece_pair_def decode_pair_def)
next
  case (2 k v)
  let ?e = "pct_encode k @ CHR ''='' # pct_encode v"
  have "CHR ''&'' \<notin> set ?e" using pct_encode_plain [of "CHR ''&''"] by auto
  then have "takeWhile (\<lambda>c. c \<noteq> CHR ''&'') ?e = ?e" and "dropWhile (\<lambda>c. c \<noteq> CHR ''&'') ?e = []"
    by (rule span_neq)+
  moreover have "piece_pair ?e = Some (k, v)"
    using "2.prems" by (intro piece_pair_encode) (auto simp: query_inv_def)
  ultimately show ?case by (subst query_pairs_step) simp
next
  case (3 k v kv kvs)
  let ?e = "pct_encode k @ CHR ''='' # pct_encode v"
  have "CHR ''&'' \<notin> set ?e" using pct_encode_plain [of "CHR ''&''"] by auto
  then have "takeWhile (\<lambda>c. c \<noteq> CHR ''&'') (?e @ CHR ''&'' # render_pairs (kv # kvs)) = ?e"
    and "dropWhile (\<lambda>c. c \<noteq> CHR ''&'') (?e @ CHR ''&'' # render_pairs (kv # kvs)) =
      CHR ''&'' # render_pairs (kv # kvs)"
    by (rule span_neq)+
  moreover have "piece_pair ?e = Some (k, v)"
    using "3.prems" by (intro piece_pair_encode) (auto simp: query_inv_def)
  moreover have "query_pairs (render_pairs (kv # kvs)) = kv # kvs"
    using "3.IH" "3.prems" by (simp add: query_inv_def)
  ultimately show ?case by (subst query_pairs_step) simp
qed

section \<open>Properties\<close>

text \<open>C33: the parser of query strings and urlencoded bodies keeps exactly the first sixteen
  well-formed pairs: split at \<^verbatim>\<open>&\<close>, each piece at its first \<^verbatim>\<open>=\<close>, both halves decoded within their
  limits, pieces with an empty key or a bad half left out.\<close>

theorem parse_query_refines: "parse_query (Some q) = take HTTP_MAX_QUERY (query_pairs q)"
  by (simp add: parse_query_def parse_query_loop_eq)

text \<open>Whatever the input, at most sixteen pairs are stored, keys stay below 32 and values below
  64 bytes including what percent-decoding produces, and no stored byte is a control character,
  so decoded text can neither cut a C string nor break a log line.\<close>

theorem parse_query_bounds: "query_inv (parse_query q)"
  by (rule parse_query_inv)

text \<open>Percent-encoding any sixteen pairs within the limits and parsing the text gives the pairs
  back, and each first key is found by \<^verbatim>\<open>http_req_query\<close>.\<close>

theorem query_roundtrip:
  assumes "query_inv kvs" and "\<forall>kv \<in> set kvs. fst kv \<noteq> []"
  shows "parse_query (Some (render_pairs kvs)) = kvs \<and>
    http_req_query (req\<lparr>req_query := parse_query (Some (render_pairs kvs))\<rparr>) (Some k) = map_of kvs k"
proof -
  have "parse_query (Some (render_pairs kvs)) = kvs"
    using query_pairs_render [OF assms] assms(1) parse_query_loop_eq [of "[]"]
    by (simp add: parse_query_def query_inv_def)
  then show ?thesis by (simp add: http_req_query_def lookup_first_eq_map_of)
qed

theorem query_roundtrip_witness:
  "parse_query (Some (render_pairs [(''q'', ''a b&c''), (''x'', [])])) = [(''q'', ''a b&c''), (''x'', [])]"
  using query_roundtrip [of "[(''q'', ''a b&c''), (''x'', [])]" empty_request "''q''"]
  by (simp add: query_inv_def limit_defs is_ctl_def)

end
