(* ===== verification/Json.thy ===== *)
theory Json
  imports Query
begin

text \<open>
  The JSON scanner behind \<^verbatim>\<open>http_req_json_string\<close>: skipping a value within the depth limit, decoding
  a string with its escapes, and the search for a member of the top-level object. A pointer is the
  rest of the body's C string. The lemmas show that rendered values within the depth limit are
  skipped exactly, that rendered strings decode to themselves, and that the search returns the
  first member with the key.
\<close>

section \<open>Strings\<close>

definition json_ws :: "char \<Rightarrow> bool" where
  "json_ws c \<longleftrightarrow> c = SP \<or> c = TAB \<or> c = LF \<or> c = CR"

definition json_skip_ws :: "string \<Rightarrow> string" where
  "json_skip_ws p = dropWhile json_ws p"

fun json_hex4_loop :: "nat \<Rightarrow> int \<Rightarrow> string \<Rightarrow> int" where
  "json_hex4_loop 0 v p = v"
| "json_hex4_loop (Suc i) v [] = - 1"
| "json_hex4_loop (Suc i) v (c # p) =
     (if hex_val c < 0 then - 1 else json_hex4_loop i (v * 16 + hex_val c) p)"

definition json_hex4 :: "string \<Rightarrow> int" where
  "json_hex4 p = json_hex4_loop 4 0 p"

text \<open>The bytes that are written, or \<^const>\<open>None\<close> for -1. The OR of disjoint bit fields is a sum.\<close>

definition json_utf8_encode :: "nat \<Rightarrow> nat \<Rightarrow> char list option" where
  "json_utf8_encode cp out_size =
     (if cp \<ge> 0xD800 \<and> cp \<le> 0xDFFF then None
      else if cp = 0 then None
      else if cp < 0x80 then (if out_size < 1 then None else Some [char_of cp])
      else if cp < 0x800 then
        (if out_size < 2 then None else Some [char_of (0xC0 + cp div 64), char_of (0x80 + cp mod 64)])
      else if out_size < 3 then None
      else Some [char_of (0xE0 + cp div 4096), char_of (0x80 + cp div 64 mod 64), char_of (0x80 + cp mod 64)])"

fun simple_escape :: "char \<Rightarrow> char option" where
  "simple_escape c =
     (if c = DQUOTE then Some DQUOTE
      else if c = BACKSLASH then Some BACKSLASH
      else if c = CHR ''/'' then Some (CHR ''/'')
      else if c = CHR ''b'' then Some (CHR 0x08)
      else if c = CHR ''f'' then Some (CHR 0x0C)
      else if c = CHR ''n'' then Some LF
      else if c = CHR ''r'' then Some CR
      else if c = CHR ''t'' then Some TAB
      else None)"

text \<open>
  \<open>pos\<close> is the write index \<^verbatim>\<open>o\<close>. The result is what is still to be written before the
  terminator, and the text after the closing quote.
\<close>

function json_decode_loop :: "string \<Rightarrow> nat \<Rightarrow> nat \<Rightarrow> (string \<times> string) option" where
  "json_decode_loop p pos out_size =
     (case p of
        [] \<Rightarrow> None
      | c # r \<Rightarrow>
          if c = DQUOTE then Some ([], r)
          else if byte c < 0x20 then None
          else if c \<noteq> BACKSLASH then
            (if pos + 1 \<ge> out_size then None
             else map_option (\<lambda>(t, e). (c # t, e)) (json_decode_loop r (pos + 1) out_size))
          else
            (case r of
               [] \<Rightarrow> None
             | e # q \<Rightarrow>
                 if e = CHR ''u'' then
                   (if json_hex4 q < 0 then None
                    else
                      (case json_utf8_encode (nat (json_hex4 q)) (out_size - pos) of
                         None \<Rightarrow> None
                       | Some bs \<Rightarrow>
                           map_option (\<lambda>(t, e). (bs @ t, e))
                             (json_decode_loop (drop 4 q) (pos + length bs) out_size)))
                 else
                   (case simple_escape e of
                      None \<Rightarrow> None
                    | Some ch \<Rightarrow>
                        if pos + 1 \<ge> out_size then None
                        else map_option (\<lambda>(t, e). (ch # t, e)) (json_decode_loop q (pos + 1) out_size))))"
  by pat_completeness auto
termination by (relation "measure (\<lambda>(p, pos, n). length p)") auto

declare json_decode_loop.simps [simp del] simple_escape.simps [simp del]

text \<open>The decoded bytes (without the terminator that follows them in \<^verbatim>\<open>out\<close>) and \<^verbatim>\<open>*end\<close>.\<close>

definition json_decode_string :: "string \<Rightarrow> nat \<Rightarrow> (string \<times> string) option" where
  "json_decode_string p out_size = (if out_size = 0 then None else json_decode_loop (tl p) 0 out_size)"

section \<open>Skipping a value\<close>

fun json_skip_string :: "string \<Rightarrow> string option" where
  "json_skip_string [] = None"
| "json_skip_string (c # r) =
     (if c = DQUOTE then Some r
      else if c = LF \<or> c = CR then None
      else if c = BACKSLASH then (case r of [] \<Rightarrow> None | _ # q \<Rightarrow> json_skip_string q)
      else json_skip_string r)"

definition number_char :: "char \<Rightarrow> bool" where
  "number_char c \<longleftrightarrow> is_digit c \<or> c \<in> set ''.eE+-''"

definition json_skip_scalar :: "string \<Rightarrow> string option" where
  "json_skip_scalar p =
     (if strneq p ''true'' 4 then Some (drop 4 p)
      else if strneq p ''false'' 5 then Some (drop 5 p)
      else if strneq p ''null'' 4 then Some (drop 4 p)
      else
        let q = (if p \<noteq> [] \<and> hd p = CHR ''-'' then tl p else p)
        in if q = [] \<or> \<not> is_digit (hd q) then None else Some (dropWhile number_char q))"

text \<open>
  The member and element loops, over the skip function of the next depth. Every round consumes
  input, so as many rounds as there are characters are enough (\<open>json_loops_enough\<close> below).
\<close>

fun json_members :: "(string \<Rightarrow> string option) \<Rightarrow> nat \<Rightarrow> string \<Rightarrow> string option" where
  "json_members skip 0 p = None"
| "json_members skip (Suc rounds) p =
     (if p = [] \<or> hd p \<noteq> DQUOTE then None
      else
        (case skip p of
           None \<Rightarrow> None
         | Some q \<Rightarrow>
             (case json_skip_ws q of
                [] \<Rightarrow> None
              | c # q1 \<Rightarrow>
                  if c \<noteq> CHR '':'' then None
                  else
                    (case skip (json_skip_ws q1) of
                       None \<Rightarrow> None
                     | Some r \<Rightarrow>
                         (case json_skip_ws r of
                            [] \<Rightarrow> None
                          | c # r1 \<Rightarrow>
                              if c = CHR '','' then json_members skip rounds (json_skip_ws r1)
                              else if c = CHR ''}'' then Some r1
                              else None)))))"

fun json_elements :: "(string \<Rightarrow> string option) \<Rightarrow> nat \<Rightarrow> string \<Rightarrow> string option" where
  "json_elements skip 0 p = None"
| "json_elements skip (Suc rounds) p =
     (case skip p of
        None \<Rightarrow> None
      | Some r \<Rightarrow>
          (case json_skip_ws r of
             [] \<Rightarrow> None
           | c # r1 \<Rightarrow>
               if c = CHR '','' then json_elements skip rounds (json_skip_ws r1)
               else if c = CHR '']'' then Some r1
               else None))"

text \<open>The first argument is the C \<^verbatim>\<open>depth\<close> plus one: 0 stands for a negative depth.\<close>

fun json_skip_value :: "nat \<Rightarrow> string \<Rightarrow> string option" where
  "json_skip_value 0 p = None"
| "json_skip_value (Suc d) p =
     (case p of
        [] \<Rightarrow> json_skip_scalar []
      | c # r \<Rightarrow>
          if c = DQUOTE then json_skip_string r
          else if c = CHR ''{'' then
            (let q = json_skip_ws r
             in if q \<noteq> [] \<and> hd q = CHR ''}'' then Some (tl q)
                else json_members (json_skip_value d) (Suc (length q)) q)
          else if c = CHR ''['' then
            (let q = json_skip_ws r
             in if q \<noteq> [] \<and> hd q = CHR '']'' then Some (tl q)
                else json_elements (json_skip_value d) (Suc (length q)) q)
          else json_skip_scalar p)"

declare json_skip_value.simps(2) [simp del]

section \<open>Skipping consumes input\<close>

lemma json_skip_ws_length: "length (json_skip_ws p) \<le> length p"
  by (simp add: json_skip_ws_def length_dropWhile_le)

lemma json_skip_ws_Cons_length: "json_skip_ws r = c # r1 \<Longrightarrow> length r1 < length r"
  using json_skip_ws_length [of r] by auto

lemma json_skip_string_shorter: "json_skip_string p = Some q \<Longrightarrow> length q < length p"
proof (induction p rule: json_skip_string.induct)
  case (2 c r)
  then show ?case by (fastforce split: if_splits list.splits)
qed simp

lemma json_skip_scalar_shorter: "json_skip_scalar p = Some q \<Longrightarrow> length q < length p"
proof -
  assume a: "json_skip_scalar p = Some q"
  have lit: "n = length l \<Longrightarrow> strneq p l n \<Longrightarrow> n \<le> length p" for n l
    by (simp add: strneq_def) (metis length_take min_def nle_le)
  have num: "u \<noteq> [] \<Longrightarrow> is_digit (hd u) \<Longrightarrow> length (dropWhile number_char u) < length u" for u
    using length_dropWhile_le [of number_char "tl u"] by (cases u) (auto simp: number_char_def)
  show ?thesis
    using a lit [of 4 "''true''"] lit [of 5 "''false''"] lit [of 4 "''null''"]
      num [of "if p \<noteq> [] \<and> hd p = CHR ''-'' then tl p else p"]
    by (cases p) (auto simp: json_skip_scalar_def Let_def split: if_splits)
qed

lemma json_loops_shorter:
  assumes "\<And>p q. skip p = Some q \<Longrightarrow> length q < length p"
  shows "json_members skip n p = Some q \<Longrightarrow> length q < length p"
    and "json_elements skip n p = Some q \<Longrightarrow> length q < length p"
proof -
  show "json_members skip n p = Some q \<Longrightarrow> length q < length p"
  proof (induction n arbitrary: p)
    case (Suc n)
    then obtain q0 c q1 r d r1 where s: "skip p = Some q0" "json_skip_ws q0 = c # q1"
      "skip (json_skip_ws q1) = Some r" "json_skip_ws r = d # r1"
      and alt: "json_members skip n (json_skip_ws r1) = Some q \<or> q = r1"
      by (auto split: if_splits option.splits list.splits)
    have "length r1 < length p"
      using assms [OF s(1)] json_skip_ws_Cons_length [OF s(2)] assms [OF s(3)] json_skip_ws_length [of q1]
        json_skip_ws_Cons_length [OF s(4)] by linarith
    with alt Suc.IH [of "json_skip_ws r1"] json_skip_ws_length [of r1] show ?case by fastforce
  qed simp
  show "json_elements skip n p = Some q \<Longrightarrow> length q < length p"
  proof (induction n arbitrary: p)
    case (Suc n)
    then obtain r d r1 where s: "skip p = Some r" "json_skip_ws r = d # r1"
      and alt: "json_elements skip n (json_skip_ws r1) = Some q \<or> q = r1"
      by (auto split: if_splits option.splits list.splits)
    have "length r1 < length p" using assms [OF s(1)] json_skip_ws_Cons_length [OF s(2)] by linarith
    with alt Suc.IH [of "json_skip_ws r1"] json_skip_ws_length [of r1] show ?case by fastforce
  qed simp
qed

lemma json_skip_value_shorter: "json_skip_value d p = Some q \<Longrightarrow> length q < length p"
proof (induction d arbitrary: p q)
  case (Suc d)
  note loops = json_loops_shorter [of "json_skip_value d", OF Suc.IH]
  show ?case
  proof (cases p)
    case Nil
    then show ?thesis using Suc.prems json_skip_scalar_shorter [of "[]"] by (simp add: json_skip_value.simps)
  next
    case (Cons c r)
    have "length (json_skip_ws r) \<le> length r" by (rule json_skip_ws_length)
    moreover have "length (tl (json_skip_ws r)) \<le> length (json_skip_ws r)" by simp
    ultimately show ?thesis
      using Suc.prems Cons json_skip_string_shorter [of r q] json_skip_scalar_shorter [of p q]
        loops(1) [of "Suc (length (json_skip_ws r))" "json_skip_ws r" q]
        loops(2) [of "Suc (length (json_skip_ws r))" "json_skip_ws r" q]
      by (fastforce simp: json_skip_value.simps Let_def split: if_splits)
  qed
qed simp

text \<open>More rounds than characters change nothing: the loops of the source end by themselves.\<close>

lemma json_loops_enough:
  assumes "\<And>p q. skip p = Some q \<Longrightarrow> length q < length p"
  shows "length p < n \<Longrightarrow> json_members skip (n + k) p = json_members skip n p"
    and "length p < n \<Longrightarrow> json_elements skip (n + k) p = json_elements skip n p"
proof -
  show "length p < n \<Longrightarrow> json_members skip (n + k) p = json_members skip n p"
  proof (induction n arbitrary: p)
    case (Suc n)
    have "json_members skip (n + k) (json_skip_ws r1) = json_members skip n (json_skip_ws r1)"
      if "skip p = Some q0" "json_skip_ws q0 = c # q1" "skip (json_skip_ws q1) = Some r" "json_skip_ws r = d # r1"
      for q0 c q1 r d r1
    proof -
      have "length (json_skip_ws r1) < n"
        using assms [OF that(1)] json_skip_ws_Cons_length [OF that(2)] assms [OF that(3)]
          json_skip_ws_length [of q1] json_skip_ws_Cons_length [OF that(4)] json_skip_ws_length [of r1] Suc.prems
        by linarith
      then show ?thesis by (rule Suc.IH)
    qed
    then show ?case by (simp split: option.split list.split)
  qed simp
  show "length p < n \<Longrightarrow> json_elements skip (n + k) p = json_elements skip n p"
  proof (induction n arbitrary: p)
    case (Suc n)
    have "json_elements skip (n + k) (json_skip_ws r1) = json_elements skip n (json_skip_ws r1)"
      if "skip p = Some r" "json_skip_ws r = d # r1" for r d r1
    proof -
      have "length (json_skip_ws r1) < n"
        using assms [OF that(1)] json_skip_ws_Cons_length [OF that(2)] json_skip_ws_length [of r1] Suc.prems
        by linarith
      then show ?thesis by (rule Suc.IH)
    qed
    then show ?case by (simp split: option.split list.split)
  qed simp
qed

section \<open>The member search\<close>

function json_find_member :: "string \<Rightarrow> string \<Rightarrow> nat \<Rightarrow> string option" where
  "json_find_member p key out_size =
     (case p of
        [] \<Rightarrow> None
      | c # r \<Rightarrow>
          if c \<noteq> DQUOTE then None
          else
            let k = takeWhile (\<lambda>c. c \<noteq> DQUOTE \<and> c \<noteq> BACKSLASH) r;
                kend = dropWhile (\<lambda>c. c \<noteq> DQUOTE \<and> c \<noteq> BACKSLASH) r
            in if kend = [] \<or> hd kend \<noteq> DQUOTE then None
               else
                 (case json_skip_ws (tl kend) of
                    [] \<Rightarrow> None
                  | c # v \<Rightarrow>
                      if c \<noteq> CHR '':'' then None
                      else if k = key then
                        (if json_skip_ws v = [] \<or> hd (json_skip_ws v) \<noteq> DQUOTE then None
                         else map_option fst (json_decode_string (json_skip_ws v) out_size))
                      else
                        (case json_skip_value 33 (json_skip_ws v) of
                           None \<Rightarrow> None
                         | Some q \<Rightarrow>
                             (case json_skip_ws q of
                                [] \<Rightarrow> None
                              | c # q1 \<Rightarrow>
                                  if c = CHR '','' then json_find_member (json_skip_ws q1) key out_size
                                  else None))))"
  by pat_completeness auto
termination
proof (relation "measure (\<lambda>(p, key, n). length p)", goal_cases)
  case (2 p key out_size c r k kend c' v q c'' q1)
  have "length (tl kend) \<le> length r"
    using length_dropWhile_le [of "\<lambda>c. c \<noteq> DQUOTE \<and> c \<noteq> BACKSLASH" r] 2(4) by simp
  moreover have "length v < length (tl kend)" using json_skip_ws_Cons_length 2(6) by metis
  moreover have "length q < length (json_skip_ws v)" using json_skip_value_shorter 2(9) by metis
  moreover have "length q1 < length q" using json_skip_ws_Cons_length 2(10) by metis
  ultimately have "length (json_skip_ws q1) < length p"
    using json_skip_ws_length [of v] json_skip_ws_length [of q1] 2(1) by simp
  then show ?case by simp
qed simp

declare json_find_member.simps [simp del]

text \<open>The bytes written to \<^verbatim>\<open>out\<close> before the terminator; \<^const>\<open>None\<close> for -1.\<close>

definition http_req_json_string :: "HttpRequest \<Rightarrow> string option \<Rightarrow> nat \<Rightarrow> string option" where
  "http_req_json_string req key out_size =
     (case (key, req_body req) of
        (Some k, Some body) \<Rightarrow>
          if out_size = 0 \<or> req_body_len req = 0 then None
          else
            (case json_skip_ws (cstr body) of
               [] \<Rightarrow> None
             | c # r \<Rightarrow>
                 if c \<noteq> CHR ''{'' then None
                 else
                   let p = json_skip_ws r
                   in if p \<noteq> [] \<and> hd p = CHR ''}'' then None
                      else json_find_member p k out_size)
      | _ \<Rightarrow> None)"

section \<open>Rendering\<close>

text \<open>A reference printer: the JSON text of a value without optional white space.\<close>

definition json_escape :: "char \<Rightarrow> string" where
  "json_escape c =
     (if c = DQUOTE \<or> c = BACKSLASH then [BACKSLASH, c]
      else if byte c < 0x20 then [BACKSLASH, CHR ''u'', CHR ''0'', CHR ''0'', hex_digit (byte c div 16), hex_digit (byte c mod 16)]
      else [c])"

definition json_quote :: "string \<Rightarrow> string" where
  "json_quote s = DQUOTE # concat (map json_escape s) @ [DQUOTE]"

datatype json =
  JNull | JTrue | JFalse | JNum string | JStr string | JArr "json list" | JObj "(string \<times> json) list"

fun comma_sep :: "string list \<Rightarrow> string" where
  "comma_sep [] = []"
| "comma_sep [x] = x"
| "comma_sep (x # xs) = x @ CHR '','' # comma_sep xs"

fun render_json :: "json \<Rightarrow> string" where
  "render_json JNull = ''null''"
| "render_json JTrue = ''true''"
| "render_json JFalse = ''false''"
| "render_json (JNum t) = t"
| "render_json (JStr s) = json_quote s"
| "render_json (JArr vs) = CHR ''['' # comma_sep (map render_json vs) @ '']''"
| "render_json (JObj kvs) =
     CHR ''{'' # comma_sep (map (\<lambda>(k, v). json_quote k @ CHR '':'' # render_json v) kvs) @ ''}''"

fun json_depth :: "json \<Rightarrow> nat" where
  "json_depth (JArr vs) = Suc (foldr max (map json_depth vs) 0)"
| "json_depth (JObj kvs) = Suc (foldr max (map (\<lambda>(k, v). json_depth v) kvs) 0)"
| "json_depth _ = 1"

definition number_token :: "string \<Rightarrow> bool" where
  "number_token t \<longleftrightarrow>
     (let q = (if t \<noteq> [] \<and> hd t = CHR ''-'' then tl t else t)
      in q \<noteq> [] \<and> is_digit (hd q) \<and> list_all number_char q)"

fun json_ok :: "json \<Rightarrow> bool" where
  "json_ok (JNum t) \<longleftrightarrow> number_token t"
| "json_ok (JStr s) \<longleftrightarrow> is_cstr s"
| "json_ok (JArr vs) \<longleftrightarrow> list_all json_ok vs"
| "json_ok (JObj kvs) \<longleftrightarrow> list_all (\<lambda>(k, v). is_cstr k \<and> json_ok v) kvs"
| "json_ok _ \<longleftrightarrow> True"

lemma json_depth_pos: "0 < json_depth v"
  by (cases v) auto

lemma foldr_max_le: "foldr max xs 0 \<le> d \<longleftrightarrow> (\<forall>x \<in> set xs. x \<le> (d::nat))"
  by (induction xs) auto

section \<open>Strings decode to themselves\<close>

lemma hex_digit_plain_json: "k < 16 \<Longrightarrow> hex_digit k \<noteq> DQUOTE \<and> hex_digit k \<noteq> BACKSLASH \<and> hex_digit k \<noteq> LF \<and> hex_digit k \<noteq> CR"
  by (auto simp: hex_digit_def)

lemma json_hex4_digits:
  assumes "0 \<le> hex_val a" "0 \<le> hex_val b" "0 \<le> hex_val c" "0 \<le> hex_val d"
  shows "json_hex4 (a # b # c # d # r) = ((hex_val a * 16 + hex_val b) * 16 + hex_val c) * 16 + hex_val d"
proof -
  have four: "(4::nat) = Suc (Suc (Suc (Suc 0)))" by simp
  show ?thesis unfolding json_hex4_def four using assms by simp
qed

lemma json_hex4_byte:
  "json_hex4 (CHR ''0'' # CHR ''0'' # hex_digit (byte c div 16) # hex_digit (byte c mod 16) # r) = int (byte c)"
proof -
  have z: "hex_val (CHR ''0'') = 0" by (simp add: hex_val_def)
  have "int (byte c div 16) * 16 + int (byte c mod 16) = int (byte c)"
    by (metis div_mult_mod_eq of_nat_add of_nat_mult of_nat_numeral)
  then show ?thesis by (subst json_hex4_digits) (simp_all add: z hex_val_hex_digit)
qed

lemma json_decode_escape:
  assumes "c \<noteq> NUL" and "pos + 1 < n"
  shows "json_decode_loop (json_escape c @ r) pos n =
     map_option (\<lambda>(t, e). (c # t, e)) (json_decode_loop r (pos + 1) n)"
proof -
  consider "c = DQUOTE" | "c = BACKSLASH" | "byte c < 0x20" "c \<noteq> DQUOTE" "c \<noteq> BACKSLASH"
    | "\<not> byte c < 0x20" "c \<noteq> DQUOTE" "c \<noteq> BACKSLASH" by fastforce
  then show ?thesis
  proof cases
    case 1
    then show ?thesis using assms(2)
      by (simp add: json_escape_def json_decode_loop.simps [of "BACKSLASH # _"] simple_escape.simps)
  next
    case 2
    then show ?thesis using assms(2)
      by (simp add: json_escape_def json_decode_loop.simps [of "BACKSLASH # _"] simple_escape.simps)
  next
    case 3
    let ?q = "CHR ''0'' # CHR ''0'' # hex_digit (byte c div 16) # hex_digit (byte c mod 16) # r"
    have h: "json_hex4 ?q = int (byte c)" by (rule json_hex4_byte)
    have nz: "byte c \<noteq> 0"
    proof
      assume "byte c = 0"
      then have "byte c = byte NUL" by simp
      then show False using assms(1) by (simp only: byte_inject)
    qed
    then have u: "json_utf8_encode (byte c) (n - pos) = Some [c]"
      using 3(1) assms(2) by (simp add: json_utf8_encode_def)
    show ?thesis using 3 h u
      by (simp add: json_escape_def json_decode_loop.simps [of "BACKSLASH # _"])
  next
    case 4
    then show ?thesis using assms(2)
      by (simp add: json_escape_def json_decode_loop.simps [of "c # _"])
  qed
qed

lemma json_decode_render:
  "is_cstr s \<Longrightarrow> pos + length s < n \<Longrightarrow>
     json_decode_loop (concat (map json_escape s) @ DQUOTE # r) pos n = Some (s, r)"
proof (induction s arbitrary: pos)
  case Nil
  then show ?case by (simp add: json_decode_loop.simps [of "DQUOTE # r"])
next
  case (Cons c s)
  then show ?case by (simp add: json_decode_escape)
qed

section \<open>Values are skipped exactly\<close>

lemma json_skip_string_escape: "json_skip_string (json_escape c @ r) = json_skip_string r"
proof -
  have "byte c < 0x20 \<Longrightarrow> byte c div 16 < 16" "byte c mod 16 < 16" by simp_all
  note hd = hex_digit_plain_json [of "byte c div 16"] hex_digit_plain_json [of "byte c mod 16"]
  have "\<not> byte c < 0x20 \<Longrightarrow> c \<noteq> LF \<and> c \<noteq> CR" by auto
  with hd show ?thesis by (simp add: json_escape_def)
qed

lemma json_skip_string_render: "json_skip_string (concat (map json_escape s) @ DQUOTE # r) = Some r"
  by (induction s) (simp_all add: json_skip_string_escape)

lemma json_skip_value_quote [simp]: "json_skip_value (Suc d) (json_quote s @ r) = Some r"
  by (simp add: json_skip_value.simps json_quote_def json_skip_string_render)

lemma json_skip_ws_id: "c \<noteq> SP \<Longrightarrow> c \<noteq> TAB \<Longrightarrow> c \<noteq> LF \<Longrightarrow> c \<noteq> CR \<Longrightarrow> json_skip_ws (c # r) = c # r"
  by (simp add: json_skip_ws_def json_ws_def)

lemma number_first:
  assumes "number_token t"
  obtains c q where "t = c # q" "c = CHR ''-'' \<or> is_digit c"
  using assms by (cases t) (auto simp: number_token_def Let_def split: if_splits)

lemma json_render_starts:
  assumes "json_ok v"
  obtains c q where "render_json v = c # q" and "\<not> json_ws c" and "c \<noteq> CHR ''}''" and "c \<noteq> CHR '']''"
proof (cases v)
  case (JNum t)
  with assms obtain c q where "t = c # q" "c = CHR ''-'' \<or> is_digit c"
    using number_first by auto
  moreover from this(2) have "\<not> json_ws c" "c \<noteq> CHR ''}''" "c \<noteq> CHR '']''"
    by (auto simp: json_ws_def is_digit_def)
  ultimately show ?thesis using that [of c q] JNum by simp
qed (use that in \<open>auto simp: json_ws_def json_quote_def\<close>)

lemma json_skip_ws_render: "json_ok v \<Longrightarrow> json_skip_ws (render_json v @ r) = render_json v @ r"
  by (erule json_render_starts) (simp add: json_skip_ws_def)

lemma json_skip_number:
  assumes "number_token t" and "r = [] \<or> \<not> number_char (hd r)"
  shows "json_skip_value (Suc d) (t @ r) = Some r"
proof -
  obtain c q where t: "t = c # q" "c = CHR ''-'' \<or> is_digit c" using number_first assms(1) by blast
  have c: "c \<noteq> DQUOTE" "c \<noteq> CHR ''{''" "c \<noteq> CHR ''[''" "c \<noteq> CHR ''t''" "c \<noteq> CHR ''f''" "c \<noteq> CHR ''n''"
    using t(2) by (auto simp: is_digit_def)
  define u where "u = (if c = CHR ''-'' then q else t)"
  have u: "u \<noteq> []" "is_digit (hd u)" "list_all number_char u"
    using assms(1) t(1) by (auto simp: number_token_def u_def Let_def split: if_splits)
  have "dropWhile number_char (u @ r) = r"
    using u(3) assms(2) by (cases r) (auto simp: dropWhile_append list_all_iff dropWhile_eq_Nil_conv)
  moreover have "(if t @ r \<noteq> [] \<and> hd (t @ r) = CHR ''-'' then tl (t @ r) else t @ r) = u @ r"
    using t(1) by (simp add: u_def)
  moreover have "\<not> strneq (t @ r) ''true'' 4" "\<not> strneq (t @ r) ''false'' 5" "\<not> strneq (t @ r) ''null'' 4"
    using c t(1) by (simp_all add: strneq_def)
  ultimately have "json_skip_scalar (t @ r) = Some r"
    using u by (simp add: json_skip_scalar_def Let_def)
  then show ?thesis using c t(1) by (simp add: json_skip_value.simps)
qed

lemma json_elements_render:
  assumes "\<And>v r. v \<in> set vs \<Longrightarrow> r \<noteq> [] \<Longrightarrow> hd r = CHR '','' \<or> hd r = CHR '']'' \<Longrightarrow>
      skip (render_json v @ r) = Some r"
    and "vs \<noteq> []" and "list_all json_ok vs" and "length vs \<le> n"
  shows "json_elements skip n (comma_sep (map render_json vs) @ CHR '']'' # r) = Some r"
  using assms
proof (induction vs arbitrary: n)
  case (Cons v vs)
  then obtain m where n: "n = Suc m" by (cases n) auto
  show ?case
  proof (cases vs)
    case Nil
    have "skip (render_json v @ CHR '']'' # r) = Some (CHR '']'' # r)" using Cons.prems(1) by simp
    then show ?thesis using Nil n by (simp add: json_skip_ws_id)
  next
    case (Cons w ws)
    define rest where "rest = comma_sep (map render_json vs) @ CHR '']'' # r"
    have "skip (render_json v @ CHR '','' # rest) = Some (CHR '','' # rest)" using Cons.prems(1) by simp
    moreover have "json_skip_ws rest = rest"
      using Cons Cons.prems(3) json_skip_ws_render [of w] by (cases ws) (simp_all add: rest_def)
    moreover have "json_elements skip m rest = Some r"
      using Cons.IH [of m] Cons.prems Cons n by (simp add: rest_def)
    ultimately show ?thesis using Cons n by (simp add: json_skip_ws_id rest_def)
  qed
qed simp

definition render_member :: "string \<times> json \<Rightarrow> string" where
  "render_member kv = json_quote (fst kv) @ CHR '':'' # render_json (snd kv)"

lemma render_JObj: "render_json (JObj kvs) = CHR ''{'' # comma_sep (map render_member kvs) @ ''}''"
proof -
  have "(\<lambda>(k, v). json_quote k @ CHR '':'' # render_json v) = render_member"
    by (auto simp: render_member_def fun_eq_iff)
  then show ?thesis by simp
qed

lemma json_quote_starts: "json_quote s @ r = DQUOTE # concat (map json_escape s) @ DQUOTE # r"
  by (simp add: json_quote_def)

lemma json_members_render:
  assumes "\<And>k v r. (k, v) \<in> set kvs \<Longrightarrow> r \<noteq> [] \<Longrightarrow> hd r = CHR '','' \<or> hd r = CHR ''}'' \<Longrightarrow>
      skip (render_json v @ r) = Some r"
    and "\<And>k r. skip (json_quote k @ r) = Some r"
    and "kvs \<noteq> []" and "\<forall>(k, v) \<in> set kvs. json_ok v" and "length kvs \<le> n"
  shows "json_members skip n (comma_sep (map render_member kvs) @ CHR ''}'' # r) = Some r"
  using assms(1,3-5)
proof (induction kvs arbitrary: n)
  case (Cons kv kvs)
  then obtain m where n: "n = Suc m" by (cases n) auto
  obtain k v where kv: "kv = (k, v)" by (cases kv)
  have ok: "json_ok v" using Cons.prems(3) kv by simp
  have step: "json_members skip (Suc m) (render_member (k, v) @ c # rest) =
      (if c = CHR '','' then json_members skip m (json_skip_ws rest) else Some rest)"
    if c: "c = CHR '','' \<or> c = CHR ''}''" for c rest
  proof -
    have "skip (json_quote k @ CHR '':'' # render_json v @ c # rest) = Some (CHR '':'' # render_json v @ c # rest)"
      by (rule assms(2))
    moreover have "skip (render_json v @ c # rest) = Some (c # rest)"
      using Cons.prems(1) [of k v "c # rest"] kv c by simp
    moreover have "json_skip_ws (render_json v @ c # rest) = render_json v @ c # rest"
      using json_skip_ws_render [OF ok] by simp
    ultimately show ?thesis
      using c by (auto simp: render_member_def json_skip_ws_id json_quote_starts)
  qed
  show ?case
  proof (cases kvs)
    case Nil
    then show ?thesis using step [of "CHR ''}''" r] kv n by simp
  next
    case (Cons w ws)
    define rest where "rest = comma_sep (map render_member kvs) @ CHR ''}'' # r"
    have "json_skip_ws rest = rest"
      using Cons by (cases ws) (simp_all add: rest_def render_member_def json_quote_starts json_skip_ws_id)
    moreover have "json_members skip m rest = Some r"
      unfolding rest_def
    proof (rule Cons.IH)
      show "skip (render_json v @ r) = Some r"
        if "(k, v) \<in> set kvs" "r \<noteq> []" "hd r = CHR '','' \<or> hd r = CHR ''}''" for k v r
        using Cons.prems(1) [of k v r] that by simp
    qed (use Cons.prems Cons n in simp_all)
    ultimately show ?thesis using step [of "CHR '',''" rest] Cons kv n by (simp add: rest_def)
  qed
qed simp

lemma comma_sep_length: "\<forall>x \<in> set xs. x \<noteq> [] \<Longrightarrow> length xs \<le> length (comma_sep xs)"
proof (induction xs rule: comma_sep.induct)
  case (2 x)
  then show ?case by (cases x) auto
next
  case (3 x y xs)
  then show ?case by simp
qed simp

lemma comma_sep_hd: "xs \<noteq> [] \<Longrightarrow> hd xs \<noteq> [] \<Longrightarrow> comma_sep xs \<noteq> [] \<and> hd (comma_sep xs) = hd (hd xs)"
  by (induction xs rule: comma_sep.induct) auto

lemma json_skip_value_render:
  "json_ok v \<Longrightarrow> json_depth v \<le> d \<Longrightarrow> r = [] \<or> \<not> number_char (hd r) \<Longrightarrow>
     json_skip_value d (render_json v @ r) = Some r"
proof (induction d arbitrary: v r)
  case 0
  then show ?case using json_depth_pos [of v] by simp
next
  case (Suc d)
  have sep: "\<not> number_char (CHR '','')" "\<not> number_char (CHR '']'')" "\<not> number_char (CHR ''}'')"
    by (simp_all add: number_char_def is_digit_def)
  show ?case
  proof (cases v)
    case (JNum t)
    then show ?thesis using Suc.prems json_skip_number by simp
  next
    case (JArr vs)
    show ?thesis
    proof (cases vs)
      case Nil
      then show ?thesis using JArr by (simp add: json_skip_value.simps json_skip_ws_id)
    next
      case (Cons w ws)
      define q where "q = comma_sep (map render_json vs) @ CHR '']'' # r"
      have ok: "list_all json_ok vs" and dep: "\<forall>v \<in> set vs. json_depth v \<le> d"
        using Suc.prems JArr by (auto simp: foldr_max_le)
      obtain c t where w: "render_json w = c # t" "\<not> json_ws c" "c \<noteq> CHR '']''"
        using json_render_starts ok Cons by (metis list.pred_inject(2))
      have q: "q \<noteq> []" "hd q = c" "json_skip_ws q = q"
        using comma_sep_hd [of "map render_json vs"] w Cons by (auto simp: q_def json_skip_ws_def intro!: dropWhile_eq_self_iff [THEN iffD2])
      have "render_json v \<noteq> []" if "v \<in> set vs" for v
        using json_render_starts [of v] ok that by (metis list.distinct(1) list_all_iff)
      then have ne: "\<forall>x \<in> set (map render_json vs). x \<noteq> []" by simp
      have "json_elements (json_skip_value d) (Suc (length q)) q = Some r"
        unfolding q_def
      proof (rule json_elements_render)
        show "length vs \<le> Suc (length (comma_sep (map render_json vs) @ CHR '']'' # r))"
          using comma_sep_length [OF ne] by simp
        show "json_skip_value d (render_json v @ r') = Some r'"
          if "v \<in> set vs" "r' \<noteq> []" "hd r' = CHR '','' \<or> hd r' = CHR '']''" for v r'
          using Suc.IH [of v r'] that ok dep sep by (auto simp: list_all_iff)
      qed (use ok Cons in simp_all)
      then show ?thesis using JArr q w by (simp add: json_skip_value.simps q_def [symmetric])
    qed
  next
    case (JObj kvs)
    show ?thesis
    proof (cases kvs)
      case Nil
      then show ?thesis using JObj by (simp add: json_skip_value.simps json_skip_ws_id)
    next
      case (Cons w ws)
      define q where "q = comma_sep (map render_member kvs) @ CHR ''}'' # r"
      have ok: "\<forall>(k, v) \<in> set kvs. json_ok v" and dep: "\<forall>(k, v) \<in> set kvs. json_depth v \<le> d"
        using Suc.prems JObj by (auto simp: foldr_max_le list_all_iff)
      have d: "0 < d" using dep Cons json_depth_pos [of "snd w"] by (cases w) auto
      then obtain e where e: "d = Suc e" by (cases d) auto
      have q: "q \<noteq> []" "hd q = DQUOTE"
        using comma_sep_hd [of "map render_member kvs"] Cons by (auto simp: q_def render_member_def json_quote_def)
      then have ws: "json_skip_ws q = q" by (cases q) (simp_all add: json_skip_ws_id)
      have ne: "\<forall>x \<in> set (map render_member kvs). x \<noteq> []" by (simp add: render_member_def json_quote_def)
      have "json_members (json_skip_value d) (Suc (length q)) q = Some r"
        unfolding q_def
      proof (rule json_members_render)
        show "length kvs \<le> Suc (length (comma_sep (map render_member kvs) @ CHR ''}'' # r))"
          using comma_sep_length [OF ne] by simp
        show "json_skip_value d (json_quote k @ r') = Some r'" for k r' using e by simp
        show "json_skip_value d (render_json v @ r') = Some r'"
          if "(k, v) \<in> set kvs" "r' \<noteq> []" "hd r' = CHR '','' \<or> hd r' = CHR ''}''" for k v r'
          using Suc.IH [of v r'] bspec [OF ok that(1)] bspec [OF dep that(1)] that(2,3) sep by auto
      qed (use ok Cons in simp_all)
      then show ?thesis
        using q ws unfolding JObj render_JObj by (simp add: json_skip_value.simps q_def [symmetric])
    qed
  qed (simp_all add: json_skip_value.simps json_skip_scalar_def strneq_def json_quote_def json_skip_string_render)
qed

section \<open>The member search finds the first member\<close>

definition plain_key :: "string \<Rightarrow> bool" where
  "plain_key k \<longleftrightarrow> (\<forall>c \<in> set k. 0x20 \<le> byte c \<and> c \<noteq> DQUOTE \<and> c \<noteq> BACKSLASH)"

lemma plain_key_quote: "plain_key k \<Longrightarrow> json_quote k = DQUOTE # k @ [DQUOTE]"
proof -
  assume "plain_key k"
  then have "concat (map json_escape k) = k"
    by (induction k) (auto simp: plain_key_def json_escape_def)
  then show ?thesis by (simp add: json_quote_def)
qed

lemma json_find_member_step:
  assumes "plain_key k" and "json_ok v"
  shows "json_find_member (render_member (k, v) @ r) key n =
     (if k = key then
        (if hd (render_json v) \<noteq> DQUOTE then None
         else map_option fst (json_decode_string (render_json v @ r) n))
      else
        (case json_skip_value 33 (render_json v @ r) of
           None \<Rightarrow> None
         | Some q \<Rightarrow>
             (case json_skip_ws q of
                [] \<Rightarrow> None
              | c # q1 \<Rightarrow> if c = CHR '','' then json_find_member (json_skip_ws q1) key n else None)))"
proof -
  let ?P = "\<lambda>c. c \<noteq> DQUOTE \<and> c \<noteq> BACKSLASH"
  have tk: "takeWhile ?P (k @ DQUOTE # t) = k" "dropWhile ?P (k @ DQUOTE # t) = DQUOTE # t" for t
    using assms(1) by (induction k) (auto simp: plain_key_def)
  obtain c t where v: "render_json v = c # t" "\<not> json_ws c" using json_render_starts [OF assms(2)] by metis
  have p: "render_member (k, v) @ r = DQUOTE # k @ DQUOTE # CHR '':'' # render_json v @ r"
    using plain_key_quote [OF assms(1)] by (simp add: render_member_def)
  have ws: "json_skip_ws (c # t @ r) = c # t @ r" using v(2) by (simp add: json_skip_ws_def)
  show ?thesis
    unfolding p by (subst json_find_member.simps) (simp add: tk json_skip_ws_id ws v(1) Let_def)
qed

lemma json_find_member_render:
  assumes "kvs \<noteq> []" and "\<forall>(k, v) \<in> set kvs. plain_key k \<and> json_ok v \<and> json_depth v \<le> 33"
    and "\<forall>s. map_of kvs key = Some (JStr s) \<longrightarrow> length s < n"
  shows "json_find_member (comma_sep (map render_member kvs) @ CHR ''}'' # r) key n =
     (case map_of kvs key of Some (JStr s) \<Rightarrow> Some s | _ \<Rightarrow> None)"
  using assms
proof (induction kvs)
  case (Cons kv kvs)
  obtain k v where kv: "kv = (k, v)" by (cases kv)
  have kvok: "plain_key k" "json_ok v" "json_depth v \<le> 33" using Cons.prems(2) kv by auto
  obtain c rest where rest: "comma_sep (map render_member (kv # kvs)) @ CHR ''}'' # r = render_member (k, v) @ c # rest"
    and c: "(c = CHR ''}'' \<and> kvs = []) \<or>
      (c = CHR '','' \<and> kvs \<noteq> [] \<and> rest = comma_sep (map render_member kvs) @ CHR ''}'' # r)"
    using kv by (cases kvs) auto
  note step = json_find_member_step [OF kvok(1,2), of "c # rest" key n]
  show ?case
  proof (cases "k = key")
    case True
    show ?thesis
    proof (cases "\<exists>s. v = JStr s")
      case True
      then obtain s where s: "v = JStr s" by blast
      have n: "length s < n" "is_cstr s" using Cons.prems(3) kvok(2) kv s \<open>k = key\<close> by auto
      have "json_decode_string (json_quote s @ c # rest) n = Some (s, c # rest)"
        using json_decode_render [OF n(2), of 0 n "c # rest"] n(1) by (simp add: json_decode_string_def json_quote_def)
      then show ?thesis using step rest kv s \<open>k = key\<close> by (simp add: json_quote_def)
    next
      case False
      have "hd (render_json v) \<noteq> DQUOTE"
      proof (cases v)
        case (JNum t)
        then obtain d u where "t = d # u" "d = CHR ''-'' \<or> is_digit d" using number_first kvok(2) by auto
        then show ?thesis using JNum by (auto simp: is_digit_def)
      qed (use False in simp_all)
      then show ?thesis using step rest kv True False by (simp split: json.split)
    qed
  next
    case False
    have "\<not> number_char c" using c by (auto simp: number_char_def is_digit_def)
    then have sk: "json_skip_value 33 (render_json v @ c # rest) = Some (c # rest)"
      using json_skip_value_render [OF kvok(2,3), of "c # rest"] by simp
    have ws: "json_skip_ws (c # rest) = c # rest" using c by (auto simp: json_skip_ws_id)
    have find: "json_find_member (comma_sep (map render_member (kv # kvs)) @ CHR ''}'' # r) key n =
        (if c = CHR '','' then json_find_member (json_skip_ws rest) key n else None)"
      using step rest False sk ws by simp
    from c show ?thesis
    proof (elim disjE conjE)
      assume "c = CHR ''}''" "kvs = []"
      then show ?thesis using find kv False by simp
    next
      assume k: "c = CHR '',''" "kvs \<noteq> []" "rest = comma_sep (map render_member kvs) @ CHR ''}'' # r"
      have "comma_sep (map render_member kvs) \<noteq> [] \<and> hd (comma_sep (map render_member kvs)) = DQUOTE"
        using comma_sep_hd [of "map render_member kvs"] k(2) by (cases kvs) (auto simp: render_member_def json_quote_def)
      then have "json_skip_ws rest = rest"
        using k(3) by (cases "comma_sep (map render_member kvs)") (simp_all add: json_skip_ws_id)
      moreover have "json_find_member rest key n = (case map_of kvs key of Some (JStr s) \<Rightarrow> Some s | _ \<Rightarrow> None)"
        using Cons.IH k(2,3) Cons.prems(2,3) kv False by simp
      ultimately show ?thesis using find k(1) kv False by simp
    qed
  qed
qed simp

lemma is_cstr_json_escape: "c \<noteq> NUL \<Longrightarrow> is_cstr (json_escape c)"
proof -
  assume "c \<noteq> NUL"
  moreover have "hex_digit k \<noteq> NUL" if "k < 16" for k using that by (auto simp: hex_digit_def)
  ultimately show ?thesis by (auto simp: json_escape_def)
qed

lemma is_cstr_json_quote: "is_cstr s \<Longrightarrow> is_cstr (json_quote s)"
proof -
  assume "is_cstr s"
  then have "is_cstr (concat (map json_escape s))"
    by (induction s) (simp_all add: is_cstr_json_escape)
  then show ?thesis by (simp add: json_quote_def)
qed

lemma is_cstr_comma_sep: "(\<And>x. x \<in> set xs \<Longrightarrow> is_cstr x) \<Longrightarrow> is_cstr (comma_sep xs)"
  by (induction xs rule: comma_sep.induct) simp_all

lemma is_cstr_number: "number_token t \<Longrightarrow> is_cstr t"
proof -
  assume t: "number_token t"
  have nul: "\<not> number_char NUL" by (simp add: number_char_def is_digit_def)
  then have "list_all number_char q \<Longrightarrow> is_cstr q" for q by (auto simp: is_cstr_def list_all_iff)
  with t nul show ?thesis by (cases t) (auto simp: number_token_def Let_def split: if_splits)
qed

lemma is_cstr_render: "json_ok v \<Longrightarrow> is_cstr (render_json v)"
proof (induction v)
  case (JArr vs)
  then have "is_cstr (comma_sep (map render_json vs))" by (intro is_cstr_comma_sep) (auto simp: list_all_iff)
  then show ?case by simp
next
  case (JObj kvs)
  have "is_cstr (comma_sep (map render_member kvs))"
  proof (rule is_cstr_comma_sep)
    fix x assume "x \<in> set (map render_member kvs)"
    then obtain k v where kv: "(k, v) \<in> set kvs" "x = json_quote k @ CHR '':'' # render_json v"
      by (auto simp: render_member_def)
    moreover have "is_cstr (render_json v)" using JObj.IH [of "(k, v)" v] JObj.prems kv(1) by (auto simp: list_all_iff)
    ultimately show "is_cstr x" using JObj.prems is_cstr_json_quote by (auto simp: list_all_iff)
  qed
  then show ?case unfolding render_JObj by simp
qed (simp_all add: is_cstr_number is_cstr_json_quote)

section \<open>Properties\<close>



text \<open>On the body of a JSON object whose keys need no escapes and whose values stay within the depth
  limit, \<^verbatim>\<open>http_req_json_string\<close> returns the decoded text of the first member with the key if it is a
  string that fits the buffer with its terminator, and fails if there is no such member or it is
  not a string.\<close>

theorem json_member_lookup:
  assumes "\<forall>(k, v) \<in> set kvs. plain_key k \<and> is_cstr k \<and> json_ok v \<and> json_depth v \<le> 33"
    and "\<forall>s. map_of kvs key = Some (JStr s) \<longrightarrow> length s < n" and "0 < n"
    and "req_body req = Some (render_json (JObj kvs))" and "req_body_len req = length (render_json (JObj kvs))"
  shows "http_req_json_string req (Some key) n = (case map_of kvs key of Some (JStr s) \<Rightarrow> Some s | _ \<Rightarrow> None)"
proof -
  have "json_ok (JObj kvs)" using assms(1) by (auto simp: list_all_iff)
  then have b: "cstr (render_json (JObj kvs)) = CHR ''{'' # comma_sep (map render_member kvs) @ ''}''"
    using is_cstr_render render_JObj by (metis cstr_id)
  show ?thesis
  proof (cases kvs)
    case Nil
    then show ?thesis using assms(3-5) b by (simp add: http_req_json_string_def json_skip_ws_id)
  next
    case (Cons kv kvs')
    have h: "comma_sep (map render_member kvs) \<noteq> [] \<and> hd (comma_sep (map render_member kvs)) = DQUOTE"
      using comma_sep_hd [of "map render_member kvs"] Cons by (auto simp: render_member_def json_quote_def)
    define p where "p = comma_sep (map render_member kvs) @ ''}''"
    have p: "json_skip_ws p = p" "p \<noteq> []" "hd p = DQUOTE"
      using h by (cases "comma_sep (map render_member kvs)"; simp add: p_def json_skip_ws_id)+
    have "json_find_member p key n = (case map_of kvs key of Some (JStr s) \<Rightarrow> Some s | _ \<Rightarrow> None)"
      unfolding p_def using json_find_member_render [of kvs key n "[]"] assms(1,2) Cons by fastforce
    then show ?thesis
      using assms(3-5) p b render_JObj [of kvs]
      by (simp add: http_req_json_string_def json_skip_ws_id p_def [symmetric])
  qed
qed

theorem json_member_lookup_witness:
  "http_req_json_string
     (empty_request\<lparr>req_body := Some (render_json (JObj [(''a'', JArr [JTrue]), (''k'', JStr [CHR ''x'', LF])])),
        req_body_len := length (render_json (JObj [(''a'', JArr [JTrue]), (''k'', JStr [CHR ''x'', LF])]))\<rparr>)
     (Some ''k'') 8 = Some [CHR ''x'', LF]"
  using json_member_lookup [of "[(''a'', JArr [JTrue]), (''k'', JStr [CHR ''x'', LF])]" "''k''" 8
    "empty_request\<lparr>req_body := Some (render_json (JObj [(''a'', JArr [JTrue]), (''k'', JStr [CHR ''x'', LF])])),
       req_body_len := length (render_json (JObj [(''a'', JArr [JTrue]), (''k'', JStr [CHR ''x'', LF])]))\<rparr>"]
  by (simp add: plain_key_def)

text \<open>A \<^verbatim>\<open>\u\<close> escape may fill the output buffer completely, so that the decoded text and its
  terminator need one byte more than the buffer has: decoding \<^verbatim>\<open>"\u0041"\<close> into one byte succeeds.\<close>

theorem json_decode_overruns_buffer:
  "\<exists>t e. json_decode_string ([DQUOTE, BACKSLASH] @ ''u0041'' @ [DQUOTE]) 1 = Some (t, e) \<and> 1 < length t + 1"
proof -
  have h: "json_hex4 ([CHR ''0'', CHR ''0'', CHR ''4'', CHR ''1'', DQUOTE]) = 65"
    by (subst json_hex4_digits) (simp_all add: hex_val_def)
  then have "json_decode_loop (BACKSLASH # CHR ''u'' # [CHR ''0'', CHR ''0'', CHR ''4'', CHR ''1'', DQUOTE]) 0 1 =
      Some ([CHR ''A''], [])"
    by (simp add: json_decode_loop.simps [of "BACKSLASH # _"] json_decode_loop.simps [of "[DQUOTE]"] json_utf8_encode_def)
  then show ?thesis by (simp add: json_decode_string_def)
qed

end
