(* ===== verification/Request.thy ===== *)
theory Request
  imports Headers Query
begin

text \<open>
  Reading a request off the socket: the header block (\<^verbatim>\<open>read_request\<close>), the request line
  (\<^verbatim>\<open>parse_request_line\<close>), the field lines (\<^verbatim>\<open>parse_headers\<close>), the body
  (\<^verbatim>\<open>read_body\<close>), the persistence decision and the body type. The in-place terminators that the
  parsers write are the ends of the strings they return. The lemmas show that the windowed scan
  for the end of the header block finds what a full scan finds, that a rendered request line and
  header block parse back, that the limits hold, and that a body is exactly the announced bytes.
\<close>

section \<open>The header block\<close>

definition EOH :: string where "EOH = [CR, LF, CR, LF]"

text \<open>
  \<open>buf\<close> is what has been received so far. \<^verbatim>\<open>strstr\<close> stops at a NUL that the peer sent. The result
  is \<^const>\<open>None\<close> for the return value -1.
\<close>

function read_request_loop :: "nat \<Rightarrow> socket \<Rightarrow> char list \<Rightarrow> (char list \<times> bool) option \<times> socket" where
  "read_request_loop n s buf =
     (if length buf < n - 1 then
        (case recv (n - 1 - length buf) s of
           (Got bs, s') \<Rightarrow>
             let scan_from = (if length buf > 3 then length buf - 3 else 0)
             in if find_sub (cstr (drop scan_from (buf @ bs))) EOH \<noteq> None then (Some (buf @ bs, True), s')
                else read_request_loop n s' (buf @ bs)
         | (Eof, s') \<Rightarrow> (Some (buf, False), s')
         | (Eintr, s') \<Rightarrow> read_request_loop n s' buf
         | (Timeout l, s') \<Rightarrow> (None, s')
         | (Failed, s') \<Rightarrow> (None, s'))
      else (Some (buf, False), s))"
  by pat_completeness auto
termination
  by (relation "measure (\<lambda>(n, s, buf). script_size s)") (auto dest!: sym [of _ "recv _ _"] recv_progress)

declare read_request_loop.simps [simp del]

definition read_request :: "socket \<Rightarrow> nat \<Rightarrow> (char list \<times> bool) option \<times> socket" where
  "read_request s n = read_request_loop n s []"

section \<open>The request line\<close>

definition parse_request_line :: "string \<Rightarrow> HttpRequest \<Rightarrow> int \<times> HttpRequest" where
  "parse_request_line line req =
     (case dropWhile (\<lambda>c. c \<noteq> SP) line of
        [] \<Rightarrow> (400, req)
      | _ # after_method \<Rightarrow>
          let method = takeWhile (\<lambda>c. c \<noteq> SP) line
          in if length method \<ge> HTTP_METHOD_MAX then (501, req)
             else
               let req1 = req\<lparr>req_method := method\<rparr>;
                   t = dropWhile (\<lambda>c. c = SP) after_method
               in (case dropWhile (\<lambda>c. c \<noteq> SP) t of
                     [] \<Rightarrow> (400, req1)
                   | _ # after_target \<Rightarrow>
                       let raw = takeWhile (\<lambda>c. c \<noteq> SP) t;
                           req2 = (case dropWhile (\<lambda>c. c \<noteq> CHR ''?'') raw of
                                     [] \<Rightarrow> req1
                                   | _ # q \<Rightarrow> req1\<lparr>req_query := parse_query (Some q)\<rparr>);
                           target = takeWhile (\<lambda>c. c \<noteq> CHR ''?'') raw
                       in if target = [] then (400, req2)
                          else if length target \<ge> HTTP_PATH_MAX then (414, req2)
                          else
                            let req3 = req2\<lparr>req_path := target\<rparr>;
                                version = dropWhile (\<lambda>c. c = SP) after_target
                            in if length version \<ge> HTTP_VERSION_MAX then (505, req3)
                               else
                                 let req4 = req3\<lparr>req_version := version\<rparr>
                                 in if \<not> is_valid_http_version version then (400, req4)
                                    else if version \<noteq> ''HTTP/1.1'' \<and> version \<noteq> ''HTTP/1.0''
                                    then (505, req4)
                                    else (0, req4)))"

section \<open>The field lines\<close>

text \<open>
  The cursor is the rest of the received bytes; the byte after the last one is the NUL that
  \<^verbatim>\<open>read_request\<close> wrote.
\<close>

function parse_headers :: "allocator \<Rightarrow> char list \<Rightarrow> HttpHeaders \<Rightarrow> int \<times> HttpHeaders" where
  "parse_headers mem cursor hs =
     (if cursor = [] \<or> hd cursor = CR \<or> hd cursor = NUL then (0, hs)
      else
        (case find_sub (cstr cursor) CRLF of
           None \<Rightarrow> (0, hs)
         | Some line_end \<Rightarrow>
             let line = take line_end cursor;
                 next_line = drop (line_end + 2) cursor
             in (case dropWhile (\<lambda>c. c \<noteq> CHR '':'') line of
                   [] \<Rightarrow> parse_headers mem next_line hs
                 | _ # after_colon \<Rightarrow>
                     let key = takeWhile (\<lambda>c. c \<noteq> CHR '':'') line;
                         value = rtrim (dropWhile is_ows after_colon)
                     in if \<not> is_valid_header_name key \<or> header_value_has_injection value
                        then parse_headers mem next_line hs
                        else if length (items hs) \<ge> HTTP_MAX_HEADERS then (431, hs)
                        else
                          (case apply_header mem hs key value of
                             (rc, hs') \<Rightarrow>
                               if rc \<noteq> 0 then (500, hs') else parse_headers mem next_line hs'))))"
  by pat_completeness auto
termination by (relation "measure (\<lambda>(mem, cursor, hs). length cursor)") auto

declare parse_headers.simps [simp del]

section \<open>The body\<close>

text \<open>
  The scan over the fields: \<open>Inl\<close> a status to answer with, \<open>Inr\<close> whether there is a
  \<^verbatim>\<open>Transfer-Encoding\<close> and the content length (-1 for none). \<^verbatim>\<open>end == value\<close> says that
  \<^verbatim>\<open>strtoll\<close> found no digits.
\<close>

fun scan_framing :: "HttpHeader list \<Rightarrow> bool \<Rightarrow> int \<Rightarrow> int + bool \<times> int" where
  "scan_framing [] has_te content_length = Inr (has_te, content_length)"
| "scan_framing ((key, value) # hs) has_te content_length =
     (if strcaseeq key ''Transfer-Encoding'' then scan_framing hs True content_length
      else if strcaseeq key ''Content-Length'' then
        (case strtoll value of
           (parsed, rest, erange) \<Rightarrow>
             if rest = value \<or> rest \<noteq> [] \<or> erange \<or> parsed < 0 then Inl 400
             else if content_length \<ge> 0 \<and> content_length \<noteq> parsed then Inl 400
             else scan_framing hs has_te parsed)
      else scan_framing hs has_te content_length)"

function recv_body :: "socket \<Rightarrow> char list \<Rightarrow> nat \<Rightarrow> (int + char list) \<times> socket" where
  "recv_body s got n =
     (if length got < n then
        (case recv (n - length got) s of
           (Got bs, s') \<Rightarrow> recv_body s' (got @ bs) n
         | (Eof, s') \<Rightarrow> (Inl 400, s')
         | (Eintr, s') \<Rightarrow> recv_body s' got n
         | (Timeout l, s') \<Rightarrow> (Inl 408, s')
         | (Failed, s') \<Rightarrow> (Inl 408, s'))
      else (Inr got, s))"
  by pat_completeness auto
termination
  by (relation "measure (\<lambda>(s, got, n). script_size s)") (auto dest!: sym [of _ "recv _ _"] recv_progress)

declare recv_body.simps [simp del]

definition read_body ::
  "allocator \<Rightarrow> socket \<Rightarrow> char list \<Rightarrow> nat \<Rightarrow> HttpRequest \<Rightarrow> int \<times> HttpRequest \<times> socket" where
  "read_body mem s buf header_end req =
     (case scan_framing (items (req_headers req)) False (- 1) of
        Inl status \<Rightarrow> (status, req, s)
      | Inr (has_te, content_length) \<Rightarrow>
          if has_te then (501, req, s)
          else if content_length < 0 then (0, req, s)
          else
            let len = nat content_length;
                leftover = drop header_end buf
            in if len > HTTP_MAX_BODY then (413, req, s)
               else if \<not> mem (len + 1) then (500, req\<lparr>req_body := None\<rparr>, s)
               else if length leftover > len then (400, req\<lparr>req_body := None\<rparr>, s)
               else
                 (case recv_body s leftover len of
                    (Inl status, s') \<Rightarrow> (status, req\<lparr>req_body := None\<rparr>, s')
                  | (Inr body, s') \<Rightarrow> (0, req\<lparr>req_body := Some body, req_body_len := len\<rparr>, s')))"

section \<open>Persistence and body type\<close>

definition request_wants_keep_alive :: "HttpRequest \<Rightarrow> bool" where
  "request_wants_keep_alive req =
     (case http_req_header req (Some ''Connection'') of
        Some conn \<Rightarrow>
          if header_contains_token conn ''close'' then False
          else if header_contains_token conn ''keep-alive'' then True
          else req_version req = ''HTTP/1.1''
      | None \<Rightarrow> req_version req = ''HTTP/1.1'')"

definition http_req_body_type :: "HttpRequest \<Rightarrow> HttpBodyType" where
  "http_req_body_type req =
     (if req_body req = None \<or> req_body_len req = 0 then HTTP_BODY_NONE
      else
        (case http_req_header req (Some ''Content-Type'') of
           None \<Rightarrow> HTTP_BODY_OTHER
         | Some ct \<Rightarrow>
             if strncaseeq ct ''application/x-www-form-urlencoded'' 33 then HTTP_BODY_URLENCODED
             else if strncaseeq ct ''application/json'' 16 then HTTP_BODY_JSON
             else if strncaseeq ct ''multipart/form-data'' 19 then HTTP_BODY_MULTIPART
             else HTTP_BODY_OTHER))"

section \<open>The windowed scan\<close>

lemma starts_with_drop_append:
  assumes "starts_with (drop i (a @ b)) pat" and "i + length pat \<le> length a"
  shows "starts_with (drop i a) pat"
  using assms by (auto simp: starts_with_def)

lemma find_sub_drop:
  assumes "find_sub s pat = Some i" and "j \<le> i"
  shows "find_sub (drop j s) pat \<noteq> None"
proof -
  have "starts_with (drop i s) pat"
    using find_sub_Some [OF assms(1)] by (metis append_eq_conv_conj starts_with_append add_leD1 length_take min.absorb2)
  then have "starts_with (drop (i - j) (drop j s)) pat" using assms(2) by simp
  then show ?thesis using find_sub_None by blast
qed

lemma find_sub_drop_back: "find_sub (drop j s) pat \<noteq> None \<Longrightarrow> find_sub s pat \<noteq> None"
proof
  assume "find_sub (drop j s) pat \<noteq> None" and n: "find_sub s pat = None"
  then obtain i where "find_sub (drop j s) pat = Some i" by blast
  then have "starts_with (drop i (drop j s)) pat"
    using find_sub_Some by (metis append_eq_conv_conj starts_with_append add_leD1 length_take min.absorb2)
  then show False using find_sub_None [OF n, of "j + i"] by (simp add: add.commute)
qed

lemma window_scan:
  assumes "find_sub buf EOH = None" and "is_cstr (buf @ bs)"
  shows "find_sub (cstr (drop (if length buf > 3 then length buf - 3 else 0) (buf @ bs))) EOH \<noteq> None \<longleftrightarrow>
         find_sub (buf @ bs) EOH \<noteq> None"
proof
  let ?k = "if length buf > 3 then length buf - 3 else 0"
  have c: "cstr (drop ?k (buf @ bs)) = drop ?k (buf @ bs)" using assms(2) by (simp add: is_cstr_parts)
  show "find_sub (buf @ bs) EOH \<noteq> None" if "find_sub (cstr (drop ?k (buf @ bs))) EOH \<noteq> None"
    using that find_sub_drop_back unfolding c by blast
  assume "find_sub (buf @ bs) EOH \<noteq> None"
  then obtain i where i: "find_sub (buf @ bs) EOH = Some i" by blast
  have "starts_with (drop i (buf @ bs)) EOH"
    using find_sub_Some [OF i] by (metis append_eq_conv_conj starts_with_append add_leD1 length_take min.absorb2)
  then have "\<not> i + 4 \<le> length buf"
    using starts_with_drop_append [of i buf bs EOH] find_sub_None [OF assms(1), of i] by (auto simp: EOH_def)
  then have "?k \<le> i" by auto
  then show "find_sub (cstr (drop ?k (buf @ bs))) EOH \<noteq> None" unfolding c using find_sub_drop [OF i] by blast
qed

lemma read_request_loop_spec:
  assumes "read_request_loop n s buf = (Some (b, complete), s')" and "length buf \<le> n - 1"
    and "is_cstr buf \<longrightarrow> find_sub buf EOH = None"
  shows "length b \<le> n - 1 \<and> buf @ pending s = b @ pending s' \<and>
    (is_cstr b \<longrightarrow> (complete \<longleftrightarrow> find_sub b EOH \<noteq> None)) \<and>
    (\<not> complete \<and> length b < n - 1 \<longrightarrow> fst (recv (n - 1 - length b) s') = Eof)"
  using assms
proof (induction n s buf rule: read_request_loop.induct)
  case (1 n s buf)
  show ?case
  proof (cases "length buf < n - 1")
    case False
    then show ?thesis using "1.prems" by (auto simp: read_request_loop.simps [of n s buf])
  next
    case True
    obtain r t where rt: "recv (n - 1 - length buf) s = (r, t)" by fastforce
    show ?thesis
    proof (cases r)
      case (Got bs)
      define k where "k = (if length buf > 3 then length buf - 3 else 0)"
      have g: "length bs \<le> n - 1 - length buf" "pending s = bs @ pending t"
        using recv_Got rt Got by blast+
      have win: "is_cstr (buf @ bs) \<Longrightarrow>
          find_sub (cstr (drop k (buf @ bs))) EOH \<noteq> None \<longleftrightarrow> find_sub (buf @ bs) EOH \<noteq> None"
        using window_scan [of buf bs] "1.prems"(3) unfolding k_def by fastforce
      show ?thesis
      proof (cases "find_sub (cstr (drop k (buf @ bs))) EOH = None")
        case hit: False
        then have "b = buf @ bs" "complete" "s' = t"
          using "1.prems"(1) True rt Got by (auto simp: read_request_loop.simps [of n s buf] k_def [symmetric])
        then show ?thesis using g True win hit by auto
      next
        case miss: True
        then have rec: "read_request_loop n t (buf @ bs) = (Some (b, complete), s')"
          using "1.prems"(1) True rt Got by (simp add: read_request_loop.simps [of n s buf] k_def [symmetric])
        show ?thesis
          using "1.IH"(1) [OF True rt [symmetric] Got k_def _ rec] miss g True win by auto
      qed
    next
      case Eof
      then have "t = s" using rt recv_Eof by simp
      then show ?thesis using "1.prems" True rt Eof by (auto simp: read_request_loop.simps [of n s buf])
    next
      case Eintr
      then have "read_request_loop n t buf = (Some (b, complete), s')"
        using "1.prems"(1) True rt by (simp add: read_request_loop.simps [of n s buf])
      moreover have "pending t = pending s" using recv_pending [OF rt] Eintr by simp
      ultimately show ?thesis using "1.IH"(2) [OF True rt [symmetric] Eintr] "1.prems"(2,3) by simp
    next
      case (Timeout l)
      then show ?thesis using "1.prems"(1) True rt by (simp add: read_request_loop.simps [of n s buf])
    next
      case Failed
      then show ?thesis using "1.prems"(1) True rt by (simp add: read_request_loop.simps [of n s buf])
    qed
  qed
qed

section \<open>Parsing what was rendered\<close>

lemma parse_request_line_limits:
  assumes "parse_request_line line req = (0, req')" and "query_inv (req_query req)"
  shows "length (req_method req') < HTTP_METHOD_MAX \<and> SP \<notin> set (req_method req') \<and>
    req_path req' \<noteq> [] \<and> length (req_path req') < HTTP_PATH_MAX \<and>
    CHR ''?'' \<notin> set (req_path req') \<and>
    req_version req' \<in> {''HTTP/1.0'', ''HTTP/1.1''} \<and> query_inv (req_query req')"
  using assms parse_query_inv
  by (auto simp: parse_request_line_def Let_def not_le split: list.splits if_splits)

lemma dropWhile_SP [simp]: "SP \<notin> set p \<Longrightarrow> dropWhile (\<lambda>c. c = SP) (p @ SP # r) = (if p = [] then dropWhile (\<lambda>c. c = SP) r else p @ SP # r)"
  by (cases p) auto

lemma version_ok: "v \<in> {''HTTP/1.0'', ''HTTP/1.1''} \<Longrightarrow>
   dropWhile (\<lambda>c. c = SP) v = v \<and> length v < HTTP_VERSION_MAX \<and> is_valid_http_version v"
  by (auto simp: HTTP_VERSION_MAX_def is_valid_http_version_def strneq_def is_digit_def)

lemma parse_request_line_render:
  assumes "SP \<notin> set m" and "length m < HTTP_METHOD_MAX"
    and "p \<noteq> []" and "SP \<notin> set p" and "CHR ''?'' \<notin> set p" and "length p < HTTP_PATH_MAX"
    and "v \<in> {''HTTP/1.0'', ''HTTP/1.1''}" and "SP \<notin> set q"
  shows "parse_request_line (m @ SP # p @ SP # v) req =
      (0, req\<lparr>req_method := m, req_path := p, req_version := v\<rparr>)"
    and "parse_request_line (m @ SP # p @ CHR ''?'' # q @ SP # v) req =
      (0, req\<lparr>req_method := m, req_path := p, req_version := v, req_query := parse_query (Some q)\<rparr>)"
proof -
  have v: "v = ''HTTP/1.1'' \<or> v = ''HTTP/1.0''" using assms(7) by auto
  note vv = version_ok [OF assms(7)]
  show "parse_request_line (m @ SP # p @ SP # v) req =
      (0, req\<lparr>req_method := m, req_path := p, req_version := v\<rparr>)"
    using assms(1-6) v vv by (simp add: parse_request_line_def Let_def)
  have q: "SP \<notin> set (p @ CHR ''?'' # q)" using assms(4,8) by simp
  have "dropWhile (\<lambda>c. c = SP) ((p @ CHR ''?'' # q) @ SP # v) = (p @ CHR ''?'' # q) @ SP # v"
    using q assms(3) by (cases p) auto
  moreover have "takeWhile (\<lambda>c. c \<noteq> SP) ((p @ CHR ''?'' # q) @ SP # v) = p @ CHR ''?'' # q"
    and "dropWhile (\<lambda>c. c \<noteq> SP) ((p @ CHR ''?'' # q) @ SP # v) = SP # v"
    by (rule span_neq, rule q)+
  ultimately show "parse_request_line (m @ SP # p @ CHR ''?'' # q @ SP # v) req =
      (0, req\<lparr>req_method := m, req_path := p, req_version := v, req_query := parse_query (Some q)\<rparr>)"
    using assms(1-6) v vv by (simp add: parse_request_line_def Let_def)
qed

lemma find_sub_CRLF: "CR \<notin> set l \<Longrightarrow> find_sub (l @ CR # LF # r) CRLF = Some (length l)"
proof (induction l)
  case Nil
  show ?case by (simp add: find_sub_Cons starts_with_def)
next
  case (Cons c l)
  then have "c \<noteq> CR" by auto
  then show ?case using Cons by (simp add: find_sub_Cons starts_with_def)
qed

definition field_line :: "HttpHeader \<Rightarrow> string" where
  "field_line h = fst h @ CHR '':'' # SP # snd h @ CRLF"

text \<open>A field as it comes off the wire: storable, NUL-free, without outer white space.\<close>

definition wire_field :: "HttpHeader \<Rightarrow> bool" where
  "wire_field h \<longleftrightarrow> field_ok h \<and> is_cstr (snd h) \<and> rtrim (dropWhile is_ows (snd h)) = snd h"

lemma parse_headers_step:
  assumes "wire_field (k, v)" and "length (items hs) < HTTP_MAX_HEADERS" and "\<And>n. mem n"
  shows "parse_headers mem (field_line (k, v) @ r) hs =
     parse_headers mem r (snd (apply_header mem hs k v))"
proof -
  have ok: "field_ok (k, v)" and v: "is_cstr v" "rtrim (dropWhile is_ows v) = v"
    using assms(1) by (auto simp: wire_field_def)
  have k: "is_valid_header_name k" using ok by (simp add: field_ok_def)
  have kc: "CHR '':'' \<notin> set k" "CR \<notin> set k" "is_cstr k" "k \<noteq> []"
    using valid_name_no_colon_or_break [OF k] k by (auto simp: is_cstr_def is_valid_header_name_def)
  have vc: "CR \<notin> set v" using ok by (simp add: field_ok_def header_value_has_injection_iff)
  let ?line = "k @ CHR '':'' # SP # v"
  have line: "CR \<notin> set ?line" "is_cstr ?line" using kc vc v(1) by simp_all
  have "cstr (?line @ CR # LF # r) = ?line @ CR # LF # cstr r"
    using line(2) by (simp add: cstr_def is_cstr_def takeWhile_append)
  then have fs: "find_sub (cstr (?line @ CR # LF # r)) CRLF = Some (length ?line)"
    using find_sub_CRLF [OF line(1)] by metis
  have e: "field_line (k, v) @ r = ?line @ CR # LF # r" by (simp add: field_line_def)
  have hd: "?line @ CR # LF # r \<noteq> [] \<and> hd (?line @ CR # LF # r) \<noteq> CR \<and> hd (?line @ CR # LF # r) \<noteq> NUL"
    using kc by (cases k) (auto simp: is_cstr_def)
  obtain hs' where ap: "apply_header mem hs k v = (0, hs')"
    using apply_header_ok [of mem k v hs] assms(3) ok by (metis prod.collapse)
  have tk: "take (length ?line) (?line @ CR # LF # r) = ?line" by simp
  have dr: "drop (length ?line + 2) (?line @ CR # LF # r) = r"
  proof -
    have "drop (length (?line @ CRLF)) ((?line @ CRLF) @ r) = r" by (metis append_eq_conv_conj)
    moreover have "length (?line @ CRLF) = length ?line + 2" by simp
    ultimately show ?thesis by (metis append.assoc append_Cons append_Nil)
  qed
  have ow: "dropWhile is_ows (SP # v) = dropWhile is_ows v" by (simp add: is_ows_def)
  have spl: "takeWhile (\<lambda>c. c \<noteq> CHR '':'') ?line = k"
    "dropWhile (\<lambda>c. c \<noteq> CHR '':'') ?line = CHR '':'' # SP # v"
    by (rule span_neq, rule kc)+
  have ok': "\<not> (\<not> is_valid_header_name k \<or> header_value_has_injection v)"
    using ok by (simp add: field_ok_def)
  have room: "\<not> HTTP_MAX_HEADERS \<le> length (items hs)" using assms(2) by simp
  show ?thesis
    unfolding e parse_headers.simps [of mem "?line @ CR # LF # r" hs]
    using hd room ok' by (simp only: fs tk dr spl option.case list.case ow v(2) ap prod.case Let_def snd_conv
        if_False if_True simp_thms)
qed

lemma parse_headers_render:
  assumes "list_all wire_field fs" and "length (items hs) + length fs \<le> HTTP_MAX_HEADERS" and "\<And>n. mem n"
  shows "fst (parse_headers mem (concat (map field_line fs) @ CRLF @ r) hs) = 0 \<and>
    items (snd (parse_headers mem (concat (map field_line fs) @ CRLF @ r) hs)) = items hs @ fs"
  using assms(1,2)
proof (induction fs arbitrary: hs)
  case Nil
  then show ?case by (simp add: parse_headers.simps [of mem "CR # LF # r"])
next
  case (Cons f fs)
  obtain k v where f: "f = (k, v)" by (cases f)
  have "field_ok (k, v)" using Cons.prems(1) f by (simp add: wire_field_def)
  then have it: "items (snd (apply_header mem hs k v)) = items hs @ [(k, v)]"
    using apply_header_ok [of mem k v hs, OF assms(3)] by simp
  have wf: "wire_field (k, v)" and room: "length (items hs) < HTTP_MAX_HEADERS"
    using Cons.prems f by simp_all
  show ?case
    using Cons.IH [of "snd (apply_header mem hs k v)"] Cons.prems it f
      parse_headers_step [OF wf room assms(3), where r = "concat (map field_line fs) @ CRLF @ r"] by simp
qed

lemma parse_headers_inv [inv_intros]:
  "headers_inv hs \<and> length (items hs) \<le> HTTP_MAX_HEADERS \<Longrightarrow>
     headers_inv (snd (parse_headers mem cur hs)) \<and>
     length (items (snd (parse_headers mem cur hs))) \<le> HTTP_MAX_HEADERS"
proof (induction mem cur hs rule: parse_headers.induct)
  case (1 mem cur hs)
  have ap: "headers_inv h' \<and> length (items h') \<le> HTTP_MAX_HEADERS"
    if "length (items hs) < HTTP_MAX_HEADERS" and "apply_header mem hs k v = (rc, h')" for k v rc h'
    using that apply_header_inv [of hs mem k v] apply_header_cases [of mem hs k v] "1.prems" by auto
  show ?case
  proof (cases "cur = [] \<or> hd cur = CR \<or> hd cur = NUL")
    case True
    then show ?thesis using "1.prems" by (simp add: parse_headers.simps [of mem cur hs])
  next
    case go: False
    show ?thesis
    proof (cases "find_sub (cstr cur) CRLF")
      case None
      then show ?thesis using "1.prems" go by (simp add: parse_headers.simps [of mem cur hs])
    next
      case le: (Some le)
      show ?thesis
      proof (cases "dropWhile (\<lambda>c. c \<noteq> CHR '':'') (take le cur)")
        case Nil
        then show ?thesis
          using "1.IH"(1) [OF go le refl refl Nil "1.prems"] go le by (simp add: parse_headers.simps [of mem cur hs])
      next
        case (Cons c ac)
        show ?thesis
          using "1.IH"(2) [OF go le refl refl Cons refl refl] "1.IH"(3) [OF go le refl refl Cons refl refl] ap
            "1.prems" go le Cons
          unfolding parse_headers.simps [of mem cur hs] by (auto simp: Let_def not_le split: prod.splits)
      qed
    qed
  qed
qed

section \<open>The body is what was announced\<close>

lemma recv_body_exact:
  "recv_body s got n = (Inr b, s') \<Longrightarrow> length got \<le> n \<Longrightarrow>
     length b = n \<and> got @ pending s = b @ pending s'"
proof (induction s got n rule: recv_body.induct)
  case (1 s got n)
  show ?case
  proof (cases "length got < n")
    case False
    then show ?thesis using "1.prems" by (auto simp: recv_body.simps [of s got n])
  next
    case True
    obtain r t where rt: "recv (n - length got) s = (r, t)" by fastforce
    show ?thesis
    proof (cases r)
      case (Got bs)
      then have "recv_body t (got @ bs) n = (Inr b, s')"
        using "1.prems"(1) True rt by (simp add: recv_body.simps [of s got n])
      moreover have "length bs \<le> n - length got" "pending s = bs @ pending t"
        using recv_Got rt Got by blast+
      ultimately show ?thesis using "1.IH"(1) [OF True rt [symmetric] Got] True by simp
    next
      case Eintr
      then have "recv_body t got n = (Inr b, s')"
        using "1.prems"(1) True rt by (simp add: recv_body.simps [of s got n])
      moreover have "pending t = pending s" using recv_pending [OF rt] Eintr by simp
      ultimately show ?thesis using "1.IH"(2) [OF True rt [symmetric] Eintr] "1.prems"(2) by simp
    qed (use "1.prems"(1) True rt in \<open>simp_all add: recv_body.simps [of s got n]\<close>)
  qed
qed

lemma scan_framing_spec:
  "scan_framing hs te cl = Inr (te', cl') \<Longrightarrow>
     (te' \<longleftrightarrow> te \<or> (\<exists>h \<in> set hs. strcaseeq (fst h) ''Transfer-Encoding'')) \<and>
     (\<forall>h \<in> set hs. strcaseeq (fst h) ''Content-Length'' \<longrightarrow> strtoll (snd h) = (cl', [], False) \<and> 0 \<le> cl') \<and>
     ((\<forall>h \<in> set hs. \<not> strcaseeq (fst h) ''Content-Length'') \<longrightarrow> cl' = cl) \<and> (0 \<le> cl \<longrightarrow> cl' = cl)"
proof (induction hs te cl rule: scan_framing.induct)
  case (1 te cl)
  then show ?case by simp
next
  case (2 key val hs te cl)
  have ne: "\<not> (strcaseeq key ''Transfer-Encoding'' \<and> strcaseeq key ''Content-Length'')"
    by (auto dest!: strcaseeq_length)
  show ?case
  proof (cases "strcaseeq key ''Transfer-Encoding''")
    case True
    with "2.prems" have "scan_framing hs True cl = Inr (te', cl')" by simp
    with "2.IH"(1) [OF True] True ne show ?thesis by simp
  next
    case nte: False
    show ?thesis
    proof (cases "strcaseeq key ''Content-Length''")
      case False
      with nte "2.prems" have "scan_framing hs te cl = Inr (te', cl')" by simp
      with "2.IH"(3) [OF nte False] nte False show ?thesis by simp
    next
      case True
      obtain parsed rest er where st: "strtoll val = (parsed, rest, er)" by (cases "strtoll val")
      with True nte "2.prems" have ok: "\<not> (rest = val \<or> rest \<noteq> [] \<or> er \<or> parsed < 0)"
        "\<not> (0 \<le> cl \<and> cl \<noteq> parsed)" "scan_framing hs te parsed = Inr (te', cl')"
        by (auto split: if_splits)
      with "2.IH"(2) [OF nte True st [symmetric] refl] True nte st show ?thesis by auto
    qed
  qed
qed

lemma scan_framing_error: "scan_framing hs te cl = Inl x \<Longrightarrow> x = 400"
  by (induction hs te cl rule: scan_framing.induct) (auto split: if_splits prod.splits)

lemma recv_body_error: "recv_body s got n = (Inl x, s') \<Longrightarrow> x = 400 \<or> x = 408"
proof (induction s got n rule: recv_body.induct)
  case (1 s got n)
  then show ?case
    unfolding recv_body.simps [of s got n] by (auto split: if_splits prod.splits recv_result.splits)
qed

lemma read_body_ok:
  assumes "read_body mem s buf header_end req = (0, req', s')"
  obtains cl where "scan_framing (items (req_headers req)) False (- 1) = Inr (False, cl)"
    and "cl < 0 \<longrightarrow> req' = req \<and> s' = s"
    and "0 \<le> cl \<longrightarrow> (\<exists>b. req' = req\<lparr>req_body := Some b, req_body_len := nat cl\<rparr> \<and> length b = nat cl \<and>
          nat cl \<le> HTTP_MAX_BODY \<and> drop header_end buf @ pending s = b @ pending s')"
  using assms recv_body_exact [of s "drop header_end buf"]
    scan_framing_error [of "items (req_headers req)" False "- 1" 0]
  by (auto dest: recv_body_error simp: read_body_def Let_def not_less split: sum.splits if_splits prod.splits)

section \<open>Properties\<close>



text \<open>An accepted request line has a method below 8 characters without spaces, a non-empty path
  below 512 characters without a question mark, version 1.0 or 1.1, and stored query pairs within
  their limits; so no fixed-size field of the request is overrun.\<close>

theorem parse_request_line_bounds:
  assumes "parse_request_line line empty_request = (0, req)"
  shows "length (req_method req) < HTTP_METHOD_MAX \<and> SP \<notin> set (req_method req) \<and>
    req_path req \<noteq> [] \<and> length (req_path req) < HTTP_PATH_MAX \<and>
    CHR ''?'' \<notin> set (req_path req) \<and>
    req_version req \<in> {''HTTP/1.0'', ''HTTP/1.1''} \<and> query_inv (req_query req)"
  by (rule parse_request_line_limits [OF assms]) (simp add: empty_request_def query_inv_def)

theorem parse_request_line_bounds_witness:
  "\<exists>req. parse_request_line ''GET  /a?k=v HTTP/1.1'' empty_request = (0, req) \<and> query_inv (req_query req)"
proof -
  have r: "parse_request_line ''GET  /a?k=v HTTP/1.1'' empty_request =
      (0, empty_request\<lparr>req_method := ''GET'', req_query := parse_query (Some ''k=v''), req_path := ''/a'',
            req_version := ''HTTP/1.1''\<rparr>)"
    by (simp add: parse_request_line_def limit_defs is_valid_http_version_def strneq_def is_digit_def)
  then show ?thesis using parse_request_line_bounds [OF r] by blast
qed

text \<open>A well-formed request line is accepted and its method, path, query and version are read
  back as they were written.\<close>

theorem parse_request_line_roundtrip:
  assumes "SP \<notin> set m" and "length m < HTTP_METHOD_MAX"
    and "p \<noteq> []" and "SP \<notin> set p" and "CHR ''?'' \<notin> set p" and "length p < HTTP_PATH_MAX"
    and "v \<in> {''HTTP/1.0'', ''HTTP/1.1''}" and "SP \<notin> set q"
  shows "parse_request_line (m @ SP # p @ CHR ''?'' # q @ SP # v) req =
      (0, req\<lparr>req_method := m, req_path := p, req_version := v, req_query := parse_query (Some q)\<rparr>)"
  using assms by (rule parse_request_line_render)

theorem parse_request_line_roundtrip_witness:
  "parse_request_line ''GET /a/b?k=v HTTP/1.0'' empty_request =
     (0, empty_request\<lparr>req_method := ''GET'', req_path := ''/a/b'', req_version := ''HTTP/1.0'',
           req_query := parse_query (Some ''k=v'')\<rparr>)"
  using parse_request_line_roundtrip [of "''GET''" "''/a/b''" "''HTTP/1.0''" "''k=v''" empty_request]
  by (simp add: limit_defs)

text \<open>C34: up to 64 well-formed field lines are read back as exactly the fields they were rendered
  from, in order, whatever follows the empty line.\<close>

theorem parse_headers_roundtrip:
  assumes "list_all wire_field fs" and "length fs \<le> HTTP_MAX_HEADERS"
  shows "fst (parse_headers (\<lambda>n. True) (concat (map field_line fs) @ CRLF @ r) no_headers) = 0 \<and>
    items (snd (parse_headers (\<lambda>n. True) (concat (map field_line fs) @ CRLF @ r) no_headers)) = fs"
  using parse_headers_render [OF assms(1), of no_headers "\<lambda>n. True" r] assms(2)
  by (simp add: no_headers_def)

theorem parse_headers_roundtrip_witness:
  "items (snd (parse_headers (\<lambda>n. True)
     (concat (map field_line [(''Host'', ''a''), (''Accept'', ''b, c'')]) @ CRLF @ ''body'') no_headers)) =
   [(''Host'', ''a''), (''Accept'', ''b, c'')]"
proof -
  have "list_all wire_field [(''Host'', ''a''), (''Accept'', ''b, c'')]"
    by (simp add: wire_field_def field_ok_def is_valid_header_name_def is_tchar_def is_ows_def rtrim_def)
  then show ?thesis
    using parse_headers_roundtrip [of "[(''Host'', ''a''), (''Accept'', ''b, c'')]" "''body''"]
    by (simp add: limit_defs)
qed

text \<open>Whatever bytes are parsed as a header block, at most 64 fields are stored and each of them
  has a valid name and a value without line breaks.\<close>

theorem parse_headers_safe:
  "headers_inv (snd (parse_headers mem cur no_headers)) \<and>
   length (items (snd (parse_headers mem cur no_headers))) \<le> HTTP_MAX_HEADERS"
  by (rule parse_headers_inv) (simp add: no_headers_def headers_inv_def)

text \<open>C6: if the body is accepted there is no \<^verbatim>\<open>Transfer-Encoding\<close> field, all \<^verbatim>\<open>Content-Length\<close> fields
  denote one number, at most 50 MiB, and the body is exactly that many of the bytes that follow
  the header block; the socket is left at the byte after it. Without a \<^verbatim>\<open>Content-Length\<close> nothing is
  read.\<close>

theorem read_body_exact:
  assumes "read_body mem s buf header_end req = (0, req', s')"
  shows "(\<forall>h \<in> set (items (req_headers req)). \<not> strcaseeq (fst h) ''Transfer-Encoding'') \<and>
    (case filter (\<lambda>h. strcaseeq (fst h) ''Content-Length'') (items (req_headers req)) of
       [] \<Rightarrow> req' = req \<and> s' = s
     | h # hs \<Rightarrow>
         \<exists>n b. (\<forall>f \<in> set (h # hs). strtoll (snd f) = (int n, [], False)) \<and> n \<le> HTTP_MAX_BODY \<and>
           req' = req\<lparr>req_body := Some b, req_body_len := n\<rparr> \<and> length b = n \<and>
           drop header_end buf @ pending s = b @ pending s')"
proof -
  let ?hs = "items (req_headers req)" and ?P = "\<lambda>h. strcaseeq (fst h) ''Content-Length''"
  obtain cl where sf: "scan_framing ?hs False (- 1) = Inr (False, cl)"
    and no: "cl < 0 \<longrightarrow> req' = req \<and> s' = s"
    and yes: "0 \<le> cl \<longrightarrow> (\<exists>b. req' = req\<lparr>req_body := Some b, req_body_len := nat cl\<rparr> \<and> length b = nat cl \<and>
          nat cl \<le> HTTP_MAX_BODY \<and> drop header_end buf @ pending s = b @ pending s')"
    using read_body_ok [OF assms] .
  note spec = scan_framing_spec [OF sf]
  show ?thesis
  proof (cases "filter ?P ?hs")
    case Nil
    then have "cl = - 1" using spec by (auto simp: filter_empty_conv)
    then show ?thesis using spec no Nil by simp
  next
    case (Cons h hs)
    have "\<forall>f \<in> set (h # hs). strtoll (snd f) = (cl, [], False) \<and> 0 \<le> cl"
      unfolding Cons [symmetric] using spec by auto
    then show ?thesis using spec yes Cons by (intro conjI) (auto intro!: exI [of _ "nat cl"])
  qed
qed

theorem read_body_exact_witness:
  "\<exists>req' s'. read_body (\<lambda>n. True) \<lparr>inbox = [RData ''cd'', RData ''ef''], sends = [], outbox = []\<rparr> ''HHab'' 2
      (empty_request\<lparr>req_headers := \<lparr>items = [(''content-length'', ''5'')], capacity = 8\<rparr>\<rparr>) = (0, req', s') \<and>
    (\<exists>b. req_body req' = Some b \<and> length b = 5 \<and> ''abcdef'' = b @ pending s')"
proof -
  let ?s = "\<lparr>inbox = [RData ''cd'', RData ''ef''], sends = [], outbox = []\<rparr>"
  let ?req = "empty_request\<lparr>req_headers := \<lparr>items = [(''content-length'', ''5'')], capacity = 8\<rparr>\<rparr>"
  have st: "strtoll ''5'' = (5, [], False)"
    using strtoll_digits [of "''5''" "[]"]
    by (simp add: is_digit_def digits_val_def digit_val_def LLONG_MAX_def)
  have ce: "strcaseeq ''content-length'' ''Content-Length''" "\<not> strcaseeq ''content-length'' ''Transfer-Encoding''"
    by (simp_all add: strcaseeq_def to_lower_def is_upper_def)
  have r: "read_body (\<lambda>n. True) ?s ''HHab'' 2 ?req =
      (0, ?req\<lparr>req_body := Some ''abcde'', req_body_len := 5\<rparr>, ?s\<lparr>inbox := [RData ''f'']\<rparr>)"
    using ce by (simp add: read_body_def st recv_body.simps recv_def HTTP_MAX_BODY_def)
  show ?thesis using r read_body_exact [OF r] ce st by (auto simp: pending_def)
qed

end
