(* ===== verification/Multipart.thy ===== *)
theory Multipart
  imports Request
begin

text \<open>
  The multipart/form-data parser (\<^verbatim>\<open>mem_find\<close>, \<^verbatim>\<open>multipart_boundary\<close>, \<^verbatim>\<open>disposition_attr\<close>,
  \<^verbatim>\<open>parse_part_headers\<close>, \<^verbatim>\<open>parse_multipart\<close>) and its accessors. The name and filename buffers are
  uninitialised stack arrays in the source; their former contents are an input of the model, so
  that what an early return leaves in them is visible. The lemmas show that the parts are slices
  of the body that end at their delimiter, and that a rendered form is read back.
\<close>

section \<open>Searching\<close>

definition mem_find :: "char list \<Rightarrow> char list \<Rightarrow> nat option" where
  "mem_find hay needle =
     (if needle = [] \<or> length hay < length needle then None else find_sub hay needle)"

section \<open>The boundary\<close>

text \<open>The copy loop: \<^const>\<open>None\<close> for a character outside the boundary alphabet or no room.\<close>

fun boundary_copy :: "string \<Rightarrow> nat \<Rightarrow> nat \<Rightarrow> string option" where
  "boundary_copy [] n out_size = Some []"
| "boundary_copy (c # p) n out_size =
     (if c = DQUOTE \<or> c = CHR '';'' then Some []
      else if byte c < 0x20 \<or> byte c > 0x7e \<or> n + 1 \<ge> out_size then None
      else map_option ((#) c) (boundary_copy p (n + 1) out_size))"

fun boundary_scan :: "string \<Rightarrow> nat \<Rightarrow> string" where
  "boundary_scan [] out_size = []"
| "boundary_scan (c # p) out_size =
     (if \<not> strncaseeq (c # p) ''boundary='' 9 then boundary_scan p out_size
      else
        let q = drop 9 (c # p);
            q' = (if q \<noteq> [] \<and> hd q = DQUOTE then tl q else q)
        in (case boundary_copy q' 0 out_size of None \<Rightarrow> [] | Some b \<Rightarrow> b))"

text \<open>The copied boundary; empty for the return value 0.\<close>

definition multipart_boundary :: "string option \<Rightarrow> nat \<Rightarrow> string" where
  "multipart_boundary content_type out_size =
     (case content_type of
        None \<Rightarrow> []
      | Some ct \<Rightarrow> if out_size < 2 then [] else boundary_scan ct out_size)"

section \<open>Part headers\<close>

text \<open>
  \<open>v\<close> is the region from the value on, \<open>out\<close> the output buffer. \<open>Inl\<close> is the early return, which
  leaves the characters written so far without a terminator; \<open>Inr\<close> the end of the loop.
\<close>

fun attr_copy ::
  "bool \<Rightarrow> char list \<Rightarrow> nat \<Rightarrow> char list \<Rightarrow> char list + char list \<times> nat \<times> char list" where
  "attr_copy quoted [] n out = Inr ([], n, out)"
| "attr_copy quoted (c # v) n out =
     (if (if quoted then c = DQUOTE else c = CHR '';'' \<or> c = CR) then Inr (c # v, n, out)
      else if byte c < 0x20 \<or> byte c > 0x7e \<or> n + 1 \<ge> length out then Inl out
      else attr_copy quoted v (n + 1) (out[n := c]))"

definition attr_value :: "char list \<Rightarrow> char list \<Rightarrow> char list" where
  "attr_value after out =
     (let quoted = (after \<noteq> [] \<and> hd after = DQUOTE)
      in case attr_copy quoted (if quoted then tl after else after) 0 out of
           Inl out' \<Rightarrow> out'
         | Inr (v, n, out') \<Rightarrow>
             if (quoted \<and> v \<noteq> [] \<and> hd v = DQUOTE) \<or> (\<not> quoted \<and> n > 0) then out'[n := NUL] else out')"

text \<open>The search for the attribute; \<open>prev\<close> is the byte before the current one.\<close>

function attr_scan :: "char option \<Rightarrow> char list \<Rightarrow> string \<Rightarrow> char list \<Rightarrow> char list" where
  "attr_scan prev region attr out =
     (if length region \<le> length attr then out
      else if strncaseeq region attr (length attr) \<and>
        (case prev of None \<Rightarrow> True | Some c \<Rightarrow> c = CHR '';'' \<or> c = SP \<or> c = TAB)
      then attr_value (drop (length attr) region) out
      else attr_scan (Some (hd region)) (tl region) attr out)"
  by pat_completeness auto
termination
proof (relation "measure (\<lambda>(prev, region, attr, out). length region)", goal_cases)
  case (2 prev region attr out)
  then show ?case by (cases region) auto
qed simp

declare attr_scan.simps [simp del]

definition disposition_attr :: "char list \<Rightarrow> string \<Rightarrow> char list \<Rightarrow> char list" where
  "disposition_attr region attr out = attr_scan None region attr (out[0 := NUL])"

definition part_content_type_of :: "char list \<Rightarrow> nat \<Rightarrow> char list" where
  "part_content_type_of v ct_size =
     take (ct_size - 1) (filter (\<lambda>c. c \<noteq> SP \<and> c \<noteq> TAB) (takeWhile (\<lambda>c. c \<noteq> CHR '';'') v))"

text \<open>The three buffers of a part: name and filename as arrays, the content type up to its terminator.\<close>

record part_buffers =
  buf_name :: "char list"
  buf_filename :: "char list"
  buf_content_type :: "char list"

definition part_header_line :: "char list \<Rightarrow> part_buffers \<Rightarrow> part_buffers" where
  "part_header_line line b =
     (if length line > 20 \<and> strncaseeq line ''Content-Disposition:'' 20 then
        b\<lparr>buf_name := disposition_attr line ''name='' (buf_name b),
          buf_filename := disposition_attr line ''filename='' (buf_filename b)\<rparr>
      else if length line > 13 \<and> strncaseeq line ''Content-Type:'' 13 then
        b\<lparr>buf_content_type := part_content_type_of (drop 13 line) HTTP_MULTIPART_FILE_MAX\<rparr>
      else b)"

function part_header_lines :: "char list \<Rightarrow> part_buffers \<Rightarrow> part_buffers" where
  "part_header_lines region b =
     (if region = [] then b
      else
        let eol = (case mem_find region CRLF of None \<Rightarrow> length region | Some i \<Rightarrow> i)
        in part_header_lines (drop (eol + 2) region) (part_header_line (take eol region) b))"
  by pat_completeness auto
termination by (relation "measure (\<lambda>(region, b). length region)") auto

declare part_header_lines.simps [simp del]

definition parse_part_headers :: "char list \<Rightarrow> char list \<Rightarrow> char list \<Rightarrow> part_buffers" where
  "parse_part_headers region name filename =
     part_header_lines region
       \<lparr>buf_name = name[0 := NUL], buf_filename = filename[0 := NUL], buf_content_type = []\<rparr>"

section \<open>Parts\<close>

text \<open>\<open>junk pos\<close> is what the name and filename arrays hold when the part at \<open>pos\<close> is parsed.\<close>

function parse_parts ::
  "(nat \<Rightarrow> char list \<times> char list) \<Rightarrow> string \<Rightarrow> char list \<Rightarrow> nat \<Rightarrow> HttpMultiparts \<Rightarrow> HttpMultiparts" where
  "parse_parts junk delim body pos out =
     (if pos < length body \<and> length out < HTTP_MAX_MULTIPART_PARTS then
        (if starts_with (drop pos body) ''--'' then out
         else if \<not> starts_with (drop pos body) CRLF then out
         else
           (case mem_find (drop (pos + 2) body) EOH of
              None \<Rightarrow> out
            | Some hdr_end \<Rightarrow>
                let data_start = pos + 2 + hdr_end + 4;
                    b = parse_part_headers (take (hdr_end + 2) (drop (pos + 2) body))
                          (fst (junk pos)) (snd (junk pos))
                in (case mem_find (drop data_start body) (CRLF @ delim) of
                      None \<Rightarrow> out
                    | Some data_end \<Rightarrow>
                        let part = \<lparr>part_name = snprint HTTP_MULTIPART_NAME_MAX (cstr (buf_name b)),
                                    part_filename = snprint HTTP_MULTIPART_FILE_MAX (cstr (buf_filename b)),
                                    part_content_type = snprint HTTP_MULTIPART_FILE_MAX (cstr (buf_content_type b)),
                                    part_data = data_start, part_data_len = data_end\<rparr>
                        in parse_parts junk delim body (data_start + data_end + 2 + length delim)
                             (if hd (buf_name b) \<noteq> NUL then out @ [part] else out))))
      else out)"
  by pat_completeness auto
termination
  by (relation "measure (\<lambda>(junk, delim, body, pos, out). length body - pos)") auto

declare parse_parts.simps [simp del]

definition parse_multipart :: "(nat \<Rightarrow> char list \<times> char list) \<Rightarrow> HttpRequest \<Rightarrow> HttpMultiparts" where
  "parse_multipart junk req =
     (case req_body req of
        None \<Rightarrow> []
      | Some body \<Rightarrow>
          if req_body_len req = 0 then []
          else
            (case http_req_header req (Some ''Content-Type'') of
               None \<Rightarrow> []
             | Some ct \<Rightarrow>
                 let boundary = multipart_boundary (Some ct) 71;
                     delim = ''--'' @ boundary
                 in if boundary = [] then []
                    else if length delim \<le> 2 \<or> length delim \<ge> 74 then []
                    else
                      (case mem_find (take (req_body_len req) body) delim of
                         None \<Rightarrow> []
                       | Some pos \<Rightarrow>
                           parse_parts junk delim (take (req_body_len req) body) (pos + length delim) [])))"

definition http_req_multipart_count :: "HttpRequest \<Rightarrow> nat" where
  "http_req_multipart_count req = length (req_multiparts req)"

definition http_req_multipart_part :: "HttpRequest \<Rightarrow> nat \<Rightarrow> HttpMultipartPart option" where
  "http_req_multipart_part req index =
     (if index \<ge> length (req_multiparts req) then None else Some (req_multiparts req ! index))"

definition http_req_multipart_get :: "HttpRequest \<Rightarrow> string option \<Rightarrow> HttpMultipartPart option" where
  "http_req_multipart_get req name =
     (case name of None \<Rightarrow> None | Some n \<Rightarrow> find (\<lambda>p. part_name p = n) (req_multiparts req))"

section \<open>Parts are slices\<close>

lemma mem_find_Some:
  "mem_find hay needle = Some i \<Longrightarrow>
     i + length needle \<le> length hay \<and> starts_with (drop i hay) needle \<and>
     (\<forall>j < i. \<not> starts_with (drop j hay) needle)"
proof -
  assume a: "mem_find hay needle = Some i"
  then have f: "find_sub hay needle = Some i" by (simp add: mem_find_def split: if_splits)
  have "drop i hay = needle @ drop (i + length needle) hay"
    using find_sub_Some [OF f] by (metis add_leD1 append_eq_conv_conj length_take min.absorb2)
  then show ?thesis using find_sub_Some [OF f] find_sub_first [OF f] starts_with_append by metis
qed

definition part_slice_ok :: "char list \<Rightarrow> string \<Rightarrow> HttpMultipartPart \<Rightarrow> bool" where
  "part_slice_ok body delim p \<longleftrightarrow>
     part_data p + part_data_len p + 2 + length delim \<le> length body \<and>
     starts_with (drop (part_data p + part_data_len p) body) (CRLF @ delim) \<and>
     (\<forall>j < part_data_len p. \<not> starts_with (drop (part_data p + j) body) (CRLF @ delim)) \<and>
     length (part_name p) < HTTP_MULTIPART_NAME_MAX \<and> length (part_filename p) < HTTP_MULTIPART_FILE_MAX \<and>
     length (part_content_type p) < HTTP_MULTIPART_FILE_MAX"

lemma parse_parts_slices:
  "list_all (part_slice_ok body delim) out \<Longrightarrow> length out \<le> HTTP_MAX_MULTIPART_PARTS \<Longrightarrow>
     list_all (part_slice_ok body delim) (parse_parts junk delim body pos out) \<and>
     length (parse_parts junk delim body pos out) \<le> HTTP_MAX_MULTIPART_PARTS"
proof (induction junk delim body pos out rule: parse_parts.induct)
  case (1 junk delim body pos out)
  show ?case
  proof (cases "pos < length body \<and> length out < HTTP_MAX_MULTIPART_PARTS")
    case False
    then show ?thesis using "1.prems" by (auto simp: parse_parts.simps [of junk delim body pos out])
  next
    case go: True
    show ?thesis
    proof (cases "starts_with (drop pos body) ''--'' \<or> \<not> starts_with (drop pos body) CRLF \<or>
        mem_find (drop (pos + 2) body) EOH = None")
      case True
      then show ?thesis using "1.prems" by (auto simp: parse_parts.simps [of junk delim body pos out])
    next
      case False
      then obtain h where h: "mem_find (drop (pos + 2) body) EOH = Some h"
        and f: "\<not> starts_with (drop pos body) ''--''" "\<not> \<not> starts_with (drop pos body) CRLF" by auto
      define ds where "ds = pos + 2 + h + 4"
      define b where "b = parse_part_headers (take (h + 2) (drop (pos + 2) body)) (fst (junk pos)) (snd (junk pos))"
      show ?thesis
      proof (cases "mem_find (drop ds body) (CRLF @ delim)")
        case None
        then show ?thesis
          using "1.prems" f h by (simp add: parse_parts.simps [of junk delim body pos out] ds_def)
      next
        case (Some e)
        define part where "part = \<lparr>part_name = snprint HTTP_MULTIPART_NAME_MAX (cstr (buf_name b)),
            part_filename = snprint HTTP_MULTIPART_FILE_MAX (cstr (buf_filename b)),
            part_content_type = snprint HTTP_MULTIPART_FILE_MAX (cstr (buf_content_type b)),
            part_data = ds, part_data_len = e\<rparr>"
        define out' where "out' = (if hd (buf_name b) \<noteq> NUL then out @ [part] else out)"
        have "part_slice_ok body delim part"
          using mem_find_Some [OF Some]
          by (auto simp: part_slice_ok_def part_def snprint_def limit_defs add.commute add.left_commute)
        then have inv: "list_all (part_slice_ok body delim) out'" "length out' \<le> HTTP_MAX_MULTIPART_PARTS"
          using "1.prems" go by (auto simp: out'_def)
        have "parse_parts junk delim body pos out = parse_parts junk delim body (ds + e + 2 + length delim) out'"
          using go f h Some
          by (simp add: parse_parts.simps [of junk delim body pos out] ds_def out'_def part_def b_def Let_def)
        then show ?thesis
          using "1.IH" [OF go f h ds_def b_def Some part_def] inv by (simp add: out'_def)
      qed
    qed
  qed
qed

section \<open>A rendered form is read back\<close>

definition printable :: "string \<Rightarrow> bool" where
  "printable s \<longleftrightarrow> (\<forall>c \<in> set s. 0x20 \<le> byte c \<and> byte c \<le> 0x7e \<and> c \<noteq> DQUOTE)"

lemma printable_Cons: "printable (c # s) \<longleftrightarrow> 0x20 \<le> byte c \<and> byte c \<le> 0x7e \<and> c \<noteq> DQUOTE \<and> printable s"
  by (auto simp: printable_def)

lemma printable_plain: "printable s \<Longrightarrow> CR \<notin> set s \<and> is_cstr s"
proof -
  assume p: "printable s"
  have "\<not> 0x20 \<le> byte CR" "\<not> 0x20 \<le> byte NUL" by simp_all
  with p show ?thesis unfolding printable_def is_cstr_def by blast
qed

lemma list_update_fill:
  "m < length out \<Longrightarrow> take (Suc m) (out[m := c]) = take m out @ [c] \<and> drop (Suc m + k) (out[m := c]) = drop (Suc m + k) out"
  by (simp add: take_Suc_conv_app_nth)

lemma attr_copy_fill:
  "printable s \<Longrightarrow> m + length s < length out \<Longrightarrow>
     attr_copy True (s @ DQUOTE # r) m out = Inr (DQUOTE # r, m + length s, take m out @ s @ drop (m + length s) out)"
proof (induction s arbitrary: m out)
  case Nil
  then show ?case by simp
next
  case (Cons c s)
  then show ?case
    using list_update_fill [of m out c "length s"] by (simp add: printable_Cons not_less not_le)
qed

text \<open>A name that does not fit: the copy stops in the middle and leaves what it has written.\<close>

lemma attr_copy_overflow:
  "printable s \<Longrightarrow> m < length out \<Longrightarrow> length out \<le> m + length s \<Longrightarrow>
     attr_copy True (s @ r) m out = Inl (take m out @ take (length out - 1 - m) s @ [last out])"
proof (induction s arbitrary: m out)
  case (Cons c s)
  show ?case
  proof (cases "m + 1 \<ge> length out")
    case True
    then have m: "m = length out - 1" using Cons.prems(2) by simp
    have "out \<noteq> []" using Cons.prems(2) by auto
    then have "take (length out - 1) out @ [last out] = out" by (metis append_butlast_last_id butlast_conv_take)
    then show ?thesis using Cons.prems True m by (simp add: printable_Cons)
  next
    case False
    have "out \<noteq> []" using Cons.prems(2) by auto
    then have "length (out[m := c]) = length out" and "last (out[m := c]) = last out"
      using False by (auto simp: last_list_update)
    moreover have "take (Suc m) (out[m := c]) = take m out @ [c]"
      using Cons.prems(2) by (simp add: take_Suc_conv_app_nth)
    moreover have "attr_copy True (s @ r) (m + 1) (out[m := c]) =
        Inl (take (m + 1) (out[m := c]) @ take (length (out[m := c]) - 1 - (m + 1)) s @ [last (out[m := c])])"
      using Cons.IH [of "m + 1" "out[m := c]"] Cons.prems False by (simp add: printable_Cons)
    moreover have "length out - 1 - m = Suc (length out - 1 - (m + 1))" using False by simp
    ultimately show ?thesis using Cons.prems False by (simp add: printable_Cons)
  qed
qed simp

definition name_line :: "string \<Rightarrow> string" where
  "name_line s = ''Content-Disposition: form-data; name='' @ DQUOTE # s @ [DQUOTE]"

lemma disposition_name: "disposition_attr (name_line s) ''name='' out = attr_value (DQUOTE # s @ [DQUOTE]) (out[0 := NUL])"
  unfolding disposition_attr_def name_line_def
  by (simp add: attr_scan.simps strncaseeq_def to_lower_def is_upper_def)

lemma disposition_name_fits:
  assumes "printable s" and "length s < length out"
  shows "cstr (disposition_attr (name_line s) ''name='' out) = s"
    and "s \<noteq> [] \<Longrightarrow> hd (disposition_attr (name_line s) ''name='' out) \<noteq> NUL"
proof -
  have r: "disposition_attr (name_line s) ''name='' out = s @ NUL # drop (Suc (length s)) (out[0 := NUL])"
    using attr_copy_fill [OF assms(1), of 0 "out[0 := NUL]" "[]"] assms(2)
    by (simp add: disposition_name attr_value_def list_update_append upd_conv_take_nth_drop
        Cons_nth_drop_Suc [symmetric])
  have "is_cstr s" using printable_plain assms(1) by blast
  then show "cstr (disposition_attr (name_line s) ''name='' out) = s"
    unfolding r cstr_def is_cstr_def by (rule span_neq)
  show "s \<noteq> [] \<Longrightarrow> hd (disposition_attr (name_line s) ''name='' out) \<noteq> NUL"
    unfolding r using \<open>is_cstr s\<close> by (cases s) auto
qed

definition render_part :: "string \<Rightarrow> string \<times> char list \<Rightarrow> char list" where
  "render_part delim p = CRLF @ name_line (fst p) @ EOH @ snd p @ CRLF @ delim"

text \<open>The data of a part must not contain its delimiter.\<close>

definition part_ok :: "string \<Rightarrow> string \<times> char list \<Rightarrow> bool" where
  "part_ok delim p \<longleftrightarrow>
     printable (fst p) \<and> fst p \<noteq> [] \<and> length (fst p) < HTTP_MULTIPART_NAME_MAX \<and>
     find_sub (snd p @ CRLF @ delim) (CRLF @ delim) = Some (length (snd p))"

lemma find_sub_head: "c \<notin> set l \<Longrightarrow> find_sub (l @ c # p @ r) (c # p) = Some (length l)"
proof (induction l)
  case Nil
  show ?case by (simp add: find_sub_Cons starts_with_def)
next
  case (Cons d l)
  then have "d \<noteq> c" by auto
  then show ?case using Cons by (simp add: find_sub_Cons starts_with_def)
qed

lemma find_sub_more:
  "find_sub s pat = Some i \<Longrightarrow> find_sub (s @ t) pat = Some i"
proof (induction s arbitrary: i)
  case Nil
  then have "pat = []" "i = 0" by (auto simp: find_sub_Nil split: if_splits)
  then show ?case by (cases t) (simp_all add: find_sub_Nil find_sub_Cons starts_with_def)
next
  case (Cons c s)
  show ?case
  proof (cases "starts_with (c # s) pat")
    case True
    then have "starts_with ((c # s) @ t) pat" unfolding starts_with_iff by (metis append_assoc)
    then show ?thesis using Cons.prems True by (simp add: find_sub_Cons)
  next
    case False
    with Cons.prems obtain j where j: "find_sub s pat = Some j" "i = Suc j"
      by (auto simp: find_sub_Cons)
    have "length pat \<le> length (c # s)"
      using find_sub_Some [OF j(1)] by simp
    then have "\<not> starts_with ((c # s) @ t) pat"
      using False unfolding starts_with_def take_append by simp
    then show ?thesis using Cons.IH [OF j(1)] j(2) by (simp add: find_sub_Cons)
  qed
qed

lemma name_line_plain: "printable s \<Longrightarrow> CR \<notin> set (name_line s)"
  using printable_plain by (simp add: name_line_def)

lemma part_header_lines_name:
  assumes "printable s"
  shows "buf_name (part_header_lines (name_line s @ CRLF) b) = disposition_attr (name_line s) ''name='' (buf_name b)"
proof -
  have "find_sub (name_line s @ CR # [LF] @ []) (CR # [LF]) = Some (length (name_line s))"
    by (rule find_sub_head [OF name_line_plain [OF assms]])
  then have m: "mem_find (name_line s @ CRLF) CRLF = Some (length (name_line s))" by (simp add: mem_find_def)
  have "part_header_lines (name_line s @ CRLF) b = part_header_line (name_line s) b"
    by (simp add: part_header_lines.simps [of "name_line s @ CRLF"] m part_header_lines.simps [of "[]"])
  moreover have "length (name_line s) > 20 \<and> strncaseeq (name_line s) ''Content-Disposition:'' 20"
    by (simp add: name_line_def strncaseeq_def)
  ultimately show ?thesis by (simp add: part_header_line_def)
qed

definition junk_ok :: "(nat \<Rightarrow> char list \<times> char list) \<Rightarrow> bool" where
  "junk_ok junk \<longleftrightarrow> (\<forall>p. length (fst (junk p)) = HTTP_MULTIPART_NAME_MAX)"

lemma parse_parts_step:
  assumes "part_ok delim (s, d)" and "junk_ok junk" and "length out < HTTP_MAX_MULTIPART_PARTS"
    and "body = pre @ render_part delim (s, d) @ post"
  shows "\<exists>part. parse_parts junk delim body (length pre) out =
       parse_parts junk delim body (length (pre @ render_part delim (s, d))) (out @ [part]) \<and>
     part_name part = s \<and> take (part_data_len part) (drop (part_data part) body) = d"
proof -
  have ok: "printable s" "s \<noteq> []" "length s < HTTP_MULTIPART_NAME_MAX"
    "find_sub (d @ CRLF @ delim) (CRLF @ delim) = Some (length d)"
    using assms(1) by (auto simp: part_ok_def)
  define line where "line = name_line s"
  define tail where "tail = d @ CRLF @ delim @ post"
  have rest: "drop (length pre) body = CRLF @ line @ EOH @ tail"
    using assms(4) by (simp add: render_part_def line_def tail_def)
  have rest2: "drop (length pre + 2) body = line @ EOH @ tail"
    using rest by (metis append_eq_conv_conj drop_drop add.commute length_Cons list.size(3) numeral_2_eq_2)
  have "find_sub (line @ CR # [LF, CR, LF] @ tail) (CR # [LF, CR, LF]) = Some (length line)"
    by (rule find_sub_head) (simp add: line_def name_line_plain [OF ok(1)])
  then have eoh: "mem_find (drop (length pre + 2) body) EOH = Some (length line)"
    unfolding rest2 by (simp add: mem_find_def EOH_def)
  define ds where "ds = length pre + 2 + length line + 4"
  have ds: "drop ds body = tail"
  proof -
    have "drop ds body = drop (length line + 4) (drop (length pre + 2) body)"
      by (simp add: ds_def add.commute add.left_commute)
    then show ?thesis unfolding rest2 by (simp add: EOH_def)
  qed
  have "find_sub ((d @ CRLF @ delim) @ post) (CRLF @ delim) = Some (length d)"
    using find_sub_more [OF ok(4)] .
  then have fd: "mem_find (drop ds body) (CRLF @ delim) = Some (length d)"
    unfolding ds by (simp add: mem_find_def tail_def)
  have reg: "take (length line + 2) (drop (length pre + 2) body) = line @ CRLF"
    unfolding rest2 by (simp add: EOH_def)
  define b where "b = parse_part_headers (line @ CRLF) (fst (junk (length pre))) (snd (junk (length pre)))"
  have nb: "buf_name b = disposition_attr line ''name='' ((fst (junk (length pre)))[0 := NUL])"
    using part_header_lines_name [OF ok(1)] by (simp add: b_def parse_part_headers_def line_def)
  have len: "length s < length ((fst (junk (length pre)))[0 := NUL])"
    using assms(2) ok(3) by (simp add: junk_ok_def)
  have nm: "cstr (buf_name b) = s" "hd (buf_name b) \<noteq> NUL"
    unfolding nb line_def using disposition_name_fits [OF ok(1) len] ok(2) by blast+
  define part where "part = \<lparr>part_name = snprint HTTP_MULTIPART_NAME_MAX (cstr (buf_name b)),
      part_filename = snprint HTTP_MULTIPART_FILE_MAX (cstr (buf_filename b)),
      part_content_type = snprint HTTP_MULTIPART_FILE_MAX (cstr (buf_content_type b)),
      part_data = ds, part_data_len = length d\<rparr>"
  have go: "length pre < length body \<and> length out < HTTP_MAX_MULTIPART_PARTS"
    using assms(3,4) by (simp add: render_part_def)
  have st: "\<not> starts_with (drop (length pre) body) ''--''" "starts_with (drop (length pre) body) CRLF"
    unfolding rest by (simp_all add: starts_with_def)
  have "parse_parts junk delim body (length pre) out =
      parse_parts junk delim body (ds + length d + 2 + length delim) (out @ [part])"
    unfolding parse_parts.simps [of junk delim body "length pre" out] Let_def eoh option.case reg
      ds_def [symmetric] b_def [symmetric] fd part_def [symmetric]
    using go st nm(2) by (simp only: if_True if_False simp_thms)
  moreover have "ds + length d + 2 + length delim = length (pre @ render_part delim (s, d))"
    by (simp add: ds_def render_part_def line_def EOH_def)
  moreover have "part_name part = s" using nm(1) ok(3) by (simp add: part_def)
  moreover have "take (part_data_len part) (drop (part_data part) body) = d"
    using ds by (simp add: part_def tail_def)
  ultimately show ?thesis by metis
qed

lemma parse_parts_render:
  assumes "list_all (part_ok delim) ps" and "junk_ok junk" and "length out + length ps \<le> HTTP_MAX_MULTIPART_PARTS"
    and "body = pre @ concat (map (render_part delim) ps) @ ''--'' @ CRLF"
  shows "\<exists>qs. parse_parts junk delim body (length pre) out = out @ qs \<and>
     map (\<lambda>p. (part_name p, take (part_data_len p) (drop (part_data p) body))) qs = ps"
  using assms(1,3,4)
proof (induction ps arbitrary: pre out)
  case Nil
  then have "starts_with (drop (length pre) body) ''--''" by (simp add: starts_with_def)
  then show ?case by (intro exI [of _ "[]"]) (simp add: parse_parts.simps [of junk delim body "length pre" out])
next
  case (Cons p ps)
  obtain s d where p: "p = (s, d)" by (cases p)
  have ok: "part_ok delim (s, d)" and room: "length out < HTTP_MAX_MULTIPART_PARTS"
    and body: "body = pre @ render_part delim (s, d) @ (concat (map (render_part delim) ps) @ ''--'' @ CRLF)"
    using Cons.prems p by simp_all
  obtain part where step: "parse_parts junk delim body (length pre) out =
      parse_parts junk delim body (length (pre @ render_part delim (s, d))) (out @ [part])"
    and part: "part_name part = s" "take (part_data_len part) (drop (part_data part) body) = d"
    using parse_parts_step [OF ok assms(2) room body] by blast
  obtain qs where "parse_parts junk delim body (length (pre @ render_part delim (s, d))) (out @ [part]) = (out @ [part]) @ qs"
    "map (\<lambda>p. (part_name p, take (part_data_len p) (drop (part_data p) body))) qs = ps"
    using Cons.IH [of "out @ [part]" "pre @ render_part delim (s, d)"] Cons.prems(1,2) body by auto
  then show ?case using step part p by (intro exI [of _ "part # qs"]) simp
qed

lemma boundary_copy_all:
  "printable b \<Longrightarrow> CHR '';'' \<notin> set b \<Longrightarrow> n + length b < out_size \<Longrightarrow> boundary_copy b n out_size = Some b"
  by (induction b arbitrary: n) (auto simp: printable_Cons not_less not_le)

lemma multipart_boundary_plain:
  assumes "printable b" and "CHR '';'' \<notin> set b" and "length b \<le> 70"
  shows "multipart_boundary (Some (''multipart/form-data; boundary='' @ b)) 71 = b"
proof -
  have q: "\<not> (b \<noteq> [] \<and> hd b = DQUOTE)" using assms(1) by (cases b) (simp_all add: printable_Cons)
  have "boundary_scan (''boundary='' @ b) 71 = b"
    using boundary_copy_all [OF assms(1,2), of 0 71] assms(3) q
    by (auto simp: strncaseeq_def Let_def)
  then show ?thesis
    by (simp add: multipart_boundary_def strncaseeq_def to_lower_def is_upper_def)
qed

section \<open>Properties\<close>

text \<open>Whatever the body holds, at most 16 parts are stored, each part's data is a slice inside the
  body that is followed by the delimiter and does not contain it, and the copied name, filename and
  content type fit their fields.\<close>

theorem multipart_parts_are_slices:
  assumes "req_body req = Some body" and "req_body_len req = length body"
    and "http_req_header req (Some ''Content-Type'') = Some ct"
  shows "list_all (part_slice_ok body (''--'' @ multipart_boundary (Some ct) 71)) (parse_multipart junk req) \<and>
    length (parse_multipart junk req) \<le> HTTP_MAX_MULTIPART_PARTS"
  using assms parse_parts_slices [of body "''--'' @ multipart_boundary (Some ct) 71" "[]" junk]
  by (simp add: parse_multipart_def Let_def split: option.split)

theorem multipart_parts_are_slices_witness:
  "length (parse_multipart (\<lambda>p. (replicate 32 NUL, replicate 64 NUL))
     (empty_request\<lparr>req_body := Some ''--b--'', req_body_len := 5,
        req_headers := \<lparr>items = [(''Content-Type'', ''multipart/form-data; boundary=b'')], capacity = 8\<rparr>\<rparr>)) \<le> HTTP_MAX_MULTIPART_PARTS"
  using multipart_parts_are_slices [of "empty_request\<lparr>req_body := Some ''--b--'', req_body_len := 5,
        req_headers := \<lparr>items = [(''Content-Type'', ''multipart/form-data; boundary=b'')], capacity = 8\<rparr>\<rparr>"
      "''--b--''" "''multipart/form-data; boundary=b''" "\<lambda>p. (replicate 32 NUL, replicate 64 NUL)"]
  by (simp add: http_req_header_def)

text \<open>C37: a rendered form of up to 16 named parts, with any data that does not contain the delimiter, is
  read back: the same names in the same order, each with exactly its data.\<close>

theorem multipart_roundtrip:
  assumes "printable b" and "CHR '';'' \<notin> set b" and "b \<noteq> []" and "length b \<le> 70"
    and "list_all (part_ok (''--'' @ b)) ps" and "length ps \<le> HTTP_MAX_MULTIPART_PARTS" and "junk_ok junk"
    and "http_req_header req (Some ''Content-Type'') = Some (''multipart/form-data; boundary='' @ b)"
    and "req_body req = Some body" and "req_body_len req = length body"
    and "body = (''--'' @ b) @ concat (map (render_part (''--'' @ b)) ps) @ ''--'' @ CRLF"
  shows "map (\<lambda>p. (part_name p, take (part_data_len p) (drop (part_data p) body))) (parse_multipart junk req) = ps"
proof -
  let ?d = "''--'' @ b"
  have "find_sub body ?d = Some 0"
    using assms(11) by (simp add: find_sub_Cons starts_with_def)
  then have m: "mem_find body ?d = Some 0" using assms(11) by (simp add: mem_find_def)
  obtain qs where "parse_parts junk ?d body (length ?d) [] = qs"
    "map (\<lambda>p. (part_name p, take (part_data_len p) (drop (part_data p) body))) qs = ps"
    using parse_parts_render [OF assms(5,7), of "[]" body ?d] assms(6,11) by auto
  moreover have "parse_multipart junk req = parse_parts junk ?d body (length ?d) []"
    using assms(3,4,8-11) m multipart_boundary_plain [OF assms(1,2,4)] by (simp add: parse_multipart_def Let_def)
  ultimately show ?thesis by simp
qed

theorem multipart_roundtrip_witness:
  "map (\<lambda>p. (part_name p, take (part_data_len p) (drop (part_data p)
         ((''--'' @ ''X'') @ concat (map (render_part (''--'' @ ''X'')) [(''f'', [CR, NUL])]) @ ''--'' @ CRLF))))
     (parse_multipart (\<lambda>p. (replicate 32 NUL, replicate 64 NUL))
       (empty_request\<lparr>
          req_body := Some ((''--'' @ ''X'') @ concat (map (render_part (''--'' @ ''X'')) [(''f'', [CR, NUL])]) @ ''--'' @ CRLF),
          req_body_len := length ((''--'' @ ''X'') @ concat (map (render_part (''--'' @ ''X'')) [(''f'', [CR, NUL])]) @ ''--'' @ CRLF),
          req_headers := \<lparr>items = [(''Content-Type'', ''multipart/form-data; boundary=X'')], capacity = 8\<rparr>\<rparr>)) =
   [(''f'', [CR, NUL])]"
proof -
  let ?body = "(''--'' @ ''X'') @ concat (map (render_part (''--'' @ ''X'')) [(''f'', [CR, NUL])]) @ ''--'' @ CRLF"
  let ?req = "empty_request\<lparr>req_body := Some ?body, req_body_len := length ?body,
      req_headers := \<lparr>items = [(''Content-Type'', ''multipart/form-data; boundary=X'')], capacity = 8\<rparr>\<rparr>"
  have "list_all (part_ok (''--'' @ ''X'')) [(''f'', [CR, NUL])]"
    by (simp add: part_ok_def printable_def limit_defs find_sub_Cons find_sub_Nil starts_with_def)
  moreover have "http_req_header ?req (Some ''Content-Type'') = Some (''multipart/form-data; boundary='' @ ''X'')"
    by (simp add: http_req_header_def)
  ultimately show ?thesis
    by (intro multipart_roundtrip [of "''X''"]) (simp_all add: printable_def junk_ok_def limit_defs)
qed

text \<open>A quoted name of 32 characters or more is not rejected: the copy is cut at 31 characters, the
  last byte of the array keeps its former content instead of a terminator, and the part is stored
  under the cut name.\<close>

theorem oversized_part_name_is_cut:
  assumes "printable s" and "length out = HTTP_MULTIPART_NAME_MAX" and "HTTP_MULTIPART_NAME_MAX \<le> length s"
  shows "disposition_attr (name_line s) ''name='' out = take 31 s @ [last out]"
proof -
  have "last (out[0 := NUL]) = last out" using assms(2) by (subst last_list_update) (auto simp: limit_defs)
  moreover have "attr_copy True (s @ [DQUOTE]) 0 (out[0 := NUL]) =
      Inl (take 0 (out[0 := NUL]) @ take (length (out[0 := NUL]) - 1 - 0) s @ [last (out[0 := NUL])])"
    using assms by (intro attr_copy_overflow) (auto simp: limit_defs)
  ultimately show ?thesis
    using assms(2) by (simp add: disposition_name attr_value_def limit_defs)
qed

theorem oversized_part_name_is_cut_witness:
  "disposition_attr (name_line (replicate 40 (CHR ''a''))) ''name='' (replicate 32 (CHR ''z'')) =
     replicate 31 (CHR ''a'') @ ''z''"
  using oversized_part_name_is_cut [of "replicate 40 (CHR ''a'')" "replicate 32 (CHR ''z'')"]
  by (simp add: printable_def limit_defs)

end
