(* ===== verification/Response.thy ===== *)
theory Response
  imports Headers
begin

text \<open>
  Building and sending a response: locals, the response helpers, the error channel, the default
  headers, and \<^verbatim>\<open>send_res\<close> with file streaming. The lemmas show that what goes over the wire is a
  status line, whole field lines and an empty line, followed by exactly the announced number of
  body bytes, and that the helpers change what they promise and nothing else.
\<close>

section \<open>Locals\<close>

fun overwrite_local :: "HttpLocals \<Rightarrow> string \<Rightarrow> string \<Rightarrow> HttpLocals option" where
  "overwrite_local [] key value = None"
| "overwrite_local (l # ls) key value =
     (if fst l = key then Some ((fst l, snprint HTTP_LOCAL_VALUE_MAX value) # ls)
      else map_option ((#) l) (overwrite_local ls key value))"

definition http_set_local ::
  "HttpResponse \<Rightarrow> string option \<Rightarrow> string option \<Rightarrow> HttpSetLocalResult \<times> HttpResponse" where
  "http_set_local res key value =
     (case (key, value) of
        (Some k, Some v) \<Rightarrow>
          if k = [] then (HTTP_SET_LOCAL_ERROR, res)
          else if length k \<ge> HTTP_LOCAL_KEY_MAX \<or> length v \<ge> HTTP_LOCAL_VALUE_MAX
          then (HTTP_SET_LOCAL_ERROR, res)
          else
            (case overwrite_local (res_locals res) k v of
               Some ls \<Rightarrow> (HTTP_SET_LOCAL_OK, res\<lparr>res_locals := ls\<rparr>)
             | None \<Rightarrow>
                 if length (res_locals res) \<ge> HTTP_MAX_LOCALS then (HTTP_SET_LOCAL_ERROR, res)
                 else (HTTP_SET_LOCAL_OK,
                       res\<lparr>res_locals := res_locals res @
                         [(snprint HTTP_LOCAL_KEY_MAX k, snprint HTTP_LOCAL_VALUE_MAX v)]\<rparr>))
      | _ \<Rightarrow> (HTTP_SET_LOCAL_ERROR, res))"

definition http_res_local :: "HttpResponse \<Rightarrow> string option \<Rightarrow> string option" where
  "http_res_local res key =
     (case key of None \<Rightarrow> None | Some k \<Rightarrow> lookup_first (=) (res_locals res) k)"

section \<open>Response helpers\<close>

text \<open>The header update of the helpers, with \<^verbatim>\<open>http_set_header\<close>'s verdict.\<close>

definition set_res_header ::
  "allocator \<Rightarrow> HttpResponse \<Rightarrow> string \<Rightarrow> string \<Rightarrow> HttpSetHeaderResult \<times> HttpResponse" where
  "set_res_header mem res key value =
     (case http_set_header mem (res_headers res) (Some key) (Some value) of
        (r, hs) \<Rightarrow> (r, res\<lparr>res_headers := hs\<rparr>))"

definition http_res_json ::
  "allocator \<Rightarrow> HttpResponse \<Rightarrow> int \<Rightarrow> string option \<Rightarrow> int \<times> HttpResponse" where
  "http_res_json mem res status body =
     (case body of
        None \<Rightarrow> (- 1, res)
      | Some b \<Rightarrow>
          if \<not> is_valid_status_code status then (- 1, res)
          else if length b \<ge> RES_BODY_MAX then (- 1, res)
          else
            (case set_res_header mem res ''Content-Type'' ''application/json'' of
               (HTTP_SET_HEADER_ERROR, res') \<Rightarrow> (- 1, res')
             | (HTTP_SET_HEADER_OK, res') \<Rightarrow> (0, res'\<lparr>res_body := b, res_status := status\<rparr>)))"

text \<open>The body is a buffer, or NULL, with the number of bytes to take from it.\<close>

definition http_res_body ::
  "allocator \<Rightarrow> HttpResponse \<Rightarrow> int \<Rightarrow> string option \<Rightarrow> char list option \<Rightarrow> nat \<Rightarrow> int \<times> HttpResponse" where
  "http_res_body mem res status content_type body body_len =
     (case content_type of
        None \<Rightarrow> (- 1, res)
      | Some ct \<Rightarrow>
          if (body = None \<and> body_len > 0) \<or> \<not> is_valid_status_code status \<or> ct = [] then (- 1, res)
          else
            (case set_res_header mem res ''Content-Type'' ct of
               (HTTP_SET_HEADER_ERROR, res') \<Rightarrow> (- 1, res')
             | (HTTP_SET_HEADER_OK, res') \<Rightarrow>
                 let b = take body_len (case body of None \<Rightarrow> [] | Some b \<Rightarrow> b)
                 in if body_len < RES_BODY_MAX
                    then (0, res'\<lparr>res_body := b, dyn_body := None, res_status := status\<rparr>)
                    else if \<not> mem body_len then (- 1, res')
                    else (0, res'\<lparr>dyn_body := Some b, res_body := [], res_status := status\<rparr>)))"

definition http_res_redirect ::
  "allocator \<Rightarrow> HttpResponse \<Rightarrow> int \<Rightarrow> string option \<Rightarrow> int \<times> HttpResponse" where
  "http_res_redirect mem res status location =
     (case location of
        None \<Rightarrow> (- 1, res)
      | Some l \<Rightarrow>
          if status < 300 \<or> status > 399 then (- 1, res)
          else
            (case set_res_header mem res ''Location'' l of
               (HTTP_SET_HEADER_ERROR, res') \<Rightarrow> (- 1, res')
             | (HTTP_SET_HEADER_OK, res') \<Rightarrow> (0, res'\<lparr>res_status := status, res_body := []\<rparr>)))"

text \<open>The cookie buffer has 512 bytes; each part is appended only if it fits.\<close>

definition cookie_append :: "string option \<Rightarrow> bool \<Rightarrow> string \<Rightarrow> string option" where
  "cookie_append cookie wanted part =
     (case cookie of
        None \<Rightarrow> None
      | Some c \<Rightarrow>
          if \<not> wanted then Some c
          else if length c + length part \<ge> 512 then None else Some (c @ part))"

definition cookie_text :: "string \<Rightarrow> string \<Rightarrow> nat \<Rightarrow> bool \<Rightarrow> string option" where
  "cookie_text name value max_age http_only =
     (let base = name @ ''='' @ value @ ''; Path=/'';
          c0 = (if length base \<ge> 512 then None else Some base);
          c1 = cookie_append c0 (max_age > 0) (''; Max-Age='' @ show_nat max_age)
      in cookie_append c1 http_only ''; HttpOnly'')"

definition http_res_cookie ::
  "allocator \<Rightarrow> HttpResponse \<Rightarrow> string option \<Rightarrow> string option \<Rightarrow> nat \<Rightarrow> bool \<Rightarrow> int \<times> HttpResponse" where
  "http_res_cookie mem res name value max_age http_only =
     (case (name, value) of
        (Some n, Some v) \<Rightarrow>
          if n = [] then (- 1, res)
          else if \<exists>c \<in> set n. c = CHR '';'' \<or> c = CHR ''='' \<or> c = SP \<or> c = TAB then (- 1, res)
          else if CHR '';'' \<in> set v then (- 1, res)
          else
            (case cookie_text n v max_age http_only of
               None \<Rightarrow> (- 1, res)
             | Some cookie \<Rightarrow>
                 (case set_res_header mem res ''Set-Cookie'' cookie of
                    (r, res') \<Rightarrow> (if r = HTTP_SET_HEADER_OK then 0 else - 1, res')))
      | _ \<Rightarrow> (- 1, res))"

section \<open>The error channel\<close>

definition http_error :: "HttpResponse \<Rightarrow> int \<Rightarrow> string option \<Rightarrow> HttpResponse" where
  "http_error res status message =
     (let st = (if \<not> is_valid_status_code status \<or> status < 400 then 500 else status)
      in res\<lparr>res_status := st, res_error := True, dyn_body := None,
             error_message := snprint HTTP_ERROR_MESSAGE_MAX
               (case message of Some m \<Rightarrow> m | None \<Rightarrow> status_text st)\<rparr>)"

definition set_protocol_error :: "HttpResponse \<Rightarrow> int \<Rightarrow> HttpResponse" where
  "set_protocol_error res status = res\<lparr>res_status := status, res_error := True\<rparr>"

section \<open>Default headers\<close>

text \<open>\<^verbatim>\<open>struct tm\<close> as \<^verbatim>\<open>gmtime_r\<close> fills it; the clock is an input.\<close>

record tm =
  tm_wday :: int
  tm_mday :: int
  tm_mon :: int
  tm_year :: int
  tm_hour :: int
  tm_min :: int
  tm_sec :: int

text \<open>The conversion \<^verbatim>\<open>%0wd\<close>.\<close>

definition show_pad :: "nat \<Rightarrow> int \<Rightarrow> string" where
  "show_pad w i =
     (let ds = show_nat (nat \<bar>i\<bar>); sign = (if i < 0 then ''-'' else [])
      in sign @ replicate (w - length sign - length ds) (CHR ''0'') @ ds)"

definition day_names :: "string list" where
  "day_names = [''Sun'', ''Mon'', ''Tue'', ''Wed'', ''Thu'', ''Fri'', ''Sat'']"

definition month_names :: "string list" where
  "month_names = [''Jan'', ''Feb'', ''Mar'', ''Apr'', ''May'', ''Jun'', ''Jul'', ''Aug'', ''Sep'',
                  ''Oct'', ''Nov'', ''Dec'']"

definition format_http_date :: "nat \<Rightarrow> tm \<Rightarrow> string" where
  "format_http_date n gt =
     (let wday = (if tm_wday gt \<ge> 0 \<and> tm_wday gt \<le> 6 then nat (tm_wday gt) else 0);
          mon = (if tm_mon gt \<ge> 0 \<and> tm_mon gt \<le> 11 then nat (tm_mon gt) else 0)
      in snprint n (day_names ! wday @ '', '' @ show_pad 2 (tm_mday gt) @ '' '' @ month_names ! mon @ '' '' @
           show_pad 4 (1900 + tm_year gt) @ '' '' @ show_pad 2 (tm_hour gt) @ '':'' @
           show_pad 2 (tm_min gt) @ '':'' @ show_pad 2 (tm_sec gt) @ '' GMT''))"

definition C_HTTP_VERSION :: string where "C_HTTP_VERSION = ''0.9.0''"

definition apply_default_headers ::
  "allocator \<Rightarrow> tm \<Rightarrow> string \<Rightarrow> HttpHeaders \<Rightarrow> bool \<Rightarrow> HttpHeaders" where
  "apply_default_headers mem now name hs keep_alive =
     (let put = (\<lambda>h k v. snd (apply_header mem h k v));
          h1 = put hs ''Date'' (format_http_date 64 now);
          h2 = put h1 ''Connection'' (if keep_alive then ''keep-alive'' else ''close'');
          server_name = name @ ''/'' @ C_HTTP_VERSION;
          h3 = (if length server_name < 64 then put h2 ''Server'' server_name else h2);
          h4 = put h3 ''Strict-Transport-Security'' ''max-age=31536000; includeSubDomains'';
          h5 = put h4 ''X-Content-Type-Options'' ''nosniff'';
          h6 = put h5 ''X-Frame-Options'' ''SAMEORIGIN'';
          h7 = put h6 ''Content-Security-Policy'' (''default-src '' @ [CHR 0x27] @ ''self'' @ [CHR 0x27]);
          h8 = put h7 ''Referer-Policy'' ''strict-origin-when-cross-origin'';
          h9 = put h8 ''Permissions-Policy'' ''geolocation=(), camera=(), microphone=()''
      in put h9 ''Vary'' ''Accept-Encoding'')"

section \<open>Files\<close>

text \<open>
  A file as \<^verbatim>\<open>open\<close> and \<^verbatim>\<open>fstat\<close> see it: the size that \<^verbatim>\<open>fstat\<close> reports and the bytes that later
  reads deliver, which are fewer if the file shrank in between.
\<close>

record file_node =
  is_regular :: bool
  st_size :: nat
  file_bytes :: "char list"

type_synonym file_system = "string \<Rightarrow> file_node option"

definition open_regular_file :: "file_system \<Rightarrow> string \<Rightarrow> file_node option" where
  "open_regular_file fs path =
     (case fs path of None \<Rightarrow> None | Some f \<Rightarrow> if is_regular f then Some f else None)"

text \<open>The conversion from \<^verbatim>\<open>size_t\<close> to the signed 64-bit \<^verbatim>\<open>off_t\<close>.\<close>

definition off_t :: "nat \<Rightarrow> int" where
  "off_t n = (let m = int n mod 2 ^ 64 in if m < 2 ^ 63 then m else m - 2 ^ 64)"

text \<open>
  The \<^verbatim>\<open>sendfile\<close> loop of the Linux build: \<open>left\<close> is the file from the current position on,
  \<open>remaining\<close> the number of bytes still to be sent.
\<close>

function send_fd_loop :: "socket \<Rightarrow> char list \<Rightarrow> nat \<Rightarrow> int \<times> socket" where
  "send_fd_loop s left remaining =
     (if remaining = 0 then (0, s)
      else
        let avail = take (min remaining 0x7ffff000) left
        in if avail = [] then (- 1, s)
           else
             (case sends s of
                [] \<Rightarrow> send_fd_loop (s\<lparr>outbox := outbox s @ avail\<rparr>) (drop (length avail) left)
                        (remaining - length avail)
              | STake k # es \<Rightarrow>
                  if k = 0 then (- 1, s\<lparr>sends := es\<rparr>)
                  else send_fd_loop (s\<lparr>sends := es, outbox := outbox s @ take k avail\<rparr>)
                         (drop (length (take k avail)) left) (remaining - length (take k avail))
              | SEintr # es \<Rightarrow> send_fd_loop (s\<lparr>sends := es\<rparr>) left remaining
              | SError # es \<Rightarrow> (- 1, s\<lparr>sends := es\<rparr>)))"
  by pat_completeness auto
termination
  by (relation "measure (\<lambda>(s, left, remaining). length (sends s) + remaining)") auto

declare send_fd_loop.simps [simp del]

text \<open>The descriptor is \<^const>\<open>None\<close> for -1, on which every \<^verbatim>\<open>sendfile\<close> fails.\<close>

definition send_fd :: "file_node option \<Rightarrow> int \<Rightarrow> int \<Rightarrow> socket \<Rightarrow> int \<times> socket" where
  "send_fd fd start n s =
     (case fd of
        None \<Rightarrow> (if start > 0 \<or> n > 0 then - 1 else 0, s)
      | Some f \<Rightarrow> send_fd_loop s (drop (nat start) (file_bytes f)) (nat n))"

section \<open>Sending\<close>

text \<open>A sequence of \<^verbatim>\<open>send_all\<close> calls, left by \<^verbatim>\<open>goto out\<close> at the first failure.\<close>

fun send_parts :: "socket \<Rightarrow> char list list \<Rightarrow> bool \<times> socket" where
  "send_parts s [] = (True, s)"
| "send_parts s (c # cs) =
     (case send_all s c of (rc, s') \<Rightarrow> if rc \<noteq> 0 then (False, s') else send_parts s' cs)"

definition no_body_status :: "int \<Rightarrow> bool" where
  "no_body_status status \<longleftrightarrow> (status \<ge> 100 \<and> status < 200) \<or> status = 204 \<or> status = 205 \<or> status = 304"

definition header_line :: "HttpHeader \<Rightarrow> string" where
  "header_line h = snprint 512 (fst h @ '': '' @ snd h @ CRLF)"

definition status_line :: "int \<Rightarrow> string" where
  "status_line status = snprint 64 (''HTTP/1.1 '' @ show_int status @ '' '' @ status_text status @ CRLF)"

definition selected_body :: "HttpResponse \<Rightarrow> char list" where
  "selected_body res =
     (case encoded_body res of Some b \<Rightarrow> b
      | None \<Rightarrow> (case dyn_body res of Some b \<Rightarrow> b | None \<Rightarrow> res_body res))"

definition default_content_type :: "HttpHeader list \<Rightarrow> bool \<Rightarrow> char list \<Rightarrow> string list" where
  "default_content_type hs streaming body =
     (let has_content_type = (\<exists>h \<in> set hs. strcaseeq (fst h) ''Content-Type'')
      in if \<not> has_content_type \<and> streaming then [''Content-Type: application/octet-stream'' @ CRLF]
         else if \<not> has_content_type \<and> length body > 0 then [''Content-Type: text/html'' @ CRLF]
         else [])"

text \<open>\<^verbatim>\<open>free_transient_body\<close> and the release of the path at the end of \<^verbatim>\<open>send_res\<close>.\<close>

definition free_transient_body :: "HttpResponse \<Rightarrow> HttpResponse" where
  "free_transient_body res = res\<lparr>encoded_body := None, dyn_body := None\<rparr>"

text \<open>
  The decisions that \<^verbatim>\<open>send_res\<close> takes before the first byte goes out: the response with its final
  status, whether the status forbids a body, whether a file is streamed, from which descriptor,
  offset and how much.
\<close>

record send_plan =
  plan_res :: HttpResponse
  plan_no_body :: bool
  plan_streaming :: bool
  plan_fd :: "file_node option"
  plan_offset :: int
  plan_size :: int

definition open_plan :: "file_system \<Rightarrow> HttpResponse \<Rightarrow> send_plan" where
  "open_plan fs res0 =
     (let res = (if is_valid_status_code (res_status res0) then res0 else res0\<lparr>res_status := 500\<rparr>);
          no_body = no_body_status (res_status res);
          idle = \<lparr>plan_res = res, plan_no_body = no_body, plan_streaming = False, plan_fd = None,
                  plan_offset = 0, plan_size = 0\<rparr>
      in case file_path res of
           None \<Rightarrow> idle
         | Some p \<Rightarrow>
             if no_body then idle
             else (case open_regular_file fs p of
                     Some f \<Rightarrow> idle\<lparr>plan_streaming := True, plan_fd := Some f, plan_size := int (st_size f)\<rparr>
                   | None \<Rightarrow> idle\<lparr>plan_res := res\<lparr>res_status := 500, res_body := []\<rparr>\<rparr>))"

definition range_plan :: "send_plan \<Rightarrow> send_plan" where
  "range_plan p =
     (let res = plan_res p; file_size = plan_size p
      in if plan_streaming p \<and> ranged res then
           (if off_t (range_start res) \<ge> file_size
            then p\<lparr>plan_fd := None, plan_res := res\<lparr>res_status := 416, res_body := []\<rparr>\<rparr>
            else
              let off = off_t (range_start res); available = file_size - off
              in p\<lparr>plan_offset := off,
                   plan_size := (if off_t (range_len res) < available then off_t (range_len res) else available)\<rparr>)
         else p)"

definition plan_head :: "send_plan \<Rightarrow> char list list" where
  "plan_head p =
     (let res = plan_res p;
          body = selected_body res;
          cl = (if plan_streaming p then nat (plan_size p mod 2 ^ 64) else length body);
          hs = items (res_headers res)
      in [status_line (res_status res)] @
         (if plan_no_body p then [] else [''Content-Length: '' @ show_nat cl @ CRLF]) @
         default_content_type hs (plan_streaming p) body @ map header_line hs @ [CRLF])"

definition send_res ::
  "file_system \<Rightarrow> HttpResponse \<Rightarrow> socket \<Rightarrow> bool \<Rightarrow> HttpResponse \<times> socket" where
  "send_res fs res0 s suppress_body =
     (let p = range_plan (open_plan fs res0);
          (ok, s1) = send_parts s (plan_head p);
          s2 = (if ok \<and> \<not> plan_no_body p \<and> \<not> suppress_body then
                  (if plan_streaming p
                   then snd (send_fd (plan_fd p) (plan_offset p) (plan_size p) s1)
                   else snd (send_all s1 (selected_body (plan_res p))))
                else s1)
      in ((free_transient_body (plan_res p))\<lparr>file_path := None\<rparr>, s2))"

section \<open>What goes over the wire\<close>

lemma send_parts_chunks:
  "send_parts s cs = (fst (sock.send_chunks s cs) = 0, snd (sock.send_chunks s cs))"
  by (induction cs arbitrary: s) (auto split: prod.split)

lemma send_parts_reliable [simp]:
  "sends s = [] \<Longrightarrow> send_parts s cs = (True, s\<lparr>outbox := outbox s @ concat cs\<rparr>)"
  by (simp add: send_parts_chunks sock.send_chunks_reliable)

lemma send_fd_loop_reliable:
  "sends s = [] \<Longrightarrow> n \<le> length left \<Longrightarrow>
     send_fd_loop s left n = (0, s\<lparr>outbox := outbox s @ take n left\<rparr>)"
proof (induction s left n rule: send_fd_loop.induct)
  case (1 s left n)
  show ?case
  proof (cases "n = 0")
    case True
    then show ?thesis by (simp add: send_fd_loop.simps)
  next
    case False
    define avail where "avail = take (min n 0x7ffff000) left"
    have ne: "avail \<noteq> []" using False "1.prems"(2) by (auto simp: avail_def)
    have len: "length avail = min n 0x7ffff000" using "1.prems"(2) by (simp add: avail_def)
    have "send_fd_loop s left n =
        send_fd_loop (s\<lparr>outbox := outbox s @ avail\<rparr>) (drop (length avail) left) (n - length avail)"
      using False ne "1.prems"(1) by (simp add: send_fd_loop.simps [of s left n] avail_def [symmetric])
    also have "\<dots> = (0, s\<lparr>outbox := outbox s @ avail @ take (n - length avail) (drop (length avail) left)\<rparr>)"
      using "1.IH"(1) [OF False avail_def ne "1.prems"(1)] "1.prems" len by simp
    also have "avail @ take (n - length avail) (drop (length avail) left) = take n left"
      using len by (simp add: avail_def take_add [symmetric] min_def)
    finally show ?thesis .
  qed
qed

lemma show_nat_small: "n < 1000 \<Longrightarrow> length (show_nat n) \<le> 3"
proof -
  assume "n < 1000"
  then have "n div 10 div 10 < 10" by simp
  then show ?thesis
    by (simp add: show_nat_rec [of n] show_nat_rec [of "n div 10"] show_nat_rec [of "n div 10 div 10"]
        del: div_mult2_eq)
qed

definition breakless :: "string \<Rightarrow> bool" where
  "breakless l \<longleftrightarrow> CR \<notin> set l \<and> LF \<notin> set l"

lemma breakless_simps [simp]:
  "breakless []"
  "breakless (c # l) \<longleftrightarrow> c \<noteq> CR \<and> c \<noteq> LF \<and> breakless l"
  "breakless (k @ l) \<longleftrightarrow> breakless k \<and> breakless l"
  by (auto simp: breakless_def)

lemma breakless_show_nat [simp]: "breakless (show_nat n)"
  using show_nat_digits [of n] by (auto simp: breakless_def is_digit_def)

lemma status_text_short: "breakless (status_text st) \<and> length (status_text st) \<le> 40"
proof -
  have "list_all (\<lambda>e. breakless (snd e) \<and> length (snd e) \<le> 40) status_table"
    by (simp add: status_table_def)
  then show ?thesis
    by (auto simp: status_text_def list_all_iff split: option.split dest!: map_of_SomeD)
qed

lemma status_line_whole:
  assumes "is_valid_status_code st"
  shows "\<exists>l. status_line st = l @ CRLF \<and> breakless l"
proof -
  have "nat st < 1000" and pos: "\<not> st < 0" using assms by (auto simp: is_valid_status_code_def)
  then have "length (show_int st) \<le> 3" by (simp add: show_int_def show_nat_small)
  then have "status_line st = (''HTTP/1.1 '' @ show_int st @ '' '' @ status_text st) @ CRLF"
    using status_text_short [of st] by (simp add: status_line_def)
  moreover have "breakless (show_int st)" using pos by (simp add: show_int_def)
  ultimately have "status_line st = (''HTTP/1.1 '' @ show_int st @ '' '' @ status_text st) @ CRLF \<and>
      breakless (''HTTP/1.1 '' @ show_int st @ '' '' @ status_text st)"
    using status_text_short [of st] by simp
  then show ?thesis by blast
qed

definition sent_status :: "HttpResponse \<Rightarrow> int" where
  "sent_status res = (if is_valid_status_code (res_status res) then res_status res else 500)"

lemma plan_facts:
  fixes fs :: file_system and res :: HttpResponse
  defines "p \<equiv> range_plan (open_plan fs res)"
  shows "plan_no_body p \<longleftrightarrow> no_body_status (sent_status res)"
    and "res_headers (plan_res p) = res_headers res"
    and "is_valid_status_code (res_status (plan_res p))"
    and "plan_no_body p \<Longrightarrow> \<not> plan_streaming p"
proof -
  show "plan_no_body p \<longleftrightarrow> no_body_status (sent_status res)"
    by (auto simp: p_def range_plan_def open_plan_def sent_status_def Let_def split: option.splits)
  show "res_headers (plan_res p) = res_headers res"
    by (auto simp: p_def range_plan_def open_plan_def Let_def split: option.splits)
  show "is_valid_status_code (res_status (plan_res p))"
    by (auto simp: p_def range_plan_def open_plan_def Let_def is_valid_status_code_def split: option.splits)
  show "plan_no_body p \<Longrightarrow> \<not> plan_streaming p"
    by (auto simp: p_def range_plan_def open_plan_def Let_def split: option.splits if_splits)
qed

text \<open>The file a response streams is unchanged since its size was taken, and its range lies in it.\<close>

definition file_intact :: "file_system \<Rightarrow> HttpResponse \<Rightarrow> bool" where
  "file_intact fs res \<longleftrightarrow>
     (case file_path res of None \<Rightarrow> True
      | Some p \<Rightarrow>
          (case open_regular_file fs p of None \<Rightarrow> True
           | Some f \<Rightarrow>
               length (file_bytes f) = st_size f \<and> st_size f < 2 ^ 63 \<and>
               (ranged res \<longrightarrow> range_start res < st_size f \<and> range_len res < 2 ^ 63)))"

lemma off_t_small: "n < 2 ^ 63 \<Longrightarrow> off_t n = int n"
  by (simp add: off_t_def)

lemma plan_streams:
  assumes "plan_streaming (range_plan (open_plan fs res))" and "file_intact fs res"
  obtains f off n where "plan_fd (range_plan (open_plan fs res)) = Some f"
    and "plan_offset (range_plan (open_plan fs res)) = int off"
    and "plan_size (range_plan (open_plan fs res)) = int n"
    and "off + n \<le> length (file_bytes f)" and "n < 2 ^ 63"
proof -
  obtain p f where p: "file_path res = Some p" and f: "open_regular_file fs p = Some f"
    and nb: "\<not> no_body_status (sent_status res)"
    using assms(1)
    by (auto simp: range_plan_def open_plan_def sent_status_def Let_def split: option.splits if_splits)
  have len: "length (file_bytes f) = st_size f" "st_size f < 2 ^ 63"
    and rng: "ranged res \<Longrightarrow> range_start res < st_size f \<and> range_len res < 2 ^ 63"
    using assms(2) p f by (auto simp: file_intact_def)
  define q where "q = open_plan fs res"
  have q: "plan_fd q = Some f" "plan_streaming q" "plan_offset q = 0" "plan_size q = int (st_size f)"
    "ranged (plan_res q) = ranged res" "range_start (plan_res q) = range_start res"
    "range_len (plan_res q) = range_len res"
    using p f nb by (auto simp: q_def open_plan_def sent_status_def Let_def no_body_status_def split: if_splits)
  show thesis
  proof (cases "ranged res")
    case False
    then have "range_plan q = q" using q by (simp add: range_plan_def Let_def)
    then show thesis using that [of f 0 "st_size f"] q len by (simp add: q_def)
  next
    case True
    have st: "range_start res < st_size f" "range_len res < 2 ^ 63" using rng [OF True] by auto
    have o: "off_t (range_start res) = int (range_start res)" "off_t (range_len res) = int (range_len res)"
      using st len(2) by (auto intro!: off_t_small)
    define m where "m = min (range_len res) (st_size f - range_start res)"
    have "plan_fd (range_plan q) = Some f" "plan_offset (range_plan q) = int (range_start res)"
      "plan_size (range_plan q) = int m"
      using q True st o by (auto simp: range_plan_def Let_def m_def)
    then show thesis
      using that [of f "range_start res" m] st len by (auto simp: q_def m_def)
  qed
qed

definition header_fits :: "HttpHeader \<Rightarrow> bool" where
  "header_fits h \<longleftrightarrow> length (fst h) + length (snd h) + 4 < 512"

lemma field_breakless: "field_ok h \<Longrightarrow> breakless (fst h) \<and> breakless (snd h)"
  using valid_name_no_colon_or_break [of "fst h"]
  by (auto simp: field_ok_def breakless_def header_value_has_injection_iff)

lemma head_lines:
  assumes "headers_inv (res_headers (plan_res p))" and "list_all header_fits (items (res_headers (plan_res p)))"
    and "is_valid_status_code (res_status (plan_res p))"
  shows "\<exists>ls. plan_head p = map (\<lambda>l. l @ CRLF) ls @ [CRLF] \<and> (\<forall>l \<in> set ls. l \<noteq> [] \<and> breakless l) \<and>
     (\<not> plan_no_body p \<longrightarrow> 1 < length ls \<and> ls ! 1 = ''Content-Length: '' @
        show_nat (if plan_streaming p then nat (plan_size p mod 2 ^ 64) else length (selected_body (plan_res p))))"
proof -
  define res where "res = plan_res p"
  define hs where "hs = items (res_headers res)"
  define cl where "cl = (if plan_streaming p then nat (plan_size p mod 2 ^ 64) else length (selected_body res))"
  obtain sl where sl: "status_line (res_status res) = sl @ CRLF" "breakless sl"
    using status_line_whole assms(3) res_def by blast
  have "sl \<noteq> []"
  proof
    assume "sl = []"
    with sl(1) have "hd (status_line (res_status res)) = CR" by simp
    then show False by (simp add: status_line_def snprint_def)
  qed
  define ct where "ct = map (\<lambda>l. take (length l - 2) l) (default_content_type hs (plan_streaming p) (selected_body res))"
  have ct: "default_content_type hs (plan_streaming p) (selected_body res) = map (\<lambda>l. l @ CRLF) ct \<and>
      (\<forall>l \<in> set ct. l \<noteq> [] \<and> breakless l)"
    by (simp add: ct_def default_content_type_def Let_def)
  define ls where "ls = [sl] @ (if plan_no_body p then [] else [''Content-Length: '' @ show_nat cl]) @ ct @
      map (\<lambda>h. fst h @ '': '' @ snd h) hs"
  have "map header_line hs = map (\<lambda>l. l @ CRLF) (map (\<lambda>h. fst h @ '': '' @ snd h) hs)"
    using assms(2) by (auto simp: hs_def res_def list_all_iff header_fits_def header_line_def)
  then have "plan_head p = map (\<lambda>l. l @ CRLF) ls @ [CRLF]"
    using sl(1) ct by (simp add: plan_head_def Let_def ls_def res_def [symmetric] hs_def [symmetric] cl_def)
  moreover have "\<forall>l \<in> set ls. l \<noteq> [] \<and> breakless l"
    using sl(2) \<open>sl \<noteq> []\<close> ct assms(1) field_breakless
    by (auto simp: ls_def hs_def res_def headers_inv_def list_all_iff)
  ultimately show ?thesis by (intro exI [of _ ls]) (simp add: ls_def cl_def res_def)
qed

section \<open>Properties\<close>



text \<open>A field whose line would exceed the 512-byte line buffer is sent cut off and without its
  line end, so that the next field, or the empty line, continues it.\<close>

theorem long_header_loses_line_end:
  assumes "field_ok (k, v)" and "512 \<le> length k + length v + 4"
  shows "LF \<notin> set (header_line (k, v)) \<and> length (header_line (k, v)) = 511"
proof -
  have b: "LF \<notin> set (k @ '': '' @ v @ [CR])"
    using field_breakless [OF assms(1)] by (auto simp: breakless_def)
  have "header_line (k, v) = take 511 ((k @ '': '' @ v @ [CR]) @ [LF])"
    by (simp add: header_line_def snprint_def)
  moreover have "511 \<le> length (k @ '': '' @ v @ [CR])" using assms(2) by simp
  ultimately have "header_line (k, v) = take 511 (k @ '': '' @ v @ [CR])" by (simp del: append_assoc)
  then show ?thesis using b \<open>511 \<le> length (k @ '': '' @ v @ [CR])\<close> by (auto dest: in_set_takeD)
qed

theorem long_header_loses_line_end_witness:
  "LF \<notin> set (header_line (''X'', replicate 600 (CHR ''a'')))"
proof -
  have "field_ok (''X'', replicate 600 (CHR ''a''))"
    by (simp add: field_ok_def is_valid_header_name_def is_tchar_def header_value_has_injection_iff)
  then show ?thesis using long_header_loses_line_end [of "''X''" "replicate 600 (CHR ''a'')"] by simp
qed

text \<open>When the range of a response starts beyond the end of the file at send time, the status
  becomes 416 but the head still announces the whole file, and no body byte follows.\<close>

theorem shrunk_range_promises_body:
  assumes "sends s = []" and "open_regular_file fs path = Some f" and "file_path res = Some path"
    and "ranged res" and "st_size f \<le> range_start res" and "range_start res < 2 ^ 63"
    and "is_valid_status_code (res_status res)" and "\<not> no_body_status (res_status res)"
  shows "outbox (snd (send_res fs res s False)) =
      outbox s @ status_line 416 @ ''Content-Length: '' @ show_nat (st_size f) @ CRLF @
        concat (default_content_type (items (res_headers res)) True (selected_body (res\<lparr>res_body := []\<rparr>))) @
        concat (map header_line (items (res_headers res))) @ CRLF"
proof -
  define p where "p = range_plan (open_plan fs res)"
  have o: "off_t (range_start res) = int (range_start res)" using assms(6) by (rule off_t_small)
  have p: "plan_fd p = None" "plan_offset p = 0" "plan_size p = int (st_size f)" "plan_streaming p"
    "\<not> plan_no_body p" "plan_res p = res\<lparr>res_status := 416, res_body := []\<rparr>"
    using assms o by (simp_all add: p_def range_plan_def open_plan_def Let_def)
  have sb: "selected_body (res\<lparr>res_status := 416, res_body := []\<rparr>) = selected_body (res\<lparr>res_body := []\<rparr>)"
    by (simp add: selected_body_def split: option.split)
  have "nat (int (st_size f) mod 2 ^ 64) = st_size f" using assms(5,6) by simp
  then have head: "plan_head p = [status_line 416, ''Content-Length: '' @ show_nat (st_size f) @ CRLF] @
      default_content_type (items (res_headers res)) True (selected_body (res\<lparr>res_body := []\<rparr>)) @
      map header_line (items (res_headers res)) @ [CRLF]"
    by (simp add: plan_head_def p sb Let_def)
  have "snd (send_res fs res s False) = s\<lparr>outbox := outbox s @ concat (plan_head p)\<rparr>"
    using send_parts_reliable [OF assms(1), of "plan_head p"] p
    by (simp add: send_res_def p_def [symmetric] send_fd_def)
  then show ?thesis by (simp add: head)
qed

theorem shrunk_range_promises_body_witness:
  "outbox (snd (send_res (\<lambda>p. Some \<lparr>is_regular = True, st_size = 2, file_bytes = ''ab''\<rparr>)
       (empty_response\<lparr>res_status := 206, file_path := Some ''f'', ranged := True, range_start := 7, range_len := 3\<rparr>)
       \<lparr>inbox = [], sends = [], outbox = []\<rparr> False)) =
    status_line 416 @ ''Content-Length: 2'' @ CRLF @ ''Content-Type: application/octet-stream'' @ CRLF @ CRLF"
proof -
  let ?f = "\<lparr>is_regular = True, st_size = 2, file_bytes = ''ab''\<rparr>"
  have "show_nat 2 = ''2''" by (simp add: show_nat_rec [of 2])
  then show ?thesis
    using shrunk_range_promises_body [of "\<lparr>inbox = [], sends = [], outbox = []\<rparr>" "\<lambda>p. Some ?f" "''f''" ?f
        "empty_response\<lparr>res_status := 206, file_path := Some ''f'', ranged := True, range_start := 7, range_len := 3\<rparr>"]
    by (simp add: open_regular_file_def is_valid_status_code_def no_body_status_def empty_response_def
        no_headers_def default_content_type_def)
qed

section \<open>Helpers\<close>

lemma apply_default_headers_inv [inv_intros]:
  "headers_inv hs \<Longrightarrow> headers_inv (apply_default_headers mem now name hs ka)"
  by (simp add: apply_default_headers_def Let_def apply_header_inv)

lemma overwrite_local_spec:
  "overwrite_local ls k v = Some ls' \<Longrightarrow>
     map fst ls' = map fst ls \<and> map_of ls' = (map_of ls)(k \<mapsto> snprint HTTP_LOCAL_VALUE_MAX v) \<and>
     set ls' \<subseteq> set ls \<union> {(k, snprint HTTP_LOCAL_VALUE_MAX v)}"
proof (induction ls arbitrary: ls')
  case (Cons l ls)
  then show ?case by (cases l) (auto split: if_splits)
qed simp

lemma overwrite_local_None: "overwrite_local ls k v = None \<longleftrightarrow> map_of ls k = None"
  by (induction ls) (auto simp: map_of_eq_None_iff)

definition locals_inv :: "HttpLocals \<Rightarrow> bool" where
  "locals_inv ls \<longleftrightarrow>
     length ls \<le> HTTP_MAX_LOCALS \<and> distinct (map fst ls) \<and>
     (\<forall>(k, v) \<in> set ls. length k < HTTP_LOCAL_KEY_MAX \<and> length v < HTTP_LOCAL_VALUE_MAX)"

lemma map_of_snoc: "map_of ls k = None \<Longrightarrow> map_of (ls @ [(k, v)]) = (map_of ls)(k \<mapsto> v)"
  by (rule ext) (auto simp: map_add_def split: option.split)

lemma http_set_local_cases:
  assumes "http_set_local res (Some k) (Some v) = (r, res')"
  shows "(r = HTTP_SET_LOCAL_ERROR \<and> res' = res) \<or>
    (r = HTTP_SET_LOCAL_OK \<and> length k < HTTP_LOCAL_KEY_MAX \<and> length v < HTTP_LOCAL_VALUE_MAX \<and>
     map_of (res_locals res') = (map_of (res_locals res))(k \<mapsto> v) \<and>
     (locals_inv (res_locals res) \<longrightarrow> locals_inv (res_locals res')))"
proof (cases "k = [] \<or> length k \<ge> HTTP_LOCAL_KEY_MAX \<or> length v \<ge> HTTP_LOCAL_VALUE_MAX")
  case True
  then show ?thesis using assms by (auto simp: http_set_local_def split: if_splits)
next
  case fits: False
  show ?thesis
  proof (cases "overwrite_local (res_locals res) k v")
    case None
    then have none: "map_of (res_locals res) k = None" by (simp add: overwrite_local_None)
    then have fresh: "k \<notin> fst ` set (res_locals res)" by (simp add: map_of_eq_None_iff)
    from None fits assms show ?thesis
      by (auto simp: http_set_local_def locals_inv_def map_of_snoc [OF none] fresh
          simp del: map_of_append split: if_splits)
  next
    case (Some ls)
    from overwrite_local_spec [OF Some] Some fits assms show ?thesis
      by (auto simp: http_set_local_def locals_inv_def dest: arg_cong [of _ _ length])
  qed
qed

text \<open>A local that was set reads back, all other locals are unchanged, a failed call changes
  nothing, and locals never exceed their 16 slots of 32-byte keys and 64-byte values.\<close>

theorem locals_read_back:
  assumes "http_set_local res (Some k) (Some v) = (r, res')" and "locals_inv (res_locals res)"
  shows "locals_inv (res_locals res') \<and>
    http_res_local res' (Some j) =
      (if r = HTTP_SET_LOCAL_OK \<and> j = k then Some v else http_res_local res (Some j))"
  using http_set_local_cases [OF assms(1)] assms(2)
  by (auto simp: http_res_local_def lookup_first_eq_map_of)

theorem locals_read_back_witness:
  "http_res_local (snd (http_set_local empty_response (Some ''user'') (Some ''7''))) (Some ''user'') = Some ''7''"
proof -
  have "http_set_local empty_response (Some ''user'') (Some ''7'') =
      (HTTP_SET_LOCAL_OK, empty_response\<lparr>res_locals := [(''user'', ''7'')]\<rparr>)"
    by (simp add: http_set_local_def empty_response_def limit_defs)
  moreover have "locals_inv (res_locals empty_response)" by (simp add: empty_response_def locals_inv_def)
  ultimately show ?thesis
    using locals_read_back [of empty_response "''user''" "''7''"] by auto
qed

lemma set_res_header_cases:
  assumes "set_res_header mem res k v = (r, res')"
  shows "res' = res\<lparr>res_headers := res_headers res'\<rparr> \<and>
    ((r = HTTP_SET_HEADER_ERROR \<and> items (res_headers res') = items (res_headers res)) \<or>
     (r = HTTP_SET_HEADER_OK \<and> items (res_headers res') = items (res_headers res) @ [(k, v)] \<and> field_ok (k, v)))"
  using assms http_set_header_cases [of mem "res_headers res" k v]
  by (auto simp: set_res_header_def split: prod.splits)

lemma cookie_append_Some:
  "cookie_append c w part = Some d \<Longrightarrow>
     \<exists>b. c = Some b \<and> d = (if w then b @ part else b) \<and> (length b < 512 \<longrightarrow> length d < 512)"
  by (auto simp: cookie_append_def split: option.splits if_splits)

lemma cookie_text_Some:
  assumes "cookie_text n v max_age http_only = Some c"
  shows "c = n @ ''='' @ v @ ''; Path=/'' @ (if max_age > 0 then ''; Max-Age='' @ show_nat max_age else []) @
     (if http_only then ''; HttpOnly'' else []) \<and> length c < 512"
proof -
  define base where "base = n @ ''='' @ v @ ''; Path=/''"
  obtain b1 where b1: "cookie_append (if length base \<ge> 512 then None else Some base) (max_age > 0)
        (''; Max-Age='' @ show_nat max_age) = Some b1"
    and c: "c = (if http_only then b1 @ ''; HttpOnly'' else b1)" "length b1 < 512 \<longrightarrow> length c < 512"
    using assms unfolding cookie_text_def Let_def base_def by (blast dest: cookie_append_Some)
  have "length base < 512" "b1 = (if max_age > 0 then base @ ''; Max-Age='' @ show_nat max_age else base)"
    "length base < 512 \<longrightarrow> length b1 < 512"
    using cookie_append_Some [OF b1] by (auto split: if_splits)
  then show ?thesis using c by (simp add: base_def)
qed

text \<open>A cookie that is accepted becomes exactly one more \<^verbatim>\<open>Set-Cookie\<close> field, below 512 bytes, made
  of the name, the value and the requested attributes; name and value contain no semicolon or line
  break, so they cannot forge an attribute or a field. A rejected cookie adds no field.\<close>

theorem cookie_field:
  assumes "http_res_cookie mem res (Some n) (Some v) max_age http_only = (rc, res')"
  shows "(rc = - 1 \<and> items (res_headers res') = items (res_headers res)) \<or>
    (rc = 0 \<and> (\<exists>c. items (res_headers res') = items (res_headers res) @ [(''Set-Cookie'', c)] \<and>
       c = n @ ''='' @ v @ ''; Path=/'' @ (if max_age > 0 then ''; Max-Age='' @ show_nat max_age else []) @
             (if http_only then ''; HttpOnly'' else []) \<and>
       length c < 512 \<and> CHR '';'' \<notin> set n \<union> set v \<and> breakless (n @ v)))"
proof (cases "n = [] \<or> (\<exists>c \<in> set n. c = CHR '';'' \<or> c = CHR ''='' \<or> c = SP \<or> c = TAB) \<or> CHR '';'' \<in> set v")
  case True
  then show ?thesis using assms by (auto simp: http_res_cookie_def split: if_splits)
next
  case ok: False
  show ?thesis
  proof (cases "cookie_text n v max_age http_only")
    case None
    then show ?thesis using assms ok by (simp add: http_res_cookie_def)
  next
    case (Some c)
    note shape = cookie_text_Some [OF Some]
    obtain r res1 where sh: "set_res_header mem res ''Set-Cookie'' c = (r, res1)" by fastforce
    have fin: "rc = (if r = HTTP_SET_HEADER_OK then 0 else - 1)" "res' = res1"
      using assms ok Some sh by (simp_all add: http_res_cookie_def)
    from set_res_header_cases [OF sh] show ?thesis
    proof (elim conjE disjE)
      assume "r = HTTP_SET_HEADER_ERROR" "items (res_headers res1) = items (res_headers res)"
      then show ?thesis using fin by simp
    next
      assume o: "r = HTTP_SET_HEADER_OK" "field_ok (''Set-Cookie'', c)"
        "items (res_headers res1) = items (res_headers res) @ [(''Set-Cookie'', c)]"
      then have "breakless c" using field_breakless by fastforce
      moreover have "set n \<union> set v \<subseteq> set c" using shape by auto
      ultimately have "breakless (n @ v)" by (auto simp: breakless_def)
      moreover have "CHR '';'' \<notin> set n \<union> set v" using ok by blast
      moreover have "rc = 0" "items (res_headers res') = items (res_headers res) @ [(''Set-Cookie'', c)]"
        using fin o(1,3) by simp_all
      ultimately show ?thesis using shape by blast
    qed
  qed
qed

theorem cookie_field_witness:
  "items (res_headers (snd (http_res_cookie (\<lambda>n. True) empty_response (Some ''sid'') (Some ''x=1'') 0 True))) =
     [(''Set-Cookie'', ''sid=x=1; Path=/; HttpOnly'')]"
proof -
  have "fst (http_res_cookie (\<lambda>n. True) empty_response (Some ''sid'') (Some ''x=1'') 0 True) = 0"
    by (simp add: http_res_cookie_def cookie_text_def cookie_append_def set_res_header_def http_set_header_def apply_header_def
        is_valid_header_name_def is_tchar_def strchr_found_def empty_response_def no_headers_def)
  then show ?thesis
    using cookie_field [of "\<lambda>n. True" empty_response "''sid''" "''x=1''" 0 True]
    by (cases "http_res_cookie (\<lambda>n. True) empty_response (Some ''sid'') (Some ''x=1'') 0 True")
      (auto simp: empty_response_def no_headers_def)
qed

lemma set_res_header_keeps:
  assumes "set_res_header mem res k v = (r, res')"
  shows "encoded_body res' = encoded_body res \<and> dyn_body res' = dyn_body res"
  using assms by (auto simp: set_res_header_def split: prod.splits)

text \<open>After \<^verbatim>\<open>http_res_body\<close> succeeds, its bytes are the body that will be sent, on both sides of the
  4096-byte limit and whatever body was set before.\<close>

theorem res_body_sets_body:
  assumes "http_res_body mem res status (Some ct) (Some b) (length b) = (0, res')" and "encoded_body res = None"
  shows "selected_body res' = b \<and> res_status res' = status"
proof -
  obtain r res1 where sh: "set_res_header mem res ''Content-Type'' ct = (r, res1)" by fastforce
  then have "encoded_body res1 = None" using set_res_header_keeps assms(2) by metis
  then show ?thesis
    using assms sh by (auto simp: http_res_body_def selected_body_def Let_def
        split: if_splits HttpSetHeaderResult.splits)
qed

theorem res_body_sets_body_witness:
  "selected_body (snd (http_res_body (\<lambda>n. True) (empty_response\<lparr>dyn_body := Some ''old''\<rparr>) 200 (Some ''text/plain'')
     (Some ''new'') 3)) = ''new''"
proof -
  let ?c = "http_res_body (\<lambda>n. True) (empty_response\<lparr>dyn_body := Some ''old''\<rparr>) 200 (Some ''text/plain'') (Some ''new'') (length ''new'')"
  have "fst ?c = 0"
    by (simp add: http_res_body_def set_res_header_def http_set_header_def apply_header_def is_valid_status_code_def
        is_valid_header_name_def is_tchar_def strchr_found_def empty_response_def no_headers_def RES_BODY_MAX_def)
  then obtain res' where "?c = (0, res')" by (metis prod.collapse)
  with res_body_sets_body [OF this] show ?thesis by (simp add: empty_response_def numeral_3_eq_3)
qed

text \<open>\<^verbatim>\<open>http_res_json\<close> stores its text in the fixed buffer but keeps a heap body set earlier, and
  \<^verbatim>\<open>send_res\<close> prefers the heap body: the JSON text is not what is sent.\<close>

theorem json_keeps_heap_body:
  assumes "http_res_json mem res status (Some b) = (0, res')" and "encoded_body res = None"
    and "dyn_body res = Some old"
  shows "res_body res' = b \<and> selected_body res' = old"
proof -
  obtain r res1 where sh: "set_res_header mem res ''Content-Type'' ''application/json'' = (r, res1)" by fastforce
  then have "encoded_body res1 = None" "dyn_body res1 = Some old"
    using set_res_header_keeps assms(2,3) by metis+
  then show ?thesis
    using assms sh by (auto simp: http_res_json_def selected_body_def split: if_splits HttpSetHeaderResult.splits)
qed

theorem json_keeps_heap_body_witness:
  "selected_body (snd (http_res_json (\<lambda>n. True) (empty_response\<lparr>dyn_body := Some ''old''\<rparr>) 200 (Some ''{}''))) = ''old''"
proof -
  let ?c = "http_res_json (\<lambda>n. True) (empty_response\<lparr>dyn_body := Some ''old''\<rparr>) 200 (Some ''{}'')"
  have "fst ?c = 0"
    by (simp add: http_res_json_def set_res_header_def http_set_header_def apply_header_def is_valid_status_code_def
        is_valid_header_name_def is_tchar_def strchr_found_def empty_response_def no_headers_def RES_BODY_MAX_def)
  then obtain res' where "?c = (0, res')" by (metis prod.collapse)
  with json_keeps_heap_body [OF this] show ?thesis by (simp add: empty_response_def)
qed

end
