(* ===== verification/Negotiation.thy ===== *)
theory Negotiation
  imports Complex_Main Response
begin

text \<open>
  Content coding and content negotiation: \<^verbatim>\<open>c_http_encoder.c\<close> (registration, \<^verbatim>\<open>Accept-Encoding\<close>,
  encoding the body) and \<^verbatim>\<open>http_req_accepts\<close>. The gzip encoder is in the
  theory Gzip. Quality values are exact rationals where the source has doubles; \<open>strtod\<close>
  keeps the underflow of positive values to zero, so that every test against 0 and 1 is the
  source's.
\<close>

section \<open>Numbers: \<open>strtod\<close>\<close>

datatype double = Fin rat | Infinite bool | NaN

text \<open>The fraction of a mantissa: integer digits, fraction digits, in base \<open>b\<close>.\<close>

definition hex_digit_val :: "char \<Rightarrow> nat" where
  "hex_digit_val c =
     (if is_digit c then byte c - 48 else if 97 \<le> byte c then byte c - 87 else byte c - 55)"

definition is_hex :: "char \<Rightarrow> bool" where
  "is_hex c \<longleftrightarrow> is_digit c \<or> (97 \<le> byte c \<and> byte c \<le> 102) \<or> (65 \<le> byte c \<and> byte c \<le> 70)"

definition mantissa :: "nat \<Rightarrow> string \<Rightarrow> string \<Rightarrow> rat" where
  "mantissa b ip fp = of_nat (foldl (\<lambda>v c. b * v + hex_digit_val c) 0 (ip @ fp)) / of_nat (b ^ length fp)"

text \<open>An exponent is read only if at least one digit follows the letter and the sign.\<close>

definition exponent :: "char \<Rightarrow> rat \<Rightarrow> string \<Rightarrow> rat \<times> string" where
  "exponent letter base s =
     (if s \<noteq> [] \<and> to_lower (hd s) = letter then
        let t = tl s;
            neg = (t \<noteq> [] \<and> hd t = CHR ''-'');
            u = (if t \<noteq> [] \<and> (hd t = CHR ''-'' \<or> hd t = CHR ''+'') then tl t else t);
            ds = takeWhile is_digit u
        in if ds = [] then (1, s)
           else (if neg then 1 / base ^ digits_val ds else base ^ digits_val ds, dropWhile is_digit u)
      else (1, s))"

definition number_body :: "nat \<Rightarrow> (char \<Rightarrow> bool) \<Rightarrow> char \<Rightarrow> rat \<Rightarrow> string \<Rightarrow> (rat \<times> string) option" where
  "number_body b digit letter base s =
     (let ip = takeWhile digit s;
          r = dropWhile digit s;
          fp = (if r \<noteq> [] \<and> hd r = CHR ''.'' then takeWhile digit (tl r) else []);
          r2 = (if r \<noteq> [] \<and> hd r = CHR ''.'' \<and> (ip \<noteq> [] \<or> fp \<noteq> []) then dropWhile digit (tl r) else r)
      in if ip = [] \<and> fp = [] then None
         else (case exponent letter base r2 of (e, r3) \<Rightarrow> Some (mantissa b ip fp * e, r3)))"

text \<open>Rounding to zero below half of the least positive double; no other rounding is modelled.\<close>

definition flush :: "rat \<Rightarrow> rat" where
  "flush v = (if v \<le> 1 / 2 ^ 1075 then 0 else v)"

definition strtod :: "string \<Rightarrow> double \<times> string" where
  "strtod s =
     (let t = dropWhile is_space s;
          neg = (t \<noteq> [] \<and> hd t = CHR ''-'');
          u = (if t \<noteq> [] \<and> (hd t = CHR ''-'' \<or> hd t = CHR ''+'') then tl t else t);
          sgn = (\<lambda>v. if neg then - v else v)
      in if length u \<ge> 8 \<and> strncaseeq u ''infinity'' 8 then (Infinite neg, drop 8 u)
         else if length u \<ge> 3 \<and> strncaseeq u ''inf'' 3 then (Infinite neg, drop 3 u)
         else if length u \<ge> 3 \<and> strncaseeq u ''nan'' 3 then (NaN, drop 3 u)
         else
           (case (if length u \<ge> 2 \<and> strncaseeq u ''0x'' 2 then number_body 16 is_hex (CHR ''p'') 2 (drop 2 u) else None) of
              Some (v, r) \<Rightarrow> (Fin (sgn (flush v)), r)
            | None \<Rightarrow>
                (case number_body 10 is_digit (CHR ''e'') 10 u of
                   Some (v, r) \<Rightarrow> (Fin (sgn (flush v)), r)
                 | None \<Rightarrow> (Fin 0, s))))"

section \<open>Encoders\<close>

definition identity_encode :: "allocator \<Rightarrow> char list \<Rightarrow> char list option" where
  "identity_encode mem inp = (if mem (if inp = [] then 1 else length inp) then Some inp else None)"

definition http_identity_encoder :: "allocator \<Rightarrow> HttpEncoder" where
  "http_identity_encoder mem = \<lparr>enc_name = ''identity'', encode = identity_encode mem\<rparr>"

text \<open>\<^verbatim>\<open>sizeof(HttpEncoder)\<close> is 16.\<close>

definition http_register_encoder :: "allocator \<Rightarrow> HttpEncoders \<Rightarrow> HttpEncoder \<Rightarrow> HttpEncoderAddResult \<times> HttpEncoders" where
  "http_register_encoder mem es encoder =
     (let full = (length (encoders es) = encoders_capacity es);
          new_cap = grow_cap 4 (encoders_capacity es)
      in if full \<and> \<not> mem (new_cap * 16) then (HTTP_ENCODER_ADD_ERROR, es)
         else
           let grown = (if full then es\<lparr>encoders_capacity := new_cap\<rparr> else es)
           in (HTTP_ENCODER_ADD_OK, grown\<lparr>encoders := encoders grown @ [encoder]\<rparr>))"

section \<open>Quality parameters\<close>

definition q_param :: "string \<Rightarrow> bool" where
  "q_param p \<longleftrightarrow> length p \<ge> 2 \<and> (p ! 0 = CHR ''q'' \<or> p ! 0 = CHR ''Q'') \<and> p ! 1 = CHR ''=''"

definition param_end :: "char \<Rightarrow> bool" where
  "param_end c \<longleftrightarrow> c = CHR '';'' \<or> c = CHR '',''"

text \<open>\<^verbatim>\<open>parse_q\<close>: a value above 1 counts as 1, the last parameter that parses wins.\<close>

definition parse_q_value :: "string \<Rightarrow> rat \<Rightarrow> rat" where
  "parse_q_value p q =
     (if \<not> q_param p then q
      else
        (case strtod (drop 2 p) of
           (v, rest) \<Rightarrow>
             if rest = drop 2 p then q
             else
               (case v of
                  Fin r \<Rightarrow> if r \<ge> 0 then min r 1 else q
                | Infinite neg \<Rightarrow> if neg then q else 1
                | NaN \<Rightarrow> q)))"

function parse_q_loop :: "string \<Rightarrow> rat \<Rightarrow> rat \<times> string" where
  "parse_q_loop p q =
     (if p \<noteq> [] \<and> hd p = CHR '';'' then
        let p1 = dropWhile is_ows (tl p)
        in parse_q_loop (dropWhile (\<lambda>c. \<not> param_end c) p1) (parse_q_value p1 q)
      else (q, p))"
  by pat_completeness auto
termination
proof (relation "measure (\<lambda>(p, q). length p)", goal_cases)
  case (2 p q p1)
  have "length (dropWhile (\<lambda>c. \<not> param_end c) p1) \<le> length p1" "length p1 \<le> length (tl p)"
    using 2(2) length_dropWhile_le [of is_ows "tl p"] by (simp_all add: length_dropWhile_le)
  then show ?case using 2(1) by (cases p) auto
qed simp

declare parse_q_loop.simps [simp del]

definition parse_q :: "string \<Rightarrow> rat \<times> string" where
  "parse_q p = parse_q_loop p 1"

text \<open>\<^verbatim>\<open>accepts_parse_q\<close>: a value above 1 is ignored instead.\<close>

definition accepts_q_value :: "string \<Rightarrow> rat \<Rightarrow> rat" where
  "accepts_q_value p q =
     (if \<not> q_param p then q
      else
        (case strtod (drop 2 p) of
           (v, rest) \<Rightarrow>
             if rest = drop 2 p then q
             else (case v of Fin r \<Rightarrow> if r \<ge> 0 \<and> r \<le> 1 then r else q | _ \<Rightarrow> q)))"

function accepts_parse_q_loop :: "string \<Rightarrow> rat \<Rightarrow> rat \<times> string" where
  "accepts_parse_q_loop p q =
     (if p \<noteq> [] \<and> hd p = CHR '';'' then
        let p1 = dropWhile is_ows (tl p)
        in accepts_parse_q_loop (dropWhile (\<lambda>c. \<not> param_end c) p1) (accepts_q_value p1 q)
      else (q, p))"
  by pat_completeness auto
termination
proof (relation "measure (\<lambda>(p, q). length p)", goal_cases)
  case (2 p q p1)
  have "length (dropWhile (\<lambda>c. \<not> param_end c) p1) \<le> length p1" "length p1 \<le> length (tl p)"
    using 2(2) length_dropWhile_le [of is_ows "tl p"] by (simp_all add: length_dropWhile_le)
  then show ?case using 2(1) by (cases p) auto
qed simp

declare accepts_parse_q_loop.simps [simp del]

definition accepts_parse_q :: "string \<Rightarrow> rat \<times> string" where
  "accepts_parse_q p = accepts_parse_q_loop p 1"

section \<open>Accept-Encoding\<close>

record encoding_scan =
  specific_found :: bool
  specific_ok :: bool
  wildcard_found :: bool
  wildcard_q :: rat

text \<open>One list element: the name up to a comma or semicolon without trailing white space.\<close>

definition note_encoding :: "string \<Rightarrow> string \<Rightarrow> rat \<Rightarrow> encoding_scan \<Rightarrow> encoding_scan" where
  "note_encoding encoding name q a =
     (let wildcard = (name = ''*'');
          match = (wildcard \<or> (length name = length encoding \<and> strncaseeq name encoding (length name)))
      in if wildcard then a\<lparr>wildcard_found := True, wildcard_q := (if q > wildcard_q a then q else wildcard_q a)\<rparr>
         else if match then
           a\<lparr>specific_found := True, specific_ok := (if q > 0 then True else specific_ok a)\<rparr>
         else a)"

text \<open>The text after an element: past the next comma.\<close>

definition next_element :: "string \<Rightarrow> string" where
  "next_element p = tl (dropWhile (\<lambda>c. c \<noteq> CHR '','') p)"

lemma parse_q_loop_length: "length (snd (parse_q_loop p q)) \<le> length p"
proof (induction p q rule: parse_q_loop.induct)
  case (1 p q)
  show ?case
  proof (cases "p \<noteq> [] \<and> hd p = CHR '';''")
    case True
    define p1 where "p1 = dropWhile is_ows (tl p)"
    have "length (dropWhile (\<lambda>c. \<not> param_end c) p1) \<le> length p"
      using length_dropWhile_le [of "\<lambda>c. \<not> param_end c" p1] length_dropWhile_le [of is_ows "tl p"]
      unfolding p1_def by simp
    moreover have "parse_q_loop p q = parse_q_loop (dropWhile (\<lambda>c. \<not> param_end c) p1) (parse_q_value p1 q)"
      using True by (simp add: parse_q_loop.simps [of p q] p1_def Let_def)
    ultimately show ?thesis using "1.IH" [OF True p1_def] by simp
  next
    case False
    then show ?thesis by (subst parse_q_loop.simps) auto
  qed
qed

lemma accepts_parse_q_loop_length: "length (snd (accepts_parse_q_loop p q)) \<le> length p"
proof (induction p q rule: accepts_parse_q_loop.induct)
  case (1 p q)
  show ?case
  proof (cases "p \<noteq> [] \<and> hd p = CHR '';''")
    case True
    define p1 where "p1 = dropWhile is_ows (tl p)"
    have "length (dropWhile (\<lambda>c. \<not> param_end c) p1) \<le> length p"
      using length_dropWhile_le [of "\<lambda>c. \<not> param_end c" p1] length_dropWhile_le [of is_ows "tl p"]
      unfolding p1_def by simp
    moreover have "accepts_parse_q_loop p q = accepts_parse_q_loop (dropWhile (\<lambda>c. \<not> param_end c) p1) (accepts_q_value p1 q)"
      using True by (simp add: accepts_parse_q_loop.simps [of p q] p1_def Let_def)
    ultimately show ?thesis using "1.IH" [OF True p1_def] by simp
  next
    case False
    then show ?thesis by (subst accepts_parse_q_loop.simps) auto
  qed
qed

text \<open>Every round of a list scan consumes at least one character.\<close>

lemma list_scan_shorter:
  assumes "start = dropWhile is_list_sep p" and "start \<noteq> []" and "length r \<le> length (dropWhile P start)"
  shows "length (next_element r) < length p"
proof -
  have "length r \<le> length start"
    using assms(3) length_dropWhile_le [of P start] by simp
  moreover have "length start \<le> length p" using assms(1) length_dropWhile_le [of is_list_sep p] by simp
  moreover have "length (next_element r) \<le> length r - 1"
    using length_dropWhile_le [of "\<lambda>c. c \<noteq> CHR '',''" r] by (simp add: next_element_def)
  moreover have "0 < length start" using assms(2) by simp
  ultimately show ?thesis by linarith
qed

function encoding_value_loop :: "string \<Rightarrow> string \<Rightarrow> encoding_scan \<Rightarrow> encoding_scan" where
  "encoding_value_loop encoding p a =
     (let start = dropWhile is_list_sep p
      in if start = [] then a
         else
           let name = rtrim (takeWhile (\<lambda>c. \<not> param_end c) start);
               r = dropWhile (\<lambda>c. \<not> param_end c) start;
               (q, r2) = (if r \<noteq> [] \<and> hd r = CHR '';'' then parse_q r else (1, r))
           in encoding_value_loop encoding (next_element r2) (note_encoding encoding name q a))"
  by pat_completeness auto
termination
proof (relation "measure (\<lambda>(e, p, a). length p)", goal_cases)
  case (2 encoding p a start name r z q r2)
  have "length r2 \<le> length r"
    using 2(5,6) parse_q_loop_length [of r 1] by (cases "parse_q_loop r 1") (auto simp: parse_q_def split: if_splits)
  then show ?case using list_scan_shorter [OF 2(1,2)] 2(4) by simp
qed simp

declare encoding_value_loop.simps [simp del]

fun encoding_headers_loop :: "string \<Rightarrow> HttpHeader list \<Rightarrow> encoding_scan \<Rightarrow> encoding_scan" where
  "encoding_headers_loop encoding [] a = a"
| "encoding_headers_loop encoding (h # hs) a =
     (if \<not> strcaseeq (fst h) ''Accept-Encoding'' then encoding_headers_loop encoding hs a
      else encoding_headers_loop encoding hs (encoding_value_loop encoding (snd h) a))"

definition http_accepts_encoding :: "HttpRequest \<Rightarrow> string option \<Rightarrow> bool" where
  "http_accepts_encoding req encoding =
     (case encoding of
        None \<Rightarrow> False
      | Some enc \<Rightarrow>
          if enc = [] then False
          else
            let a = encoding_headers_loop enc (items (req_headers req))
                      \<lparr>specific_found = False, specific_ok = False, wildcard_found = False, wildcard_q = 0\<rparr>
            in if specific_found a then specific_ok a else wildcard_found a \<and> wildcard_q a > 0)"

section \<open>Encoding the body\<close>

fun try_encoders ::
  "allocator \<Rightarrow> HttpEncoder list \<Rightarrow> HttpRequest \<Rightarrow> char list \<Rightarrow> HttpResponse \<Rightarrow> bool \<times> HttpResponse" where
  "try_encoders mem [] req src res = (False, res)"
| "try_encoders mem (e # es) req src res =
     (if \<not> http_accepts_encoding req (Some (enc_name e)) then try_encoders mem es req src res
      else
        (case encode e src of
           None \<Rightarrow> try_encoders mem es req src res
         | Some encoded \<Rightarrow>
             if length encoded \<ge> length src then try_encoders mem es req src res
             else (True, snd (set_res_header mem (res\<lparr>encoded_body := Some encoded\<rparr>) ''Content-Encoding'' (enc_name e)))))"

definition http_encode_body ::
  "allocator \<Rightarrow> HttpEncoders \<Rightarrow> HttpRequest \<Rightarrow> HttpResponse \<Rightarrow> bool \<times> HttpResponse" where
  "http_encode_body mem es req res =
     (let src = (case dyn_body res of Some b \<Rightarrow> b | None \<Rightarrow> res_body res)
      in if length src = 0 \<or> encoded_body res \<noteq> None then (False, res)
         else if \<exists>h \<in> set (items (res_headers res)). strcaseeq (fst h) ''Content-Encoding'' then (False, res)
         else try_encoders mem (encoders es) req src res)"

section \<open>Accept\<close>

text \<open>The score of one media range for the offer \<open>type/sub\<close>: 3 exact, 2 any subtype, 1 any type, 0 no match.\<close>

definition range_score :: "string \<Rightarrow> string \<Rightarrow> string \<Rightarrow> string option \<Rightarrow> nat" where
  "range_score type sub rtype rsub =
     (case rsub of
        Some rs \<Rightarrow>
          let type_match = (rtype = ''*'' \<or> (length rtype = length type \<and> strncaseeq rtype type (length type)));
              sub_match = (rs = ''*'' \<or> (length rs = length sub \<and> strncaseeq rs sub (length sub)))
          in if type_match \<and> sub_match then
               (if length rtype = length type then (if length rs = length sub then 3 else 2) else 1)
             else 0
      | None \<Rightarrow> if rtype = ''*'' then 1 else 0)"

definition range_type_end :: "char \<Rightarrow> bool" where
  "range_type_end c \<longleftrightarrow> c = CHR '','' \<or> c = CHR ''/'' \<or> c = CHR '';''"

text \<open>One media range: its type, its subtype if a slash follows, and the rest.\<close>

definition media_range :: "string \<Rightarrow> string \<times> string option \<times> string" where
  "media_range start =
     (let rtype = takeWhile (\<lambda>c. \<not> range_type_end c) start;
          r = dropWhile (\<lambda>c. \<not> range_type_end c) start
      in if r \<noteq> [] \<and> hd r = CHR ''/'' then
           (rtype, Some (takeWhile (\<lambda>c. \<not> param_end c) (tl r)), dropWhile (\<lambda>c. \<not> param_end c) (tl r))
         else (rtype, None, r))"

lemma media_range_length: "media_range start = (t, u, r) \<Longrightarrow> length r \<le> length start"
proof -
  assume "media_range start = (t, u, r)"
  moreover have "length (dropWhile (\<lambda>c. \<not> range_type_end c) start) \<le> length start" by (rule length_dropWhile_le)
  moreover have "length (dropWhile (\<lambda>c. \<not> param_end c) (tl (dropWhile (\<lambda>c. \<not> range_type_end c) start))) \<le>
      length (tl (dropWhile (\<lambda>c. \<not> range_type_end c) start))" by (rule length_dropWhile_le)
  ultimately show ?thesis by (auto simp: media_range_def Let_def split: if_splits)
qed

function accept_value_loop :: "string \<Rightarrow> string \<Rightarrow> string \<Rightarrow> nat \<times> rat \<Rightarrow> nat \<times> rat" where
  "accept_value_loop type sub p best =
     (let start = dropWhile is_list_sep p
      in if start = [] then best
         else
           let (rtype, rsub, r) = media_range start;
               rscore = range_score type sub rtype rsub;
               (q, r2) = accepts_parse_q r
           in accept_value_loop type sub (next_element r2)
                (if rscore > 0 \<and> q > 0 \<and> (rscore > fst best \<or> (rscore = fst best \<and> q > snd best))
                 then (rscore, q) else best))"
  by pat_completeness auto
termination
proof (relation "measure (\<lambda>(t, s, p, b). length p)", goal_cases)
  case (2 type sub p best start x rtype y rsub r rscore z q r2)
  have "length r2 \<le> length r"
    using accepts_parse_q_loop_length [of r 1] 2(7,8)
    by (cases "accepts_parse_q_loop r 1") (simp add: accepts_parse_q_def)
  moreover have "length r \<le> length start" using media_range_length 2(3-5) by metis
  ultimately show ?case using list_scan_shorter [OF 2(1,2), of r2 "\<lambda>c. False"] by (cases start) auto
qed simp

declare accept_value_loop.simps [simp del]

fun accept_headers_loop :: "string \<Rightarrow> string \<Rightarrow> HttpHeader list \<Rightarrow> nat \<times> rat \<Rightarrow> nat \<times> rat" where
  "accept_headers_loop type sub [] best = best"
| "accept_headers_loop type sub (h # hs) best =
     (if \<not> strcaseeq (fst h) ''Accept'' then accept_headers_loop type sub hs best
      else accept_headers_loop type sub hs (accept_value_loop type sub (snd h) best))"

fun pick_type ::
  "HttpHeader list \<Rightarrow> string list \<Rightarrow> (string \<times> nat \<times> rat) option \<Rightarrow> string option" where
  "pick_type hs [] best = map_option fst best"
| "pick_type hs (t # ts) best =
     (if CHR ''/'' \<notin> set t then pick_type hs ts best
      else
        let type = takeWhile (\<lambda>c. c \<noteq> CHR ''/'') t;
            sub = tl (dropWhile (\<lambda>c. c \<noteq> CHR ''/'') t);
            (score, q) = accept_headers_loop type sub hs (0, 0)
        in if score > 0 \<and>
              (case best of None \<Rightarrow> True | Some (_, s, bq) \<Rightarrow> score > s \<or> (score = s \<and> q > bq))
           then pick_type hs ts (Some (t, score, q))
           else pick_type hs ts best)"

text \<open>\<open>types\<close> is the NULL-terminated array.\<close>

definition http_req_accepts :: "HttpRequest \<Rightarrow> string list \<Rightarrow> string option" where
  "http_req_accepts req types =
     (if types = [] then None
      else if \<forall>h \<in> set (items (req_headers req)). \<not> strcaseeq (fst h) ''Accept''
      then find (\<lambda>t. CHR ''/'' \<in> set t) types
      else pick_type (items (req_headers req)) types None)"

section \<open>What Accept-Encoding means\<close>

text \<open>The list elements of a value, each with its quality, in order.\<close>

function encoding_elements :: "string \<Rightarrow> (string \<times> rat) list" where
  "encoding_elements p =
     (let start = dropWhile is_list_sep p
      in if start = [] then []
         else
           let r = dropWhile (\<lambda>c. \<not> param_end c) start;
               qr = (if r \<noteq> [] \<and> hd r = CHR '';'' then parse_q r else (1, r))
           in (rtrim (takeWhile (\<lambda>c. \<not> param_end c) start), fst qr) # encoding_elements (next_element (snd qr)))"
  by pat_completeness auto
termination
proof (relation "measure length", goal_cases)
  case (2 p start r qr)
  have "length (snd qr) \<le> length r"
    using 2(4) parse_q_loop_length [of r 1] by (auto simp: parse_q_def split: if_splits)
  then show ?case using list_scan_shorter [OF 2(1,2)] 2(3) by simp
qed simp

declare encoding_elements.simps [simp del]

definition accept_encodings :: "HttpRequest \<Rightarrow> (string \<times> rat) list" where
  "accept_encodings req =
     concat (map (encoding_elements \<circ> snd) (filter (\<lambda>h. strcaseeq (fst h) ''Accept-Encoding'') (items (req_headers req))))"

lemma encoding_value_loop_elements:
  "encoding_value_loop enc p a = foldl (\<lambda>a (n, q). note_encoding enc n q a) a (encoding_elements p)"
proof (induction enc p a rule: encoding_value_loop.induct)
  case (1 enc p a)
  define start where "start = dropWhile is_list_sep p"
  show ?case
  proof (cases "start = []")
    case True
    then show ?thesis
      by (simp add: encoding_value_loop.simps [of enc p] encoding_elements.simps [of p] start_def)
  next
    case False
    define name where "name = rtrim (takeWhile (\<lambda>c. \<not> param_end c) start)"
    define r where "r = dropWhile (\<lambda>c. \<not> param_end c) start"
    define qr where "qr = (if r \<noteq> [] \<and> hd r = CHR '';'' then parse_q r else (1, r))"
    obtain q r2 where qr: "qr = (q, r2)" by (cases qr)
    have "encoding_value_loop enc p a = encoding_value_loop enc (next_element r2) (note_encoding enc name q a)"
      using False qr unfolding encoding_value_loop.simps [of enc p a]
      by (simp add: start_def [symmetric] name_def [symmetric] r_def [symmetric] qr_def [symmetric] Let_def)
    moreover have "encoding_elements p = (name, q) # encoding_elements (next_element r2)"
      using False qr unfolding encoding_elements.simps [of p]
      by (simp add: start_def [symmetric] name_def [symmetric] r_def [symmetric] qr_def [symmetric] Let_def)
    ultimately show ?thesis
      using "1.IH" [OF start_def False name_def r_def qr_def qr [symmetric]] by simp
  qed
qed

lemma encoding_headers_loop_elements:
  "encoding_headers_loop enc hs a = foldl (\<lambda>a (n, q). note_encoding enc n q a) a
     (concat (map (encoding_elements \<circ> snd) (filter (\<lambda>h. strcaseeq (fst h) ''Accept-Encoding'') hs)))"
  by (induction hs arbitrary: a) (simp_all add: encoding_value_loop_elements)

definition names_coding :: "string \<Rightarrow> string \<times> rat \<Rightarrow> bool" where
  "names_coding enc e \<longleftrightarrow> fst e \<noteq> ''*'' \<and> strcaseeq (fst e) enc"

lemma note_encoding_step:
  "note_encoding enc n q a =
     (if n = ''*'' then a\<lparr>wildcard_found := True, wildcard_q := max q (wildcard_q a)\<rparr>
      else if strcaseeq n enc then a\<lparr>specific_found := True, specific_ok := (0 < q \<or> specific_ok a)\<rparr>
      else a)"
  using conn.element_match [of n enc] by (auto simp: note_encoding_def Let_def max_def)

lemma fold_note:
  fixes es a enc
  defines "b \<equiv> foldl (\<lambda>a (n, q). note_encoding enc n q a) a es"
  shows "(specific_found b \<longleftrightarrow> specific_found a \<or> (\<exists>e \<in> set es. names_coding enc e)) \<and>
    (specific_ok b \<longleftrightarrow> specific_ok a \<or> (\<exists>e \<in> set es. names_coding enc e \<and> 0 < snd e)) \<and>
    (wildcard_found b \<and> 0 < wildcard_q b \<longleftrightarrow>
       (wildcard_found a \<and> 0 < wildcard_q a) \<or> (wildcard_found b \<and> 0 < wildcard_q a) \<or> (\<exists>e \<in> set es. fst e = ''*'' \<and> 0 < snd e))"
  unfolding b_def
proof (induction es arbitrary: a)
  case Nil
  then show ?case by auto
next
  case (Cons e es)
  obtain n q where e: "e = (n, q)" by (cases e)
  show ?case
    using Cons.IH [of "note_encoding enc n q a"]
    by (auto simp: e note_encoding_step names_coding_def less_max_iff_disj)
qed

section \<open>Properties\<close>

text \<open>C39: over all \<^verbatim>\<open>Accept-Encoding\<close> fields together, a coding that is named is accepted exactly if one of
  its mentions has a positive quality, and one that is not named is accepted exactly if a wildcard
  has: an explicit refusal is never overridden by a wildcard.\<close>

theorem accepts_encoding_iff:
  assumes "enc \<noteq> []"
  shows "http_accepts_encoding req (Some enc) \<longleftrightarrow>
    (if \<exists>e \<in> set (accept_encodings req). names_coding enc e
     then \<exists>e \<in> set (accept_encodings req). names_coding enc e \<and> 0 < snd e
     else \<exists>e \<in> set (accept_encodings req). fst e = ''*'' \<and> 0 < snd e)"
proof -
  define a where "a = \<lparr>specific_found = False, specific_ok = False, wildcard_found = False, wildcard_q = (0::rat)\<rparr>"
  define b where "b = foldl (\<lambda>a (n, q). note_encoding enc n q a) a (accept_encodings req)"
  have b: "b = encoding_headers_loop enc (items (req_headers req)) a"
    by (simp add: b_def accept_encodings_def encoding_headers_loop_elements)
  note spec = fold_note [where enc = enc and a = a and es = "accept_encodings req", folded b_def]
  show ?thesis
    using assms spec by (simp add: http_accepts_encoding_def b [symmetric] a_def [symmetric] Let_def) (simp add: a_def)
qed

theorem accepts_encoding_iff_witness:
  "\<not> http_accepts_encoding (empty_request\<lparr>req_headers :=
     \<lparr>items = [(''Accept-Encoding'', ''gzip;q=0, *'')], capacity = 8\<rparr>\<rparr>) (Some ''gzip'')"
proof -
  let ?req = "empty_request\<lparr>req_headers := \<lparr>items = [(''Accept-Encoding'', ''gzip;q=0, *'')], capacity = 8\<rparr>\<rparr>"
  have q: "parse_q '';q=0, *'' = (0, '', *'')"
    by (simp add: parse_q_def parse_q_loop.simps parse_q_value_def q_param_def strtod_def number_body_def
        is_ows_def is_space_def is_digit_def strncaseeq_def exponent_def mantissa_def flush_def param_end_def hex_digit_val_def
        to_lower_def is_upper_def)
  have "encoding_elements ''gzip;q=0, *'' = [(''gzip'', 0), (''*'', 1)]"
    by (simp add: encoding_elements.simps is_list_sep_def param_end_def rtrim_def is_ows_def q next_element_def)
  then have "accept_encodings ?req = [(''gzip'', 0), (''*'', 1)]" by (simp add: accept_encodings_def)
  then show ?thesis
    using accepts_encoding_iff [of "''gzip''" ?req] by (auto simp: names_coding_def)
qed

lemma try_encoders_cases:
  assumes "try_encoders mem es req src res = (did, res')"
  shows "(\<not> did \<and> res' = res) \<or>
    (did \<and> (\<exists>e \<in> set es. \<exists>out. http_accepts_encoding req (Some (enc_name e)) \<and> encode e src = Some out \<and>
       length out < length src \<and>
       res' = snd (set_res_header mem (res\<lparr>encoded_body := Some out\<rparr>) ''Content-Encoding'' (enc_name e))))"
  using assms by (induction es) (auto split: if_splits option.splits)

text \<open>\<^verbatim>\<open>http_encode_body\<close> either leaves the response as it is, or replaces the body that will be sent by a
  strictly smaller output of a registered encoder whose coding the client accepts, and then adds
  the matching \<^verbatim>\<open>Content-Encoding\<close> field or, if the field cannot be stored, none; it never encodes a
  body twice.\<close>

theorem encode_body_sound:
  assumes "http_encode_body mem es req res = (did, res')"
  shows "(\<not> did \<and> res' = res) \<or>
    (did \<and> encoded_body res = None \<and> \<not> (\<exists>h \<in> set (items (res_headers res)). strcaseeq (fst h) ''Content-Encoding'') \<and>
     (\<exists>e \<in> set (encoders es). http_accepts_encoding req (Some (enc_name e)) \<and>
        encode e (selected_body res) = Some (selected_body res') \<and>
        length (selected_body res') < length (selected_body res) \<and>
        (items (res_headers res') = items (res_headers res) @ [(''Content-Encoding'', enc_name e)] \<or>
         items (res_headers res') = items (res_headers res))))"
proof (cases did)
  case False
  then show ?thesis
    using assms try_encoders_cases [of mem "encoders es" req _ res False res']
    by (auto simp: http_encode_body_def Let_def split: if_splits)
next
  case True
  define src where "src = (case dyn_body res of Some b \<Rightarrow> b | None \<Rightarrow> res_body res)"
  have g: "encoded_body res = None" "\<not> (\<exists>h \<in> set (items (res_headers res)). strcaseeq (fst h) ''Content-Encoding'')"
    "try_encoders mem (encoders es) req src res = (True, res')"
    using assms True by (auto simp: http_encode_body_def Let_def src_def split: if_splits)
  have src: "src = selected_body res" using g(1) by (simp add: src_def selected_body_def)
  obtain e out where e: "e \<in> set (encoders es)" "http_accepts_encoding req (Some (enc_name e))"
    "encode e src = Some out" "length out < length src"
    and res': "res' = snd (set_res_header mem (res\<lparr>encoded_body := Some out\<rparr>) ''Content-Encoding'' (enc_name e))"
    using try_encoders_cases [OF g(3)] by auto
  obtain r where sh: "set_res_header mem (res\<lparr>encoded_body := Some out\<rparr>) ''Content-Encoding'' (enc_name e) = (r, res')"
    using res' by (metis prod.collapse)
  have "encoded_body res' = Some out" using set_res_header_keeps [OF sh] by simp
  then have out: "selected_body res' = out" by (simp add: selected_body_def)
  have "items (res_headers res') = items (res_headers res) @ [(''Content-Encoding'', enc_name e)] \<or>
      items (res_headers res') = items (res_headers res)"
    using set_res_header_cases [OF sh] by auto
  then show ?thesis using True g e src out by auto
qed

theorem encode_body_sound_witness:
  "\<exists>res'. http_encode_body (\<lambda>n. True) \<lparr>encoders = [\<lparr>enc_name = ''half'', encode = (\<lambda>b. Some (take 1 b))\<rparr>], encoders_capacity = 4\<rparr>
      (empty_request\<lparr>req_headers := \<lparr>items = [(''Accept-Encoding'', ''*'')], capacity = 8\<rparr>\<rparr>)
      (empty_response\<lparr>res_body := ''aa''\<rparr>) = (True, res') \<and> length (selected_body res') < 2"
proof -
  let ?es = "\<lparr>encoders = [\<lparr>enc_name = ''half'', encode = (\<lambda>b. Some (take 1 b))\<rparr>], encoders_capacity = 4\<rparr>"
  let ?req = "empty_request\<lparr>req_headers := \<lparr>items = [(''Accept-Encoding'', ''*'')], capacity = 8\<rparr>\<rparr>"
  let ?res = "empty_response\<lparr>res_body := ''aa''\<rparr>"
  have "http_accepts_encoding ?req (Some ''half'')"
    by (simp add: http_accepts_encoding_def encoding_value_loop.simps is_list_sep_def param_end_def rtrim_def is_ows_def
        note_encoding_def next_element_def)
  then have "fst (http_encode_body (\<lambda>n. True) ?es ?req ?res)"
    by (simp add: http_encode_body_def empty_response_def no_headers_def)
  moreover define res' where "res' = snd (http_encode_body (\<lambda>n. True) ?es ?req ?res)"
  ultimately have r: "http_encode_body (\<lambda>n. True) ?es ?req ?res = (True, res')" by (simp add: prod_eq_iff)
  have "length (selected_body ?res) = 2" by (simp add: selected_body_def empty_response_def)
  moreover have "length (selected_body res') < length (selected_body ?res)"
    using encode_body_sound [OF r] by blast
  ultimately show ?thesis using r by metis
qed

definition offer_rank :: "HttpRequest \<Rightarrow> string \<Rightarrow> nat \<times> rat" where
  "offer_rank req t =
     accept_headers_loop (takeWhile (\<lambda>c. c \<noteq> CHR ''/'') t) (tl (dropWhile (\<lambda>c. c \<noteq> CHR ''/'') t))
       (items (req_headers req)) (0, 0)"

definition beats :: "nat \<times> rat \<Rightarrow> nat \<times> rat \<Rightarrow> bool" where
  "beats x y \<longleftrightarrow> fst x > fst y \<or> (fst x = fst y \<and> snd x > snd y)"

lemma pick_type_best:
  assumes "pick_type (items (req_headers req)) ts best = Some w"
    and "case best of None \<Rightarrow> True | Some (b, r) \<Rightarrow> r = offer_rank req b \<and> 0 < fst r \<and> CHR ''/'' \<in> set b"
  shows "(w \<in> set ts \<or> (\<exists>r. best = Some (w, r))) \<and> CHR ''/'' \<in> set w \<and> 0 < fst (offer_rank req w) \<and>
    (\<forall>t \<in> set ts. CHR ''/'' \<in> set t \<longrightarrow> \<not> beats (offer_rank req t) (offer_rank req w)) \<and>
    (case best of None \<Rightarrow> True | Some (b, r) \<Rightarrow> \<not> beats r (offer_rank req w))"
  using assms
proof (induction ts arbitrary: best)
  case Nil
  have "\<not> beats (offer_rank req w) (offer_rank req w)" by (simp add: beats_def)
  with Nil show ?case by (auto split: option.splits)
next
  case (Cons t ts)
  show ?case
  proof (cases "CHR ''/'' \<in> set t")
    case False
    then show ?thesis using Cons.IH [of best] Cons.prems by auto
  next
    case True
    obtain sc q where r: "offer_rank req t = (sc, q)" by (cases "offer_rank req t")
    define new where "new \<longleftrightarrow> sc > 0 \<and>
        (case best of None \<Rightarrow> True | Some (_, s, bq) \<Rightarrow> sc > s \<or> (sc = s \<and> q > bq))"
    have step: "pick_type (items (req_headers req)) (t # ts) best =
        pick_type (items (req_headers req)) ts (if new then Some (t, sc, q) else best)"
      using True r by (simp add: offer_rank_def new_def)
    have trans: "beats x y \<Longrightarrow> \<not> beats x z \<Longrightarrow> \<not> beats y z" for x y z by (auto simp: beats_def)
    show ?thesis
    proof (cases new)
      case n: True
      have best': "case best of None \<Rightarrow> True | Some (b, r) \<Rightarrow> beats (sc, q) r"
        using n by (auto simp: new_def beats_def split: option.splits)
      from Cons.IH [of "Some (t, sc, q)"] Cons.prems(1) step n r True
      have IH: "(w \<in> set ts \<or> w = t) \<and> CHR ''/'' \<in> set w \<and> 0 < fst (offer_rank req w) \<and>
          (\<forall>t \<in> set ts. CHR ''/'' \<in> set t \<longrightarrow> \<not> beats (offer_rank req t) (offer_rank req w)) \<and>
          \<not> beats (sc, q) (offer_rank req w)"
        by (auto simp: new_def)
      have "case best of None \<Rightarrow> True | Some (b, r) \<Rightarrow> \<not> beats r (offer_rank req w)"
        using best' IH trans [of "(sc, q)" _ "offer_rank req w"] by (cases best) (simp_all add: split_def)
      then show ?thesis using IH r True by auto
    next
      case n: False
      have IH: "(w \<in> set ts \<or> (\<exists>r. best = Some (w, r))) \<and> CHR ''/'' \<in> set w \<and> 0 < fst (offer_rank req w) \<and>
          (\<forall>t \<in> set ts. CHR ''/'' \<in> set t \<longrightarrow> \<not> beats (offer_rank req t) (offer_rank req w)) \<and>
          (case best of None \<Rightarrow> True | Some (b, r) \<Rightarrow> \<not> beats r (offer_rank req w))"
        using Cons.IH [of best] Cons.prems step n by simp
      moreover have "\<not> beats (sc, q) (offer_rank req w)"
      proof (cases "sc = 0")
        case True
        then show ?thesis using IH by (auto simp: beats_def)
      next
        case False
        then obtain b s bq where b: "best = Some (b, s, bq)" "\<not> beats (sc, q) (s, bq)"
          using n by (auto simp: new_def beats_def split: option.splits)
        then show ?thesis using IH by (auto simp: beats_def)
      qed
      ultimately show ?thesis using r by auto
    qed
  qed
qed

text \<open>When the request has an \<^verbatim>\<open>Accept\<close> field, the winner of \<^verbatim>\<open>http_req_accepts\<close> is an offered type that
  some range with positive quality matches, and no offered type beats it: none has a more specific
  match, or an equally specific one with a higher quality.\<close>

theorem accepts_picks_best:
  assumes "http_req_accepts req types = Some w"
    and "\<exists>h \<in> set (items (req_headers req)). strcaseeq (fst h) ''Accept''"
  shows "w \<in> set types \<and> 0 < fst (offer_rank req w) \<and>
    (\<forall>t \<in> set types. CHR ''/'' \<in> set t \<longrightarrow> \<not> beats (offer_rank req t) (offer_rank req w))"
  using assms pick_type_best [of req types None w] by (auto simp: http_req_accepts_def split: if_splits)

text \<open>A quality of zero does not exclude a type that a wildcard also matches: with
  \<^verbatim>\<open>Accept: text/html;q=0,*/*\<close> the type \<^verbatim>\<open>text/html\<close> is still chosen.\<close>

theorem accepts_zero_does_not_exclude:
  "http_req_accepts (empty_request\<lparr>req_headers := \<lparr>items = [(''Accept'', ''text/html;q=0,*/*'')], capacity = 8\<rparr>\<rparr>)
     [''text/html''] = Some ''text/html''"
proof -
  have q: "accepts_parse_q '';q=0,*/*'' = (0, '',*/*'')"
    by (simp add: accepts_parse_q_def accepts_parse_q_loop.simps accepts_q_value_def q_param_def strtod_def number_body_def
        is_ows_def is_space_def is_digit_def strncaseeq_def exponent_def mantissa_def flush_def param_end_def hex_digit_val_def
        to_lower_def is_upper_def)
  have e: "accepts_parse_q [] = (1, [])" by (simp add: accepts_parse_q_def accepts_parse_q_loop.simps)
  show ?thesis
    by (simp add: http_req_accepts_def accept_value_loop.simps is_list_sep_def media_range_def range_type_end_def
        param_end_def q e range_score_def strncaseeq_def next_element_def)
qed

theorem accepts_picks_best_witness:
  "\<not> beats (offer_rank (empty_request\<lparr>req_headers := \<lparr>items = [(''Accept'', ''text/html;q=0,*/*'')], capacity = 8\<rparr>\<rparr>) ''a/b'')
     (offer_rank (empty_request\<lparr>req_headers := \<lparr>items = [(''Accept'', ''text/html;q=0,*/*'')], capacity = 8\<rparr>\<rparr>) ''a/b'')"
proof -
  let ?req = "empty_request\<lparr>req_headers := \<lparr>items = [(''Accept'', ''text/html;q=0,*/*'')], capacity = 8\<rparr>\<rparr>"
  have q: "accepts_parse_q '';q=0,*/*'' = (0, '',*/*'')"
    by (simp add: accepts_parse_q_def accepts_parse_q_loop.simps accepts_q_value_def q_param_def strtod_def number_body_def
        is_ows_def is_space_def is_digit_def strncaseeq_def exponent_def mantissa_def flush_def param_end_def hex_digit_val_def
        to_lower_def is_upper_def)
  have e: "accepts_parse_q [] = (1, [])" by (simp add: accepts_parse_q_def accepts_parse_q_loop.simps)
  have "http_req_accepts ?req [''a/b''] = Some ''a/b''"
    by (simp add: http_req_accepts_def accept_value_loop.simps is_list_sep_def media_range_def range_type_end_def
        param_end_def q e range_score_def strncaseeq_def next_element_def)
  then show ?thesis using accepts_picks_best [of ?req "[''a/b'']" "''a/b''"] by simp
qed

end
