(* ===== verification/Gzip.thy ===== *)
theory Gzip
  imports Negotiation
begin

text \<open>
  The gzip encoder of \<^verbatim>\<open>c_http_encoder.c\<close>. zlib is not part of the repository: its four functions are a
  record that the definitions take as an argument, and \<open>zlib_contract\<close> is what \<^verbatim>\<open>zlib.h\<close> documents of them. The
  fields of the stream have zlib's widths, so that the casts to \<^verbatim>\<open>uInt\<close> cut lengths to 32 bits as the source does.
\<close>

section \<open>The stream and zlib\<close>

text \<open>The fields of \<^verbatim>\<open>z_stream\<close> that the encoder sets. \<open>next_in\<close> is the memory from the pointer on.\<close>

record 's z_stream =
  zstate :: 's
  next_in :: "char list"
  avail_in :: "32 word"
  avail_out :: "32 word"

text \<open>
  \<^verbatim>\<open>deflateInit2\<close> gives a stream state or fails; \<^verbatim>\<open>deflate\<close> with \<^verbatim>\<open>Z_FINISH\<close> gives the bytes it wrote if the answer is
  \<^verbatim>\<open>Z_STREAM_END\<close>, whose number is \<^verbatim>\<open>total_out\<close>; \<open>gunzip\<close> is the decoder of the receiver.
\<close>

record 's zlib =
  deflateInit2 :: "'s option"
  deflateBound :: "'s \<Rightarrow> nat \<Rightarrow> nat"
  deflate_finish :: "'s z_stream \<Rightarrow> char list option"

text \<open>
  The documented behaviour: a finished stream fits the output space and decodes to the input that was made
  available, and a stream is finished if the output space is at least the bound of its input.
\<close>

definition zlib_contract :: "'s zlib \<Rightarrow> (char list \<Rightarrow> char list option) \<Rightarrow> bool" where
  "zlib_contract z gunzip \<longleftrightarrow>
     (\<forall>strm out. unat (avail_in strm) \<le> length (next_in strm) \<longrightarrow> deflate_finish z strm = Some out \<longrightarrow>
        length out \<le> unat (avail_out strm) \<and> gunzip out = Some (take (unat (avail_in strm)) (next_in strm))) \<and>
     (\<forall>strm. unat (avail_in strm) \<le> length (next_in strm) \<longrightarrow>
        deflateBound z (zstate strm) (unat (avail_in strm)) \<le> unat (avail_out strm) \<longrightarrow> deflate_finish z strm \<noteq> None)"

section \<open>The encoder\<close>

definition gzip_encode :: "'s zlib \<Rightarrow> allocator \<Rightarrow> char list \<Rightarrow> char list option" where
  "gzip_encode z mem inp =
     (case deflateInit2 z of
        None \<Rightarrow> None
      | Some s \<Rightarrow>
          let bound = deflateBound z s (length inp)
          in if \<not> mem bound then None
             else
               (case deflate_finish z
                       \<lparr>zstate = s, next_in = inp, avail_in = of_nat (length inp), avail_out = of_nat bound\<rparr> of
                  None \<Rightarrow> None
                | Some out \<Rightarrow> Some out))"

definition http_gzip_encoder :: "'s zlib \<Rightarrow> allocator \<Rightarrow> HttpEncoder" where
  "http_gzip_encoder z mem = \<lparr>enc_name = ''gzip'', encode = gzip_encode z mem\<rparr>"

section \<open>What it promises\<close>

lemma unat_uint_cast: "unat (of_nat n :: 32 word) = n mod 2 ^ 32"
  by (simp add: unat_of_nat)

lemma zlib_decodes:
  assumes "zlib_contract z gunzip" and "deflate_finish z strm = Some out"
    and "unat (avail_in strm) \<le> length (next_in strm)"
  shows "gunzip out = Some (take (unat (avail_in strm)) (next_in strm))"
  using assms unfolding zlib_contract_def by blast

text \<open>Only the low 32 bits of the length reach zlib: the output decodes to that beginning of the input.\<close>

lemma gzip_encode_decodes:
  assumes "zlib_contract z gunzip" and "gzip_encode z mem inp = Some out"
  shows "gunzip out = Some (take (length inp mod 2 ^ 32) inp)"
proof -
  obtain s where d: "deflate_finish z \<lparr>zstate = s, next_in = inp, avail_in = of_nat (length inp),
      avail_out = of_nat (deflateBound z s (length inp))\<rparr> = Some out"
    using assms(2) by (auto simp: gzip_encode_def Let_def split: option.splits if_splits)
  show ?thesis using zlib_decodes [OF assms(1) d] by (simp add: unat_uint_cast)
qed

text \<open>Below 4 GiB the encoder fails only if zlib's initialisation or the allocation of the output fails.\<close>

lemma gzip_encode_succeeds:
  assumes z: "zlib_contract z gunzip"
    and init: "deflateInit2 z = Some s"
    and mem: "mem (deflateBound z s (length inp))"
    and small: "length inp < 2 ^ 32" "deflateBound z s (length inp) < 2 ^ 32"
  shows "\<exists>out. gzip_encode z mem inp = Some out \<and> gunzip out = Some inp"
proof -
  let ?strm = "\<lparr>zstate = s, next_in = inp, avail_in = of_nat (length inp) :: 32 word,
    avail_out = of_nat (deflateBound z s (length inp)) :: 32 word\<rparr>"
  have "deflate_finish z ?strm \<noteq> None"
    using z small unfolding zlib_contract_def by (simp add: unat_uint_cast)
  then obtain out where "gzip_encode z mem inp = Some out"
    using init mem by (auto simp: gzip_encode_def)
  then show ?thesis using gzip_encode_decodes [OF z] small by fastforce
qed

lemma identity_never_shrinks:
  "encode (http_identity_encoder mem) b = Some out \<Longrightarrow> length out = length b"
  by (auto simp: http_identity_encoder_def identity_encode_def split: if_splits)

text \<open>C38: With the encoders that a server starts with (or the part of them whose registration succeeded), a body
  that \<^verbatim>\<open>http_encode_body\<close> replaces is a strictly smaller gzip stream for a client that accepts gzip. Under the
  documented behaviour of zlib the stream decodes to the handler's body if that is below 4 GiB; in general
  to its first \<open>n mod 2 ^ 32\<close> bytes, because the length is cast to the 32 bits of \<^verbatim>\<open>avail_in\<close>: the content of a
  larger body is cut off silently. The field that announces the coding is added, or cannot be stored.\<close>

theorem encoded_body_decodes:
  assumes "zlib_contract z gunzip"
    and "set (encoders es) \<subseteq> {http_gzip_encoder z memg, http_identity_encoder memi}"
    and "http_encode_body mem es req res = (True, res')"
  shows "http_accepts_encoding req (Some ''gzip'') \<and>
    length (selected_body res') < length (selected_body res) \<and>
    gunzip (selected_body res') = Some (take (length (selected_body res) mod 2 ^ 32) (selected_body res)) \<and>
    (length (selected_body res) < 2 ^ 32 \<longrightarrow> gunzip (selected_body res') = Some (selected_body res)) \<and>
    (length (selected_body res) \<ge> 2 ^ 32 \<longrightarrow> gunzip (selected_body res') \<noteq> Some (selected_body res)) \<and>
    (items (res_headers res') = items (res_headers res) @ [(''Content-Encoding'', ''gzip'')] \<or>
     items (res_headers res') = items (res_headers res))"
proof -
  obtain e where e: "e \<in> set (encoders es)" "http_accepts_encoding req (Some (enc_name e))"
    "encode e (selected_body res) = Some (selected_body res')"
    and shorter: "length (selected_body res') < length (selected_body res)"
    and field: "items (res_headers res') = items (res_headers res) @ [(''Content-Encoding'', enc_name e)] \<or>
      items (res_headers res') = items (res_headers res)"
    using encode_body_sound [OF assms(3)] by blast
  have "e \<noteq> http_identity_encoder memi" using identity_never_shrinks e(3) shorter by fastforce
  then have gz: "e = http_gzip_encoder z memg" using assms(2) e(1) by blast
  then have dec: "gunzip (selected_body res') = Some (take (length (selected_body res) mod 2 ^ 32) (selected_body res))"
    using gzip_encode_decodes [OF assms(1)] e(3) by (simp add: http_gzip_encoder_def)
  have "take (n mod 2 ^ 32) b \<noteq> b" if "length b \<ge> 2 ^ 32" "n = length b" for n and b :: "char list"
  proof
    assume "take (n mod 2 ^ 32) b = b"
    then have "length b \<le> n mod 2 ^ 32" by (metis length_take min.cobounded2)
    moreover have "n mod 2 ^ 32 < 2 ^ 32" by simp
    ultimately show False using that(1) by linarith
  qed
  then show ?thesis using dec gz e(2) shorter field by (auto simp: http_gzip_encoder_def)
qed

text \<open>A compressor with the documented behaviour: one abbreviation, every other input is stored.\<close>

definition toy_deflate :: "char list \<Rightarrow> char list" where
  "toy_deflate x = (if x = ''aaaa'' then ''1'' else CHR ''0'' # x)"

definition toy_zlib :: "unit zlib" where
  "toy_zlib = \<lparr>deflateInit2 = Some (), deflateBound = (\<lambda>s n. n + 1),
     deflate_finish = (\<lambda>strm. let out = toy_deflate (take (unat (avail_in strm)) (next_in strm))
       in if length out \<le> unat (avail_out strm) then Some out else None)\<rparr>"

definition toy_gunzip :: "char list \<Rightarrow> char list option" where
  "toy_gunzip y = (if y = ''1'' then Some ''aaaa'' else if y \<noteq> [] \<and> hd y = CHR ''0'' then Some (tl y) else None)"

lemma toy_zlib_contract: "zlib_contract toy_zlib toy_gunzip"
  by (auto simp: zlib_contract_def toy_zlib_def toy_gunzip_def toy_deflate_def Let_def min_def split: if_splits)

theorem encoded_body_decodes_witness:
  "\<exists>res'. http_encode_body (\<lambda>n. True)
      \<lparr>encoders = [http_gzip_encoder toy_zlib (\<lambda>n. True), http_identity_encoder (\<lambda>n. True)], encoders_capacity = 4\<rparr>
      (empty_request\<lparr>req_headers := \<lparr>items = [(''Accept-Encoding'', ''gzip'')], capacity = 8\<rparr>\<rparr>)
      (empty_response\<lparr>res_body := ''aaaa''\<rparr>) = (True, res') \<and> toy_gunzip (selected_body res') = Some ''aaaa''"
proof -
  let ?gz = "http_gzip_encoder toy_zlib (\<lambda>n. True)"
  let ?es = "\<lparr>encoders = [?gz, http_identity_encoder (\<lambda>n. True)], encoders_capacity = 4\<rparr>"
  let ?req = "empty_request\<lparr>req_headers := \<lparr>items = [(''Accept-Encoding'', ''gzip'')], capacity = 8\<rparr>\<rparr>"
  let ?res = "empty_response\<lparr>res_body := ''aaaa''\<rparr>"
  have "http_accepts_encoding ?req (Some ''gzip'')"
    by (simp add: http_accepts_encoding_def encoding_value_loop.simps is_list_sep_def param_end_def rtrim_def is_ows_def
        note_encoding_def next_element_def strncaseeq_def Let_def strcaseeq_def to_lower_def is_upper_def)
  moreover have "encode ?gz ''aaaa'' = Some ''1''"
    by (simp add: http_gzip_encoder_def gzip_encode_def toy_zlib_def toy_deflate_def)
  moreover have "enc_name ?gz = ''gzip''" by (simp add: http_gzip_encoder_def)
  ultimately have "fst (http_encode_body (\<lambda>n. True) ?es ?req ?res)"
    by (simp add: http_encode_body_def empty_response_def no_headers_def)
  moreover define res' where "res' = snd (http_encode_body (\<lambda>n. True) ?es ?req ?res)"
  ultimately have r: "http_encode_body (\<lambda>n. True) ?es ?req ?res = (True, res')" by (simp add: prod_eq_iff)
  have "selected_body ?res = ''aaaa''" by (simp add: selected_body_def empty_response_def)
  moreover have sub: "set (encoders ?es) \<subseteq> {?gz, http_identity_encoder (\<lambda>n. True)}" by simp
  ultimately have "toy_gunzip (selected_body res') = Some ''aaaa''"
    using encoded_body_decodes [OF toy_zlib_contract sub r] by simp
  then show ?thesis using r by blast
qed

end
