(* ===== verification/Static.thy ===== *)
theory Static
  imports Response
begin

text \<open>
  Static file serving (\<^verbatim>\<open>c_http_static.c\<close>): URL decoding, the path checks, the MIME table, entity
  tags, byte ranges, the handler, the mounts and their dispatch. The file system is an input: what
  \<^verbatim>\<open>stat\<close> and \<^verbatim>\<open>realpath\<close> answer. The lemmas show that a served path resolves below the resolved
  root, that ranges are computed as the header field says and always lie inside the file, and that
  mounts are found by prefix.
\<close>

section \<open>The file system\<close>

datatype file_kind = Regular | Directory | Other_kind

record stat_info =
  st_mode :: file_kind
  st_bytes :: nat
  st_mtime :: int

text \<open>\<open>gmtime\<close> is the conversion of the C library from seconds to broken-down time.\<close>

record fs_view =
  fs_stat :: "string \<Rightarrow> stat_info option"
  fs_realpath :: "string \<Rightarrow> string option"
  gmtime :: "int \<Rightarrow> tm"

definition PATH_MAX :: nat where "PATH_MAX = 4096"

section \<open>Helpers\<close>

definition static_hex_val :: "char \<Rightarrow> int" where
  "static_hex_val c =
     (if 48 \<le> byte c \<and> byte c \<le> 57 then int (byte c) - 48
      else if 97 \<le> byte c \<and> byte c \<le> 102 then int (byte c) - 97 + 10
      else if 65 \<le> byte c \<and> byte c \<le> 70 then int (byte c) - 65 + 10
      else - 1)"

fun url_decode_loop :: "string \<Rightarrow> nat \<Rightarrow> nat \<Rightarrow> string option" where
  "url_decode_loop [] pos out_size = Some []"
| "url_decode_loop (c # cs) pos out_size =
     (if pos + 1 \<ge> out_size then None
      else if c = CHR ''%'' then
        (case cs of
           h # l # rest \<Rightarrow>
             let hi = static_hex_val h; lo = static_hex_val l
             in if hi < 0 \<or> lo < 0 then None
                else if hi = 0 \<and> lo = 0 then None
                else map_option ((#) (char_of (nat (hi * 16 + lo)))) (url_decode_loop rest (pos + 1) out_size)
         | _ \<Rightarrow> None)
      else map_option ((#) c) (url_decode_loop cs (pos + 1) out_size))"

definition url_decode :: "string \<Rightarrow> nat \<Rightarrow> string option" where
  "url_decode inp out_size = (if out_size = 0 then None else url_decode_loop inp 0 out_size)"

fun has_control_chars :: "string \<Rightarrow> bool" where
  "has_control_chars [] = False"
| "has_control_chars (c # s) = (if byte c < 0x20 \<or> byte c = 0x7f then True else has_control_chars s)"

definition extract_suffix :: "string \<Rightarrow> string \<Rightarrow> string option" where
  "extract_suffix prefix path =
     (if prefix = ''/'' then Some (tl path)
      else if \<not> strneq path prefix (length prefix) then None
      else if length path = length prefix then Some []
      else if path ! length prefix = CHR ''/'' then Some (drop (length prefix + 1) path)
      else None)"

definition mime_table :: "(string \<times> string) list" where
  "mime_table =
     [(''html'', ''text/html''), (''htm'', ''text/html''), (''css'', ''text/css''),
      (''js'', ''text/javascript''), (''mjs'', ''text/javascript''), (''json'', ''application/json''),
      (''txt'', ''text/plain''), (''md'', ''text/plain''), (''csv'', ''text/csv''),
      (''xml'', ''application/xml''), (''png'', ''image/png''), (''jpg'', ''image/jpeg''),
      (''jpeg'', ''image/jpeg''), (''gif'', ''image/gif''), (''svg'', ''image/svg+xml''),
      (''webp'', ''image/webp''), (''ico'', ''image/x-icon''), (''avif'', ''image/avif''),
      (''pdf'', ''application/pdf''), (''zip'', ''application/zip''), (''gz'', ''application/gzip''),
      (''wasm'', ''application/wasm''), (''woff'', ''font/woff''), (''woff2'', ''font/woff2''),
      (''mp3'', ''audio/mpeg''), (''mp4'', ''video/mp4''), (''webm'', ''video/webm''),
      (''bin'', ''application/octet-stream'')]"

definition mime_for :: "string \<Rightarrow> string" where
  "mime_for path =
     (if CHR ''.'' \<notin> set path then ''application/octet-stream''
      else
        let ext = rev (takeWhile (\<lambda>c. c \<noteq> CHR ''.'') (rev path))
        in if ext = [] \<or> CHR ''/'' \<in> set ext then ''application/octet-stream''
           else (case find (\<lambda>e. strcaseeq ext (fst e)) mime_table of
                   Some e \<Rightarrow> snd e | None \<Rightarrow> ''application/octet-stream''))"

text \<open>\<^verbatim>\<open>format_http_time\<close> differs from \<^verbatim>\<open>format_http_date\<close> in the time it formats.\<close>

definition format_http_time :: "(int \<Rightarrow> tm) \<Rightarrow> int \<Rightarrow> nat \<Rightarrow> string" where
  "format_http_time gmt t n = format_http_date n (gmt (if t < 0 then 0 else t))"

definition strip_weak :: "string \<Rightarrow> string" where
  "strip_weak p = (if starts_with p ''W/'' then drop 2 p else p)"

lemma etag_scan_shorter:
  assumes "start = dropWhile is_list_sep p" and "start \<noteq> []"
  shows "length (dropWhile (\<lambda>c. c \<noteq> CHR '','') (strip_weak start)) < length p"
proof -
  let ?P = "\<lambda>c. c \<noteq> CHR '',''"
  have len: "length start \<le> length p" using assms(1) length_dropWhile_le [of is_list_sep p] by simp
  obtain c t where s: "start = c # t" using assms(2) by (cases start) auto
  have "\<not> is_list_sep (hd start)" using assms hd_dropWhile by metis
  then have "\<not> is_list_sep c" using s by simp
  then have "dropWhile ?P start = dropWhile ?P t" using s by (auto simp: is_list_sep_def)
  then show ?thesis
    using len s length_dropWhile_le [of ?P t] length_dropWhile_le [of ?P "drop 2 start"]
    by (auto simp: strip_weak_def)
qed

function etag_list_matches :: "string \<Rightarrow> string \<Rightarrow> bool" where
  "etag_list_matches p etag =
     (let start = dropWhile is_list_sep p
      in if start = [] then False
         else if hd start = CHR ''*'' then True
         else
           let q = strip_weak start
           in if rtrim (takeWhile (\<lambda>c. c \<noteq> CHR '','') q) = strip_weak etag then True
              else etag_list_matches (dropWhile (\<lambda>c. c \<noteq> CHR '','') q) etag)"
  by pat_completeness auto
termination
proof (relation "measure (\<lambda>(p, e). length p)", goal_cases)
  case (2 p etag start q)
  then show ?case using etag_scan_shorter [OF 2(1,2)] by simp
qed simp

declare etag_list_matches.simps [simp del]

definition etag_matches :: "HttpRequest \<Rightarrow> string \<Rightarrow> bool" where
  "etag_matches req etag \<longleftrightarrow>
     (\<exists>h \<in> set (items (req_headers req)). strcaseeq (fst h) ''If-None-Match'' \<and> etag_list_matches (snd h) etag)"

section \<open>Byte ranges\<close>

text \<open>The outcome of reading a range: ignored, a slice, or unsatisfiable.\<close>

datatype range_result = Range_ignored | Range_slice nat nat | Range_unsatisfiable

definition suffix_range :: "string \<Rightarrow> nat \<Rightarrow> range_result" where
  "suffix_range s n =
     (case strtoll s of
        (suffix_len, rest, erange) \<Rightarrow>
          if rest \<noteq> s \<and> rest = [] \<and> \<not> erange then
            (if suffix_len \<le> 0 \<or> n = 0 then Range_unsatisfiable
             else if suffix_len \<ge> int n then Range_slice 0 n
             else Range_slice (n - nat suffix_len) (nat suffix_len))
          else Range_ignored)"

definition interval_range :: "string \<Rightarrow> nat \<Rightarrow> range_result" where
  "interval_range spec n =
     (case strtoll spec of
        (first, rest, erange) \<Rightarrow>
          if rest \<noteq> spec \<and> \<not> erange \<and> first \<ge> 0 \<and> rest \<noteq> [] \<and> hd rest = CHR ''-'' then
            (if tl rest = [] then
               (if first \<ge> int n then Range_unsatisfiable
                else Range_slice (nat first) (n - nat first))
             else
               (case strtoll (tl rest) of
                  (last_pos, rest2, erange2) \<Rightarrow>
                    if rest2 = [] \<and> \<not> erange2 \<and> last_pos \<ge> first then
                      (if first \<ge> int n then Range_unsatisfiable
                       else
                         let end_pos = (if last_pos \<ge> int n then n - 1 else nat last_pos)
                         in Range_slice (nat first) (end_pos - nat first + 1))
                    else Range_ignored))
          else Range_ignored)"

definition parse_range :: "string \<Rightarrow> nat \<Rightarrow> range_result" where
  "parse_range rng n =
     (if \<not> strncaseeq rng ''bytes='' 6 then Range_ignored
      else
        let spec = drop 6 rng
        in if CHR '','' \<in> set spec then Range_ignored
           else if spec \<noteq> [] \<and> hd spec = CHR ''-'' then suffix_range (tl spec) n
           else interval_range spec n)"

section \<open>The handler\<close>

text \<open>Steps 1 to 6: the file to serve, or the status to answer with.\<close>

definition static_suffix :: "HttpStaticConfig \<Rightarrow> string \<Rightarrow> int + string" where
  "static_suffix cfg path =
     (case extract_suffix (cfg_prefix cfg) path of
        None \<Rightarrow> Inl 404
      | Some suffix \<Rightarrow>
          (case url_decode suffix HTTP_PATH_MAX of
             None \<Rightarrow> Inl 400
           | Some decoded \<Rightarrow>
               if find_sub decoded ''..'' \<noteq> None then Inl 404
               else if has_control_chars decoded then Inl 400
               else if decoded \<noteq> [] then Inr decoded
               else (case cfg_index_file cfg of None \<Rightarrow> Inl 404 | Some i \<Rightarrow> Inr i)))"

definition static_locate :: "fs_view \<Rightarrow> HttpStaticConfig \<Rightarrow> string \<Rightarrow> int + string \<times> stat_info" where
  "static_locate fs cfg name =
     (let fs_path = cfg_root cfg @ ''/'' @ name
      in if length fs_path \<ge> PATH_MAX then Inl 414
         else
           (case fs_stat fs fs_path of
              None \<Rightarrow> Inl 404
            | Some st \<Rightarrow>
                if st_mode st = Directory then
                  (case cfg_index_file cfg of
                     None \<Rightarrow> Inl 404
                   | Some i \<Rightarrow>
                       let p = fs_path @ ''/'' @ i
                       in if length p \<ge> PATH_MAX then Inl 404
                          else
                            (case fs_stat fs p of
                               None \<Rightarrow> Inl 404
                             | Some st' \<Rightarrow> if st_mode st' \<noteq> Regular then Inl 404 else Inr (p, st')))
                else if st_mode st \<noteq> Regular then Inl 404
                else Inr (fs_path, st)))"

definition below_root :: "string \<Rightarrow> string \<Rightarrow> bool" where
  "below_root root_real file_real \<longleftrightarrow>
     strneq file_real root_real (length root_real) \<and>
     (length file_real = length root_real \<or> file_real ! length root_real = CHR ''/'')"

definition static_resolve :: "fs_view \<Rightarrow> HttpStaticConfig \<Rightarrow> string \<Rightarrow> int + string \<times> stat_info" where
  "static_resolve fs cfg path =
     (case static_suffix cfg path of
        Inl status \<Rightarrow> Inl status
      | Inr name \<Rightarrow>
          (case static_locate fs cfg name of
             Inl status \<Rightarrow> Inl status
           | Inr (fs_path, st) \<Rightarrow>
               (case (fs_realpath fs (cfg_root cfg), fs_realpath fs fs_path) of
                  (Some root_real, Some file_real) \<Rightarrow>
                    if below_root root_real file_real then Inr (fs_path, st) else Inl 404
                | _ \<Rightarrow> Inl 404)))"

text \<open>The entity tag: the conversions \<^verbatim>\<open>%llx\<close> of the time and the size.\<close>

definition static_etag :: "stat_info \<Rightarrow> string" where
  "static_etag st =
     ''W/'' @ [DQUOTE] @ show_base 16 (nat (st_mtime st mod 2 ^ 64)) @ ''-'' @ show_base 16 (st_bytes st) @ [DQUOTE]"

definition put_header :: "allocator \<Rightarrow> string \<Rightarrow> string \<Rightarrow> HttpResponse \<Rightarrow> HttpResponse" where
  "put_header mem k v res = snd (set_res_header mem res k v)"

text \<open>Steps 10 and 11: the fields and the file.\<close>

definition static_serve ::
  "allocator \<Rightarrow> fs_view \<Rightarrow> HttpStaticConfig \<Rightarrow> string \<Rightarrow> stat_info \<Rightarrow> HttpResponse \<Rightarrow> HttpResponse" where
  "static_serve mem fs cfg fs_path st res =
     (let r1 = put_header mem ''Content-Type'' (mime_for fs_path) res;
          r2 = put_header mem ''ETag'' (static_etag st) r1;
          r3 = put_header mem ''Last-Modified'' (format_http_time (gmtime fs) (st_mtime st) 64) r2;
          r4 = (if cfg_max_age cfg > 0
                then put_header mem ''Cache-Control'' (''public, max-age='' @ show_nat (cfg_max_age cfg)) r3 else r3)
      in if \<not> mem (length fs_path + 1) then r4\<lparr>file_path := None, res_status := 500\<rparr>
         else
           let r5 = r4\<lparr>file_path := Some fs_path\<rparr>
           in if ranged r5 then r5 else r5\<lparr>res_status := 200\<rparr>)"

definition http_static_handler ::
  "allocator \<Rightarrow> fs_view \<Rightarrow> HttpRequest \<Rightarrow> HttpResponse \<Rightarrow> HttpStaticConfig \<Rightarrow> HttpResponse" where
  "http_static_handler mem fs req res cfg =
     (case static_resolve fs cfg (req_path req) of
        Inl status \<Rightarrow> res\<lparr>res_status := status\<rparr>
      | Inr (fs_path, st) \<Rightarrow>
          let res1 = put_header mem ''Accept-Ranges'' ''bytes'' res;
              etag = static_etag st
          in if etag_matches req etag then put_header mem ''ETag'' etag (res1\<lparr>res_status := 304\<rparr>)
             else
               (case (case http_req_header req (Some ''Range'') of
                        None \<Rightarrow> Range_ignored | Some rng \<Rightarrow> parse_range rng (st_bytes st)) of
                  Range_ignored \<Rightarrow> static_serve mem fs cfg fs_path st res1
                | Range_slice start len \<Rightarrow>
                    static_serve mem fs cfg fs_path st
                      ((put_header mem ''Content-Range''
                         (''bytes '' @ show_nat start @ ''-'' @ show_nat (start + len - 1) @ ''/'' @ show_nat (st_bytes st)) res1)
                       \<lparr>res_status := 206, ranged := True, range_start := start, range_len := len\<rparr>)
                | Range_unsatisfiable \<Rightarrow>
                    (put_header mem ''Content-Range'' (''bytes */'' @ show_nat (st_bytes st)) res1)\<lparr>res_status := 416\<rparr>))"

section \<open>Mounts\<close>

definition strip_slashes :: "string \<Rightarrow> string" where
  "strip_slashes prefix =
     (let p = rev (dropWhile (\<lambda>c. c = CHR ''/'') (rev prefix)) in if p = [] then take 1 prefix else p)"

text \<open>\<^verbatim>\<open>sizeof(HttpStaticMount)\<close> is 40; the newest mount is the head of the list.\<close>

definition http_static_mount ::
  "allocator \<Rightarrow> fs_view \<Rightarrow> HttpStaticConfig list \<Rightarrow> HttpStaticConfig \<Rightarrow> HttpServerResult \<times> HttpStaticConfig list" where
  "http_static_mount mem fs mounts cfg =
     (if cfg_prefix cfg = [] \<or> hd (cfg_prefix cfg) \<noteq> CHR ''/'' \<or> length (cfg_prefix cfg) \<ge> HTTP_PATH_MAX
      then (SERVER_ERROR, mounts)
      else if has_control_chars (cfg_prefix cfg) \<or> CHR ''%'' \<in> set (cfg_prefix cfg) \<or> CHR ''?'' \<in> set (cfg_prefix cfg)
      then (SERVER_ERROR, mounts)
      else
        (case fs_stat fs (cfg_root cfg) of
           None \<Rightarrow> (SERVER_ERROR, mounts)
         | Some st \<Rightarrow>
             if st_mode st \<noteq> Directory then (SERVER_ERROR, mounts)
             else
               let prefix = strip_slashes (cfg_prefix cfg)
               in if \<exists>m \<in> set mounts. cfg_prefix m = prefix then (SERVER_ERROR, mounts)
                  else if \<not> mem 40 \<or> \<not> mem (length prefix + 1) \<or> \<not> mem (length (cfg_root cfg) + 1) \<or>
                    (case cfg_index_file cfg of None \<Rightarrow> False | Some i \<Rightarrow> \<not> mem (length i + 1))
                  then (SERVER_ERROR, mounts)
                  else (SERVER_OK, cfg\<lparr>cfg_prefix := prefix\<rparr> # mounts)))"

datatype HttpStaticDispatchResult =
  HTTP_STATIC_NOT_MATCHED | HTTP_STATIC_SERVED | HTTP_STATIC_METHOD_NOT_ALLOWED

fun http_static_dispatch ::
  "allocator \<Rightarrow> fs_view \<Rightarrow> HttpStaticConfig list \<Rightarrow> HttpRequest \<Rightarrow> HttpResponse
     \<Rightarrow> HttpStaticDispatchResult \<times> HttpResponse" where
  "http_static_dispatch mem fs [] req res = (HTTP_STATIC_NOT_MATCHED, res)"
| "http_static_dispatch mem fs (m # ms) req res =
     (case extract_suffix (cfg_prefix m) (req_path req) of
        None \<Rightarrow> http_static_dispatch mem fs ms req res
      | Some suffix \<Rightarrow>
          if req_method req \<noteq> ''GET'' \<and> req_method req \<noteq> ''HEAD'' then
            (HTTP_STATIC_METHOD_NOT_ALLOWED, put_header mem ''Allow'' ''GET, HEAD'' res)
          else (HTTP_STATIC_SERVED, http_static_handler mem fs req res m))"

definition http_static_mounts_free :: "HttpStaticConfig list \<Rightarrow> HttpStaticConfig list" where
  "http_static_mounts_free mounts = []"

section \<open>Ranges\<close>

lemma parse_range_inside:
  assumes "parse_range rng n = Range_slice start len"
  shows "0 < len \<and> start + len \<le> n"
proof -
  have suf: "suffix_range s n = Range_slice start len \<Longrightarrow> 0 < len \<and> start + len \<le> n" for s
    by (auto simp: suffix_range_def split: prod.splits if_splits)
  have int: "interval_range s n = Range_slice start len \<Longrightarrow> 0 < len \<and> start + len \<le> n" for s
    by (auto simp: interval_range_def Let_def split: prod.splits if_splits)
  show ?thesis
    using assms suf int by (auto simp: parse_range_def Let_def split: if_splits)
qed

lemma show_nat_nonempty [simp]: "show_nat n \<noteq> []"
  using show_nat_digits by blast

lemma show_nat_hd: "hd (show_nat n @ r) \<noteq> CHR ''-'' \<and> is_digit (hd (show_nat n @ r))"
proof -
  have "is_digit (hd (show_nat n))" using show_nat_digits [of n] by simp
  moreover have "hd (show_nat n @ r) = hd (show_nat n)" by simp
  moreover have "\<not> is_digit (CHR ''-'')" by (simp add: is_digit_def)
  ultimately show ?thesis by metis
qed

lemma show_nat_no_comma: "CHR '','' \<notin> set (show_nat n)"
  using show_nat_digits [of n] by (auto simp: is_digit_def)

lemma strtoll_show_dash:
  assumes "int a \<le> LLONG_MAX"
  shows "strtoll (show_nat a @ CHR ''-'' # r) = (int a, CHR ''-'' # r, False)"
  using strtoll_digits [of "show_nat a" "CHR ''-'' # r"] show_nat_digits [of a] assms
  by (simp add: is_digit_def)

lemma parse_range_interval:
  assumes "a \<le> b" and "int b \<le> LLONG_MAX"
  shows "parse_range (''bytes='' @ show_nat a @ ''-'' @ show_nat b) n =
    (if n \<le> a then Range_unsatisfiable else Range_slice a (min b (n - 1) - a + 1))"
proof -
  have st: "strtoll (show_nat a @ CHR ''-'' # show_nat b) = (int a, CHR ''-'' # show_nat b, False)"
    "strtoll (show_nat b) = (int b, [], False)"
    using strtoll_show_dash [of a] strtoll_show_nat [of b] assms by simp_all
  have h: "hd (show_nat a @ CHR ''-'' # show_nat b) \<noteq> CHR ''-''" using show_nat_hd by blast
  have c: "CHR '','' \<notin> set (show_nat a @ CHR ''-'' # show_nat b)" using show_nat_no_comma by simp
  have ne: "CHR ''-'' # show_nat b \<noteq> show_nat a @ CHR ''-'' # show_nat b" by simp
  have "interval_range (show_nat a @ CHR ''-'' # show_nat b) n =
      (if n \<le> a then Range_unsatisfiable else Range_slice a (min b (n - 1) - a + 1))"
    using assms(1) ne by (auto simp: interval_range_def st Let_def min_def)
  then show ?thesis
    using h c by (simp add: parse_range_def strncaseeq_def)
qed

lemma parse_range_open:
  assumes "int a \<le> LLONG_MAX"
  shows "parse_range (''bytes='' @ show_nat a @ ''-'') n =
    (if n \<le> a then Range_unsatisfiable else Range_slice a (n - a))"
proof -
  have st: "strtoll (show_nat a @ ''-'') = (int a, ''-'', False)" using strtoll_show_dash [of a "[]"] assms by simp
  have h: "hd (show_nat a @ ''-'') \<noteq> CHR ''-''" using show_nat_hd by blast
  have c: "CHR '','' \<notin> set (show_nat a @ ''-'')" using show_nat_no_comma by simp
  show ?thesis
    using h c by (simp add: parse_range_def strncaseeq_def interval_range_def st)
qed

lemma parse_range_suffix:
  assumes "int k \<le> LLONG_MAX"
  shows "parse_range (''bytes=-'' @ show_nat k) n =
    (if k = 0 \<or> n = 0 then Range_unsatisfiable else Range_slice (n - min k n) (min k n))"
  using strtoll_show_nat [OF assms] show_nat_no_comma [of k] show_nat_nonempty [of k]
  by (auto simp: parse_range_def strncaseeq_def suffix_range_def min_def simp del: show_nat_nonempty)

section \<open>Containment\<close>

lemma below_root_iff: "below_root r f \<longleftrightarrow> f = r \<or> (\<exists>t. f = r @ CHR ''/'' # t)"
proof
  assume b: "below_root r f"
  then have pre: "take (length r) f = r" by (simp add: below_root_def strneq_def)
  then obtain t where t: "f = r @ t" by (metis append_take_drop_id)
  then show "f = r \<or> (\<exists>t. f = r @ CHR ''/'' # t)" using b by (cases t) (auto simp: below_root_def)
qed (auto simp: below_root_def strneq_def)

lemma static_resolve_Inr:
  assumes "static_resolve fs cfg path = Inr (p, st)"
  shows "\<exists>rr fr. fs_realpath fs (cfg_root cfg) = Some rr \<and> fs_realpath fs p = Some fr \<and> below_root rr fr \<and>
    fs_stat fs p = Some st \<and> st_mode st = Regular \<and> (\<exists>t. p = cfg_root cfg @ ''/'' @ t)"
proof -
  obtain name where n: "static_suffix cfg path = Inr name"
    using assms by (auto simp: static_resolve_def split: sum.splits)
  have l: "static_locate fs cfg name = Inr (p, st)"
    and r: "\<exists>rr fr. fs_realpath fs (cfg_root cfg) = Some rr \<and> fs_realpath fs p = Some fr \<and> below_root rr fr"
    using assms n by (auto simp: static_resolve_def split: sum.splits option.splits if_splits)
  have "fs_stat fs p = Some st \<and> st_mode st = Regular \<and> (\<exists>t. p = cfg_root cfg @ ''/'' @ t)"
    using l by (auto simp: static_locate_def Let_def split: option.splits if_splits)
  then show ?thesis using r by blast
qed

lemma static_suffix_clean:
  assumes "static_suffix cfg path = Inr name"
  shows "(\<not> has_control_chars name \<and> find_sub name ''..'' = None) \<or> cfg_index_file cfg = Some name"
  using assms by (auto simp: static_suffix_def split: option.splits if_splits)

lemma put_header_keeps [simp]:
  "file_path (put_header mem k v res) = file_path res"
  "ranged (put_header mem k v res) = ranged res"
  "range_start (put_header mem k v res) = range_start res"
  "range_len (put_header mem k v res) = range_len res"
  "res_status (put_header mem k v res) = res_status res"
  by (simp_all add: put_header_def set_res_header_def split: prod.split)

lemma put_header_inv [inv_intros]:
  "headers_inv (res_headers res) \<Longrightarrow> headers_inv (res_headers (put_header mem k v res))"
  using http_set_header_inv [of "res_headers res" mem "Some k" "Some v"]
  by (auto simp: put_header_def set_res_header_def split: prod.split)

lemma static_serve_file:
  "file_path (static_serve mem fs cfg p st res) = (if mem (length p + 1) then Some p else None)"
  "ranged (static_serve mem fs cfg p st res) = ranged res"
  "range_start (static_serve mem fs cfg p st res) = range_start res"
  "range_len (static_serve mem fs cfg p st res) = range_len res"
  by (simp_all add: static_serve_def Let_def)

lemma handler_file:
  assumes "file_path res = None" and "\<not> ranged res"
    and "file_path (http_static_handler mem fs req res cfg) = Some p"
  obtains st where "static_resolve fs cfg (req_path req) = Inr (p, st)"
    and "ranged (http_static_handler mem fs req res cfg) \<longrightarrow>
      0 < range_len (http_static_handler mem fs req res cfg) \<and>
      range_start (http_static_handler mem fs req res cfg) + range_len (http_static_handler mem fs req res cfg) \<le> st_bytes st"
proof -
  obtain q st where r: "static_resolve fs cfg (req_path req) = Inr (q, st)"
    using assms by (cases "static_resolve fs cfg (req_path req)") (auto simp: http_static_handler_def)
  define rr where "rr = (case http_req_header req (Some ''Range'') of
      None \<Rightarrow> Range_ignored | Some rng \<Rightarrow> parse_range rng (st_bytes st))"
  have inside: "rr = Range_slice a b \<Longrightarrow> 0 < b \<and> a + b \<le> st_bytes st" for a b
    using parse_range_inside by (auto simp: rr_def split: option.splits)
  show thesis
  proof (rule that [of st])
    show "static_resolve fs cfg (req_path req) = Inr (p, st)"
      using r assms(1,3)
      by (auto simp: http_static_handler_def Let_def rr_def [symmetric] static_serve_file
          split: if_splits range_result.splits)
    show "ranged (http_static_handler mem fs req res cfg) \<longrightarrow>
      0 < range_len (http_static_handler mem fs req res cfg) \<and>
      range_start (http_static_handler mem fs req res cfg) + range_len (http_static_handler mem fs req res cfg) \<le> st_bytes st"
      using r assms(2) inside
      by (auto simp: http_static_handler_def Let_def rr_def [symmetric] static_serve_file
          split: if_splits range_result.splits)
  qed
qed

section \<open>Properties\<close>

text \<open>C4: a file that the static handler serves is a regular file whose resolved path, with all symbolic
  links followed, is the resolved root or lies below it, and whose URL-decoded name has neither a
  \<^verbatim>\<open>..\<close> nor a control character unless it is the configured index file.\<close>

theorem static_file_is_contained:
  assumes "file_path res = None" and "\<not> ranged res"
    and "file_path (http_static_handler mem fs req res cfg) = Some p"
  shows "\<exists>rr fr st name. fs_realpath fs (cfg_root cfg) = Some rr \<and> fs_realpath fs p = Some fr \<and>
    (fr = rr \<or> (\<exists>t. fr = rr @ CHR ''/'' # t)) \<and> fs_stat fs p = Some st \<and> st_mode st = Regular \<and>
    static_suffix cfg (req_path req) = Inr name \<and>
    ((\<not> has_control_chars name \<and> find_sub name ''..'' = None) \<or> cfg_index_file cfg = Some name)"
proof -
  obtain st where st: "static_resolve fs cfg (req_path req) = Inr (p, st)" using handler_file [OF assms] .
  then obtain name where "static_suffix cfg (req_path req) = Inr name"
    by (auto simp: static_resolve_def split: sum.splits)
  then show ?thesis using static_resolve_Inr [OF st] static_suffix_clean below_root_iff by metis
qed

theorem static_file_is_contained_witness:
  "\<exists>fr. fs_realpath \<lparr>fs_stat = (\<lambda>p. Some \<lparr>st_mode = Regular, st_bytes = 3, st_mtime = 7\<rparr>), fs_realpath = (\<lambda>p. Some p),
       gmtime = (\<lambda>t. \<lparr>tm_wday = 0, tm_mday = 1, tm_mon = 0, tm_year = 70, tm_hour = 0, tm_min = 0, tm_sec = 0\<rparr>)\<rparr>
     ''/w/a.txt'' = Some fr \<and> (fr = ''/w'' \<or> (\<exists>t. fr = ''/w'' @ CHR ''/'' # t))"
proof -
  let ?fs = "\<lparr>fs_stat = (\<lambda>p. Some \<lparr>st_mode = Regular, st_bytes = 3, st_mtime = 7\<rparr>), fs_realpath = (\<lambda>p. Some p),
       gmtime = (\<lambda>t. \<lparr>tm_wday = 0, tm_mday = 1, tm_mon = 0, tm_year = 70, tm_hour = 0, tm_min = 0, tm_sec = 0\<rparr>)\<rparr>"
  let ?cfg = "\<lparr>cfg_prefix = ''/p'', cfg_root = ''/w'', cfg_index_file = None, cfg_max_age = 0\<rparr>"
  let ?req = "empty_request\<lparr>req_path := ''/p/a.txt''\<rparr>"
  have "static_resolve ?fs ?cfg ''/p/a.txt'' = Inr (''/w/a.txt'', \<lparr>st_mode = Regular, st_bytes = 3, st_mtime = 7\<rparr>)"
    by (simp add: static_resolve_def static_suffix_def extract_suffix_def strneq_def url_decode_def limit_defs
        find_sub_Cons find_sub_Nil starts_with_def static_locate_def PATH_MAX_def below_root_def)
  moreover have "\<not> etag_matches ?req e" for e by (simp add: etag_matches_def empty_request_def no_headers_def)
  ultimately have "file_path (http_static_handler (\<lambda>n. True) ?fs ?req empty_response ?cfg) = Some ''/w/a.txt''"
    by (simp add: http_static_handler_def http_req_header_def static_serve_file Let_def empty_request_def no_headers_def)
  then have "\<exists>rr fr. fs_realpath ?fs (cfg_root ?cfg) = Some rr \<and> fs_realpath ?fs ''/w/a.txt'' = Some fr \<and>
      (fr = rr \<or> (\<exists>t. fr = rr @ CHR ''/'' # t))"
    using static_file_is_contained [of empty_response "\<lambda>n. True" ?fs ?req ?cfg "''/w/a.txt''"]
    by (auto simp: empty_response_def)
  then show ?thesis by auto
qed

text \<open>The three forms of a single byte range are read as the header field defines them: the interval
  is clamped to the file, an open interval runs to its end, a suffix is the last bytes, and a range
  that selects nothing is unsatisfiable. A slice is never empty and never leaves the file.\<close>

theorem byte_ranges_correct:
  assumes "a \<le> b" and "int b \<le> LLONG_MAX"
  shows "parse_range (''bytes='' @ show_nat a @ ''-'' @ show_nat b) n =
      (if n \<le> a then Range_unsatisfiable else Range_slice a (min b (n - 1) - a + 1)) \<and>
    parse_range (''bytes='' @ show_nat a @ ''-'') n =
      (if n \<le> a then Range_unsatisfiable else Range_slice a (n - a)) \<and>
    parse_range (''bytes=-'' @ show_nat b) n =
      (if b = 0 \<or> n = 0 then Range_unsatisfiable else Range_slice (n - min b n) (min b n)) \<and>
    (\<forall>rng start len. parse_range rng n = Range_slice start len \<longrightarrow> 0 < len \<and> start + len \<le> n)"
  using parse_range_interval [OF assms] parse_range_open [of a n] parse_range_suffix [OF assms(2)]
    parse_range_inside assms by auto

theorem byte_ranges_correct_witness:
  "parse_range (''bytes='' @ show_nat 2 @ ''-'' @ show_nat 9) 5 = Range_slice 2 3"
  using byte_ranges_correct [of 2 9 5] by (simp add: LLONG_MAX_def)

text \<open>A mount whose root resolves to the file system root serves nothing: every file below it is
  answered with 404, because the resolved root already ends in the slash that the check expects
  after it.\<close>

theorem root_directory_mount_serves_nothing:
  assumes "fs_realpath fs (cfg_root cfg) = Some ''/''"
    and "\<And>p fr. fs_realpath fs p = Some fr \<Longrightarrow> fr = ''/'' \<or> (\<exists>c t. fr = CHR ''/'' # c # t \<and> c \<noteq> CHR ''/'')"
    and "\<And>p st. fs_realpath fs p = Some ''/'' \<Longrightarrow> fs_stat fs p = Some st \<Longrightarrow> st_mode st = Directory"
    and "file_path res = None" and "\<not> ranged res"
  shows "file_path (http_static_handler mem fs req res cfg) = None"
proof (rule ccontr)
  assume "\<not> ?thesis"
  then obtain p where p: "file_path (http_static_handler mem fs req res cfg) = Some p" by blast
  obtain st where "static_resolve fs cfg (req_path req) = Inr (p, st)" using handler_file [OF assms(4,5) p] .
  then obtain fr where fr: "fs_realpath fs p = Some fr" "below_root ''/'' fr" "fs_stat fs p = Some st" "st_mode st = Regular"
    using static_resolve_Inr assms(1) by fastforce
  have "fr = ''/''" using assms(2) [OF fr(1)] fr(2) by (auto simp: below_root_def)
  then show False using assms(3) [of p st] fr by simp
qed

theorem root_directory_mount_serves_nothing_witness:
  "file_path (http_static_handler (\<lambda>n. True)
      \<lparr>fs_stat = (\<lambda>p. Some \<lparr>st_mode = (if p = ''/'' then Directory else Regular), st_bytes = 3, st_mtime = 7\<rparr>),
       fs_realpath = (\<lambda>p. if p = ''/'' then Some ''/'' else Some ''/a''),
       gmtime = (\<lambda>t. \<lparr>tm_wday = 0, tm_mday = 1, tm_mon = 0, tm_year = 70, tm_hour = 0, tm_min = 0, tm_sec = 0\<rparr>)\<rparr>
      (empty_request\<lparr>req_path := ''/a''\<rparr>) empty_response
      \<lparr>cfg_prefix = ''/'', cfg_root = ''/'', cfg_index_file = None, cfg_max_age = 0\<rparr>) = None"
  by (rule root_directory_mount_serves_nothing) (auto simp: empty_response_def split: if_splits)

end
