(* ===== verification/Ws_Crypto.thy ===== *)
theory Ws_Crypto
  imports Prelude
begin

text \<open>
  The primitives of the websocket handshake (\<^verbatim>\<open>src/c_http_ws.c\<close>): the streaming SHA-1, Base64 and the
  accept key. Registers are 32-bit words and the length counter is a 64-bit word, so that every
  wrap-around of the C code is a wrap-around of the model. The lemmas show that the streaming hash
  equals the one-shot definition of the standard whatever the pieces, that Base64 decoding inverts
  encoding and that the accept key has the 28 characters the response reserves for it.
\<close>

unbundle bit_operations_syntax

section \<open>SHA-1\<close>

type_synonym sha_regs = "u32 \<times> u32 \<times> u32 \<times> u32 \<times> u32"

record Sha1 =
  sha_state :: sha_regs
  sha_total :: u64
  sha_buf :: "char list"

definition rol32 :: "u32 \<Rightarrow> nat \<Rightarrow> u32" where
  "rol32 v bits = push_bit bits v OR drop_bit (32 - bits) v"

definition sha1_init :: Sha1 where
  "sha1_init =
     \<lparr>sha_state = (0x67452301, 0xEFCDAB89, 0x98BADCFE, 0x10325476, 0xC3D2E1F0),
      sha_total = 0, sha_buf = []\<rparr>"

definition be_word :: "char list \<Rightarrow> nat \<Rightarrow> u32" where
  "be_word p i =
     push_bit 24 (of_nat (byte (p ! (4 * i)))) OR push_bit 16 (of_nat (byte (p ! (4 * i + 1)))) OR
     push_bit 8 (of_nat (byte (p ! (4 * i + 2)))) OR of_nat (byte (p ! (4 * i + 3)))"

definition sha1_expand :: "u32 list \<Rightarrow> nat \<Rightarrow> u32 list" where
  "sha1_expand w i = w @ [rol32 (w ! (i - 3) XOR w ! (i - 8) XOR w ! (i - 14) XOR w ! (i - 16)) 1]"

definition sha1_schedule :: "char list \<Rightarrow> u32 list" where
  "sha1_schedule p = foldl sha1_expand (map (be_word p) [0..<16]) [16..<80]"

definition sha1_f :: "nat \<Rightarrow> u32 \<Rightarrow> u32 \<Rightarrow> u32 \<Rightarrow> u32" where
  "sha1_f i b c d =
     (if i < 20 then (b AND c) OR (NOT b AND d)
      else if i < 40 then b XOR c XOR d
      else if i < 60 then (b AND c) OR (b AND d) OR (c AND d)
      else b XOR c XOR d)"

definition sha1_k :: "nat \<Rightarrow> u32" where
  "sha1_k i =
     (if i < 20 then 0x5A827999 else if i < 40 then 0x6ED9EBA1
      else if i < 60 then 0x8F1BBCDC else 0xCA62C1D6)"

definition sha1_round :: "sha_regs \<Rightarrow> nat \<times> u32 \<Rightarrow> sha_regs" where
  "sha1_round = (\<lambda>(a, b, c, d, e) (i, w).
     (rol32 a 5 + sha1_f i b c d + e + sha1_k i + w, a, rol32 b 30, c, d))"

definition sha1_block :: "sha_regs \<Rightarrow> char list \<Rightarrow> sha_regs" where
  "sha1_block st p =
     (case (st, foldl sha1_round st (zip [0..<80] (sha1_schedule p))) of
        ((s0, s1, s2, s3, s4), (a, b, c, d, e)) \<Rightarrow> (s0 + a, s1 + b, s2 + c, s3 + d, s4 + e))"

text \<open>
  The loop of \<^verbatim>\<open>sha1_update\<close>. A full buffer (\<^verbatim>\<open>buf_len >= 64\<close>) would make no progress; the stop at
  that case is never taken, since the buffer is flushed as soon as it is full.
\<close>

function sha1_absorb :: "Sha1 \<Rightarrow> char list \<Rightarrow> Sha1" where
  "sha1_absorb s data =
     (if data = [] \<or> length (sha_buf s) \<ge> 64 then s
      else if sha_buf s = [] \<and> length data \<ge> 64
      then sha1_absorb (s\<lparr>sha_state := sha1_block (sha_state s) (take 64 data)\<rparr>) (drop 64 data)
      else
        let n = min (64 - length (sha_buf s)) (length data);
            buf = sha_buf s @ take n data
        in if length buf = 64
           then sha1_absorb (s\<lparr>sha_state := sha1_block (sha_state s) buf, sha_buf := []\<rparr>) (drop n data)
           else sha1_absorb (s\<lparr>sha_buf := buf\<rparr>) (drop n data))"
  by pat_completeness auto
termination by (relation "measure (\<lambda>(s, data). length data)") auto

declare sha1_absorb.simps [simp del]

definition sha1_update :: "Sha1 \<Rightarrow> char list \<Rightarrow> Sha1" where
  "sha1_update s data = sha1_absorb (s\<lparr>sha_total := sha_total s + of_nat (length data)\<rparr>) data"

section \<open>The standard's definition\<close>

text \<open>Whole blocks are folded into the registers, the rest is kept.\<close>

function sha_run :: "sha_regs \<Rightarrow> char list \<Rightarrow> sha_regs \<times> char list" where
  "sha_run st xs =
     (if length xs < 64 then (st, xs) else sha_run (sha1_block st (take 64 xs)) (drop 64 xs))"
  by pat_completeness auto
termination by (relation "measure (\<lambda>(st, xs). length xs)") auto

declare sha_run.simps [simp del]

lemma sha_run_short [simp]: "length xs < 64 \<Longrightarrow> sha_run st xs = (st, xs)"
  by (simp add: sha_run.simps)

lemma sha_run_block: "length b = 64 \<Longrightarrow> sha_run st (b @ xs) = sha_run (sha1_block st b) xs"
  by (simp add: sha_run.simps [of st "b @ xs"])

lemma sha_run_rest: "length (snd (sha_run st xs)) = length xs mod 64"
proof (induction st xs rule: sha_run.induct)
  case (1 st xs)
  then show ?case
    by (cases "length xs < 64") (simp_all add: sha_run.simps [of st xs] le_mod_geq)
qed

lemma sha_run_append:
  "sha_run st (xs @ ys) = (case sha_run st xs of (st', r) \<Rightarrow> sha_run st' (r @ ys))"
proof (induction st xs rule: sha_run.induct)
  case (1 st xs)
  show ?case
  proof (cases "length xs < 64")
    case False
    have "sha_run st (xs @ ys) = sha_run (sha1_block st (take 64 xs)) (drop 64 xs @ ys)"
      using False by (simp add: sha_run.simps [of st "xs @ ys"])
    with 1 False show ?thesis by (simp add: sha_run.simps [of st xs])
  qed simp
qed

lemma sha1_absorb_run:
  "length (sha_buf s) < 64 \<Longrightarrow>
     sha1_absorb s data =
       s\<lparr>sha_state := fst (sha_run (sha_state s) (sha_buf s @ data)),
         sha_buf := snd (sha_run (sha_state s) (sha_buf s @ data))\<rparr>"
proof (induction s data rule: sha1_absorb.induct)
  case (1 s data)
  show ?case
  proof (cases "data = []")
    case True
    with "1.prems" show ?thesis by (simp add: sha1_absorb.simps)
  next
    case ne: False
    have go: "\<not> (data = [] \<or> 64 \<le> length (sha_buf s))" using ne "1.prems" by simp
    show ?thesis
    proof (cases "sha_buf s = [] \<and> length data \<ge> 64")
      case True
      have "sha_run (sha_state s) data =
          sha_run (sha1_block (sha_state s) (take 64 data)) (drop 64 data)"
        using True by (simp add: sha_run.simps [of "sha_state s" data])
      moreover have "sha1_absorb s data =
          sha1_absorb (s\<lparr>sha_state := sha1_block (sha_state s) (take 64 data)\<rparr>) (drop 64 data)"
        using True go by (simp add: sha1_absorb.simps [of s data])
      ultimately show ?thesis using "1.IH"(1) [OF go True] True by simp
    next
      case False
      define n where "n = min (64 - length (sha_buf s)) (length data)"
      define buf where "buf = sha_buf s @ take n data"
      have split: "sha_buf s @ data = buf @ drop n data" by (simp add: buf_def)
      have step: "sha1_absorb s data =
          (if length buf = 64
           then sha1_absorb (s\<lparr>sha_state := sha1_block (sha_state s) buf, sha_buf := []\<rparr>) (drop n data)
           else sha1_absorb (s\<lparr>sha_buf := buf\<rparr>) (drop n data))"
        unfolding sha1_absorb.simps [of s data] Let_def n_def buf_def using go False by (simp only: if_False)
      show ?thesis
      proof (cases "length buf = 64")
        case True
        let ?s = "s\<lparr>sha_state := sha1_block (sha_state s) buf, sha_buf := []\<rparr>"
        have "sha1_absorb s data = sha1_absorb ?s (drop n data)"
          using step True by simp
        moreover have "sha_run (sha_state s) (sha_buf s @ data) = sha_run (sha_state ?s) (drop n data)"
          unfolding split using sha_run_block [OF True] by simp
        ultimately show ?thesis using "1.IH"(2) [OF go False n_def buf_def True] by simp
      next
        case nf: False
        then have "length buf < 64" using "1.prems" by (auto simp: buf_def n_def min_def split: if_splits)
        moreover have "sha1_absorb s data = sha1_absorb (s\<lparr>sha_buf := buf\<rparr>) (drop n data)"
          using step nf by simp
        ultimately show ?thesis using "1.IH"(3) [OF go False n_def buf_def nf] by (simp add: split)
      qed
    qed
  qed
qed

lemma sha1_update_run:
  assumes "length (sha_buf s) < 64"
  shows "sha1_update s data =
     \<lparr>sha_state = fst (sha_run (sha_state s) (sha_buf s @ data)),
      sha_total = sha_total s + of_nat (length data),
      sha_buf = snd (sha_run (sha_state s) (sha_buf s @ data))\<rparr>"
  using assms by (simp add: sha1_update_def sha1_absorb_run)

section \<open>Padding\<close>

lemma sha1_update_buf:
  "length (sha_buf s) < 64 \<Longrightarrow> length (sha_buf (sha1_update s data)) = (length (sha_buf s) + length data) mod 64"
  by (simp add: sha1_update_run sha_run_rest)

definition pad_room :: "nat \<Rightarrow> nat" where
  "pad_room l = (if l \<le> 56 then 56 - l else 120 - l)"

text \<open>The loop of \<^verbatim>\<open>sha1_final\<close> that feeds zero bytes until 56 bytes are buffered.\<close>

function sha1_pad :: "Sha1 \<Rightarrow> Sha1" where
  "sha1_pad s =
     (if length (sha_buf s) = 56 \<or> length (sha_buf s) \<ge> 64 then s else sha1_pad (sha1_update s [NUL]))"
  by pat_completeness auto
termination
  by (relation "measure (\<lambda>s. pad_room (length (sha_buf s)))")
    (auto simp: sha1_update_buf pad_room_def mod_if)

declare sha1_pad.simps [simp del]

definition byte_at :: "'a::len word \<Rightarrow> nat \<Rightarrow> char" where
  "byte_at w k = char_of (unat (drop_bit k w))"

definition length_bytes :: "u64 \<Rightarrow> char list" where
  "length_bytes bits = map (\<lambda>i. byte_at bits (56 - 8 * i)) [0..<8]"

definition digest_bytes :: "sha_regs \<Rightarrow> char list" where
  "digest_bytes = (\<lambda>(s0, s1, s2, s3, s4).
     concat (map (\<lambda>w. [byte_at w 24, byte_at w 16, byte_at w 8, byte_at w 0]) [s0, s1, s2, s3, s4]))"

definition sha1_final :: "Sha1 \<Rightarrow> char list" where
  "sha1_final s =
     (let bits = sha_total s * 8;
          s1 = sha1_pad (sha1_update s [CHR 0x80]);
          s2 = sha1_update s1 (length_bytes bits)
      in digest_bytes (sha_state s2))"

text \<open>FIPS 180: the padded message, block by block.\<close>

definition sha1_padding :: "nat \<Rightarrow> char list" where
  "sha1_padding n = CHR 0x80 # replicate ((119 - n mod 64) mod 64) NUL @ length_bytes (of_nat (8 * n))"

definition sha1_spec :: "char list \<Rightarrow> char list" where
  "sha1_spec msg = digest_bytes (fst (sha_run (sha_state sha1_init) (msg @ sha1_padding (length msg))))"

lemma sha1_pad_run:
  "length (sha_buf s) < 64 \<Longrightarrow>
     \<exists>t. sha1_pad s =
       \<lparr>sha_state = fst (sha_run (sha_state s) (sha_buf s @ replicate (pad_room (length (sha_buf s))) NUL)),
        sha_total = t,
        sha_buf = snd (sha_run (sha_state s) (sha_buf s @ replicate (pad_room (length (sha_buf s))) NUL))\<rparr>"
proof (induction s rule: sha1_pad.induct)
  case (1 s)
  let ?l = "length (sha_buf s)"
  show ?case
  proof (cases "?l = 56")
    case True
    then have "sha1_pad s = s" by (simp add: sha1_pad.simps)
    with True show ?thesis by (intro exI [of _ "sha_total s"]) (simp add: pad_room_def)
  next
    case False
    define s' where "s' = sha1_update s [NUL]"
    have go: "\<not> (?l = 56 \<or> 64 \<le> ?l)" using False "1.prems" by simp
    have l': "length (sha_buf s') = (?l + 1) mod 64"
      using "1.prems" by (simp add: s'_def sha1_update_buf)
    then have "length (sha_buf s') < 64" by simp
    from "1.IH" [OF go, folded s'_def, OF this] obtain t where t: "sha1_pad s' =
       \<lparr>sha_state = fst (sha_run (sha_state s') (sha_buf s' @ replicate (pad_room (length (sha_buf s'))) NUL)),
        sha_total = t,
        sha_buf = snd (sha_run (sha_state s') (sha_buf s' @ replicate (pad_room (length (sha_buf s'))) NUL))\<rparr>" ..
    have "pad_room ?l = Suc (pad_room (length (sha_buf s')))"
      unfolding l' using False "1.prems" by (auto simp: pad_room_def mod_if)
    then have "sha_run (sha_state s) (sha_buf s @ replicate (pad_room ?l) NUL) =
        sha_run (sha_state s) ((sha_buf s @ [NUL]) @ replicate (pad_room (length (sha_buf s'))) NUL)"
      by simp
    also have "\<dots> = sha_run (sha_state s') (sha_buf s' @ replicate (pad_room (length (sha_buf s'))) NUL)"
      unfolding sha_run_append [of _ "sha_buf s @ [NUL]"] s'_def sha1_update_run [OF "1.prems"]
      by (simp add: case_prod_beta)
    finally show ?thesis
      using t go by (simp add: sha1_pad.simps [of s] s'_def [symmetric])
  qed
qed

lemma sha1_pieces:
  "foldl sha1_update sha1_init ps =
     \<lparr>sha_state = fst (sha_run (sha_state sha1_init) (concat ps)),
      sha_total = of_nat (length (concat ps)),
      sha_buf = snd (sha_run (sha_state sha1_init) (concat ps))\<rparr>"
proof (induction ps rule: rev_induct)
  case Nil
  show ?case by (simp add: sha1_init_def)
next
  case (snoc p ps)
  have "length (sha_buf (foldl sha1_update sha1_init ps)) < 64"
    unfolding snoc.IH by (simp add: sha_run_rest)
  then show ?case
    by (simp add: sha1_update_run snoc.IH sha_run_append [of _ "concat ps" p] case_prod_beta)
qed

lemma sha1_streaming_spec:
  "sha1_final (foldl sha1_update sha1_init ps) = sha1_spec (concat ps)"
proof -
  let ?msg = "concat ps" and ?st = "sha_state sha1_init"
  define s where "s = foldl sha1_update sha1_init ps"
  define s1 where "s1 = sha1_update s [CHR 0x80]"
  define k where "k = pad_room (length (sha_buf s1))"
  have s: "sha_state s = fst (sha_run ?st ?msg)" "sha_buf s = snd (sha_run ?st ?msg)"
    "sha_total s = of_nat (length ?msg)"
    by (simp_all add: s_def sha1_pieces)
  have b: "length (sha_buf s) = length ?msg mod 64" by (simp add: s sha_run_rest)
  have r1: "sha_run ?st (?msg @ [CHR 0x80]) = (sha_state s1, sha_buf s1)"
    using b by (simp add: s1_def sha1_update_run sha_run_append [of _ ?msg] s case_prod_beta)
  then have b1: "length (sha_buf s1) = (length ?msg + 1) mod 64"
    using sha_run_rest [of ?st "?msg @ [CHR 0x80]"] by simp
  then obtain s2 where s2: "sha1_pad s1 = s2" "sha_run (sha_state s1) (sha_buf s1 @ replicate k NUL) = (sha_state s2, sha_buf s2)"
    using sha1_pad_run [of s1] by (auto simp: k_def)
  have r2: "sha_run ?st ((?msg @ [CHR 0x80]) @ replicate k NUL) = (sha_state s2, sha_buf s2)"
    unfolding sha_run_append [of ?st "?msg @ [CHR 0x80]"] r1 using s2 by simp
  then have "length (sha_buf s2) < 64"
    using sha_run_rest [of ?st "(?msg @ [CHR 0x80]) @ replicate k NUL"] by simp
  then have "sha_state (sha1_update s2 z) = fst (sha_run ?st (((?msg @ [CHR 0x80]) @ replicate k NUL) @ z))" for z
    unfolding sha_run_append [of ?st "(?msg @ [CHR 0x80]) @ replicate k NUL"] r2
    by (simp add: sha1_update_run)
  moreover have "k = (119 - length ?msg mod 64) mod 64"
  proof -
    define n where "n = length ?msg mod 64"
    have n: "n < 64" by (simp add: n_def)
    have "length (sha_buf s1) = (if n = 63 then 0 else n + 1)"
      using b1 by (simp add: n_def mod_Suc)
    moreover have "(119 - n) mod 64 = (if n \<le> 55 then 55 - n else 119 - n)"
      using n le_mod_geq [of 64 "119 - n"] by auto
    ultimately show ?thesis unfolding k_def n_def [symmetric] pad_room_def using n by auto
  qed
  moreover have "sha_total s * 8 = (of_nat (8 * length ?msg) :: u64)" by (simp add: s)
  ultimately show ?thesis
    unfolding sha1_final_def Let_def s_def [symmetric] s1_def [symmetric] s2(1) sha1_spec_def sha1_padding_def
    by simp
qed

section \<open>Base64\<close>

definition B64_CHARS :: string where
  "B64_CHARS = ''ABCDEFGHIJKLMNOPQRSTUVWXYZabcdefghijklmnopqrstuvwxyz0123456789+/''"

definition b64_word :: "char \<Rightarrow> char \<Rightarrow> char \<Rightarrow> u32" where
  "b64_word a b c = push_bit 16 (of_nat (byte a)) OR push_bit 8 (of_nat (byte b)) OR of_nat (byte c)"

definition b64_digit :: "u32 \<Rightarrow> nat \<Rightarrow> char" where
  "b64_digit v k = B64_CHARS ! unat (drop_bit k v AND 0x3F)"

text \<open>A remainder of one or two bytes is shifted in as if zero bytes followed.\<close>

fun base64_groups :: "char list \<Rightarrow> string" where
  "base64_groups (a # b # c # rest) =
     (let v = b64_word a b c
      in [b64_digit v 18, b64_digit v 12, b64_digit v 6, b64_digit v 0] @ base64_groups rest)"
| "base64_groups [a, b] =
     (let v = b64_word a b NUL in [b64_digit v 18, b64_digit v 12, b64_digit v 6, CHR ''=''])"
| "base64_groups [a] =
     (let v = b64_word a NUL NUL in [b64_digit v 18, b64_digit v 12, CHR ''='', CHR ''=''])"
| "base64_groups [] = []"

text \<open>\<^const>\<open>None\<close> is the return value 0 for a buffer that is too small.\<close>

definition base64_encode :: "char list \<Rightarrow> nat \<Rightarrow> string option" where
  "base64_encode inp out_size =
     (if out_size < (length inp + 2) div 3 * 4 + 1 then None else Some (base64_groups inp))"

definition base64_value :: "char \<Rightarrow> int" where
  "base64_value c =
     (if is_upper c then int (byte c) - int (byte (CHR ''A''))
      else if is_lower c then int (byte c) - int (byte (CHR ''a'')) + 26
      else if is_digit c then int (byte c) - int (byte (CHR ''0'')) + 52
      else if c = CHR ''+'' then 62
      else if c = CHR ''/'' then 63
      else - 1)"

text \<open>One group: \<open>j\<close> is the position, \<open>pad\<close> the padding seen, \<open>v\<close> the values so far.\<close>

fun b64_quad :: "bool \<Rightarrow> nat \<Rightarrow> nat \<Rightarrow> int list \<Rightarrow> string \<Rightarrow> (int list \<times> nat) option" where
  "b64_quad final j pad v [] = Some (v, pad)"
| "b64_quad final j pad v (c # cs) =
     (if c = CHR ''='' then
        (if \<not> final \<or> j < 2 then None else b64_quad final (j + 1) (pad + 1) (v @ [0]) cs)
      else if pad > 0 then None
      else if base64_value c < 0 then None
      else b64_quad final (j + 1) pad (v @ [base64_value c]) cs)"

definition b64_join :: "int list \<Rightarrow> u32" where
  "b64_join v =
     push_bit 18 (word_of_int (v ! 0)) OR push_bit 12 (word_of_int (v ! 1)) OR
     push_bit 6 (word_of_int (v ! 2)) OR word_of_int (v ! 3)"

fun base64_decode_loop :: "nat \<Rightarrow> char list \<Rightarrow> string \<Rightarrow> char list option" where
  "base64_decode_loop out_size out (a # b # c # d # rest) =
     (case b64_quad (rest = []) 0 0 [] [a, b, c, d] of
        None \<Rightarrow> None
      | Some (v, pad) \<Rightarrow>
          let produced = 3 - pad; acc = b64_join v
          in if length out + produced > out_size then None
             else base64_decode_loop out_size
                    (out @ take produced [byte_at acc 16, byte_at acc 8, byte_at acc 0]) rest)"
| "base64_decode_loop out_size out rest = Some out"

definition base64_decode :: "string \<Rightarrow> nat \<Rightarrow> char list option" where
  "base64_decode inp out_size =
     (if length inp = 0 \<or> length inp mod 4 \<noteq> 0 then None else base64_decode_loop out_size [] inp)"

definition WS_GUID :: string where
  "WS_GUID = ''258EAFA5-E914-47DA-95CA-C5AB0DC85B11''"

definition ws_accept_key :: "string \<Rightarrow> nat \<Rightarrow> string option" where
  "ws_accept_key key out_size =
     (if out_size < 29 then None
      else
        (case base64_encode (sha1_final (sha1_update (sha1_update sha1_init key) WS_GUID)) out_size of
           None \<Rightarrow> None
         | Some out \<Rightarrow> if length out = 28 then Some out else None))"

section \<open>Decoding inverts encoding\<close>

lemma b64_chars_values:
  "map base64_value B64_CHARS = [0..63]" "length B64_CHARS = 64" "CHR ''='' \<notin> set B64_CHARS"
  by (simp_all add: B64_CHARS_def base64_value_def is_upper_def is_lower_def is_digit_def upto_rec1)

lemma b64_chars_nth:
  assumes "n < 64"
  shows "base64_value (B64_CHARS ! n) = int n" "B64_CHARS ! n \<noteq> CHR ''=''"
proof -
  have "base64_value (B64_CHARS ! n) = [0..63] ! n"
    using assms b64_chars_values(1,2) nth_map [of n B64_CHARS base64_value] by simp
  then show "base64_value (B64_CHARS ! n) = int n" using assms by (simp add: nth_upto)
  show "B64_CHARS ! n \<noteq> CHR ''=''"
    using assms b64_chars_values(2,3) nth_mem [of n B64_CHARS] by metis
qed

lemma and_63: "x AND 0x3F = take_bit 6 x" for x :: u32
  by (simp add: take_bit_eq_mask mask_numeral)

lemma b64_digit_index: "unat (drop_bit k v AND 0x3F) < 64" for v :: u32
  using take_bit_nat_less_exp [of 6 "unat (drop_bit k v)"]
  by (simp add: and_63 unsigned_take_bit_eq)

lemma b64_digit_value:
  "base64_value (b64_digit v k) = uint (drop_bit k v AND 63)" "b64_digit v k \<noteq> CHR ''=''"
  using b64_chars_nth [OF b64_digit_index [of k v]] by (simp_all add: b64_digit_def)

lemma byte_atI:
  assumes "take_bit 8 (drop_bit k w) = (of_nat (byte c) :: u32)"
  shows "byte_at w k = c"
proof -
  have "unat (take_bit 8 (drop_bit k w)) = unat (of_nat (byte c) :: u32)" using assms by simp
  also have "\<dots> = byte c"
    using less_trans [OF byte_less_256 [of c], of "2 ^ 32"] by (simp add: unat_of_nat)
  finally have "take_bit 8 (unat (drop_bit k w)) = byte c"
    by (simp only: unsigned_take_bit_eq)
  then have "unat (drop_bit k w) mod 256 = byte c" by (simp add: take_bit_eq_mod)
  then show ?thesis by (simp add: byte_at_def)
qed

lemma bit_byte: "bit (byte c) n \<Longrightarrow> n < 8"
proof -
  assume b: "bit (byte c) n"
  have "take_bit 8 (byte c) = byte c"
    using byte_less_256 [of c] by (simp add: take_bit_eq_mod)
  with b show "n < 8" by (metis bit_take_bit_iff)
qed

lemma bit_byte_high [simp]: "8 \<le> n \<Longrightarrow> \<not> bit (byte c) n"
  using bit_byte [of c n] by auto

lemma b64_word_bytes:
  "byte_at (b64_word a b c) 16 = a" "byte_at (b64_word a b c) 8 = b" "byte_at (b64_word a b c) 0 = c"
  by (rule byte_atI, rule bit_eqI, force simp: b64_word_def bit_simps dest: bit_byte)+

lemma b64_digits_join:
  "b64_join (map (\<lambda>k. int (unat (drop_bit k v AND 0x3F))) [18, 12, 6, 0]) = take_bit 24 v"
  (is "?l = ?r")
proof (rule bit_eqI)
  fix n :: nat
  consider "n < 6" | "6 \<le> n" "n < 12" | "12 \<le> n" "n < 18" | "18 \<le> n" "n < 24" | "24 \<le> n" by linarith
  then show "bit ?l n = bit ?r n"
    unfolding b64_join_def and_63 by cases (auto simp: bit_simps)
qed

lemma b64_join_zero:
  "b64_join [uint (drop_bit 18 v AND 63), uint (drop_bit 12 v AND 63),
     uint (drop_bit 6 v AND 63), uint (v AND 63)] = take_bit 24 v"
  using b64_digits_join [of v] by simp

lemma b64_word_small: "take_bit 24 (b64_word a b c) = b64_word a b c"
  by (rule bit_eqI) (force simp: b64_word_def bit_simps dest: bit_byte)

lemma b64_word_pads:
  "drop_bit 0 (b64_word a b NUL) AND 0x3F = 0"
  "drop_bit 6 (b64_word a NUL NUL) AND 0x3F = 0"
  "drop_bit 0 (b64_word a NUL NUL) AND 0x3F = 0"
  unfolding and_63 by (rule bit_eqI, force simp: b64_word_def bit_simps dest: bit_byte)+

lemma base64_groups_Nil: "base64_groups bs = [] \<longleftrightarrow> bs = []"
  by (cases bs rule: base64_groups.cases) (simp_all add: Let_def)

lemma base64_decode_groups:
  "length out + length bs \<le> n \<Longrightarrow> base64_decode_loop n out (base64_groups bs) = Some (out @ bs)"
proof (induction bs arbitrary: out rule: base64_groups.induct)
  case (1 a b c rest)
  let ?v = "b64_word a b c"
  have "base64_decode_loop n out (base64_groups (a # b # c # rest)) =
      base64_decode_loop n (out @ [byte_at ?v 16, byte_at ?v 8, byte_at ?v 0]) (base64_groups rest)"
    using "1.prems" by (simp add: Let_def b64_digit_value b64_join_zero b64_word_small)
  then show ?case using "1.IH" [of ?v "out @ [a, b, c]"] "1.prems" by (simp add: b64_word_bytes)
next
  case (2 a b)
  let ?v = "b64_word a b NUL"
  have "b64_join [uint (drop_bit 18 ?v AND 63), uint (drop_bit 12 ?v AND 63), uint (drop_bit 6 ?v AND 63), 0] = ?v"
    using b64_join_zero [of ?v] b64_word_pads(1) [of a b] b64_word_small by simp
  with 2 show ?case by (simp add: Let_def b64_digit_value b64_word_bytes)
next
  case (3 a)
  let ?v = "b64_word a NUL NUL"
  have "b64_join [uint (drop_bit 18 ?v AND 63), uint (drop_bit 12 ?v AND 63), 0, 0] = ?v"
    using b64_join_zero [of ?v] b64_word_pads(2,3) [of a] b64_word_small by simp
  with 3 show ?case by (simp add: Let_def b64_digit_value b64_word_bytes)
next
  case 4
  then show ?case by simp
qed

lemma base64_groups_length: "length (base64_groups bs) = (length bs + 2) div 3 * 4"
  by (induction bs rule: base64_groups.induct) (simp_all add: Let_def, presburger)

lemma base64_decode_encode:
  assumes "bs \<noteq> []" and "length bs \<le> n" and "base64_encode bs m = Some out"
  shows "base64_decode out n = Some bs"
  using assms base64_decode_groups [of "[]" bs n] base64_groups_Nil [of bs] base64_groups_length [of bs]
  by (auto simp: base64_encode_def base64_decode_def split: if_splits)

lemma digest_length: "length (digest_bytes st) = 20"
  by (simp add: digest_bytes_def split: prod.split)

lemma ws_accept_key_eq:
  "out_size \<ge> 29 \<Longrightarrow> ws_accept_key key out_size = Some (base64_groups (sha1_spec (key @ WS_GUID)))"
  using sha1_streaming_spec [of "[key, WS_GUID]"]
  by (simp add: ws_accept_key_def base64_encode_def base64_groups_length sha1_spec_def digest_length)

section \<open>Properties\<close>


text \<open>Whatever non-empty bytes \<^verbatim>\<open>base64_encode\<close> accepts, \<^verbatim>\<open>base64_decode\<close> gives them back when its output
  buffer has room for them.\<close>

theorem base64_roundtrip:
  assumes "bs \<noteq> []" and "length bs \<le> n" and "base64_encode bs m = Some out"
  shows "base64_decode out n = Some bs"
  using assms by (rule base64_decode_encode)

theorem base64_roundtrip_witness:
  "base64_encode ''M'' 5 = Some ''TQ=='' \<and> base64_decode ''TQ=='' 1 = Some ''M''"
proof -
  have e: "base64_encode ''M'' 5 = Some ''TQ==''"
    by (simp add: base64_encode_def b64_digit_def b64_word_def B64_CHARS_def Let_def)
  then show ?thesis using base64_roundtrip [of "''M''" 1 5 "''TQ==''"] by simp
qed

end
