(* ===== verification/Ws_Vectors.thy ===== *)
theory Ws_Vectors
  imports Ws_Crypto
begin

text \<open>
  The handshake hash evaluated by the simplifier on the example of RFC 6455: the model computes the
  published value.
\<close>

section \<open>Evaluation on ground blocks\<close>

lemma upt_literals:
  "[0..<16] = [0, 1, 2, 3, 4, 5, 6, 7, 8, 9, 10, 11, 12, 13, 14, 15 :: nat]"
  "[16..<80] = [16, 17, 18, 19, 20, 21, 22, 23, 24, 25, 26, 27, 28, 29, 30, 31, 32, 33, 34, 35,
    36, 37, 38, 39, 40, 41, 42, 43, 44, 45, 46, 47, 48, 49, 50, 51, 52, 53, 54, 55, 56, 57, 58, 59,
    60, 61, 62, 63, 64, 65, 66, 67, 68, 69, 70, 71, 72, 73, 74, 75, 76, 77, 78, 79 :: nat]"
  "[0..<80] = [0, 1, 2, 3, 4, 5, 6, 7, 8, 9, 10, 11, 12, 13, 14, 15, 16, 17, 18, 19, 20, 21, 22,
    23, 24, 25, 26, 27, 28, 29, 30, 31, 32, 33, 34, 35, 36, 37, 38, 39, 40, 41, 42, 43, 44, 45, 46,
    47, 48, 49, 50, 51, 52, 53, 54, 55, 56, 57, 58, 59, 60, 61, 62, 63, 64, 65, 66, 67, 68, 69, 70,
    71, 72, 73, 74, 75, 76, 77, 78, 79 :: nat]"
  "[0..<8] = [0, 1, 2, 3, 4, 5, 6, 7 :: nat]"
  by code_simp+

lemmas sha1_eval =
  sha1_block_def sha1_schedule_def sha1_expand_def rol32_def sha1_round_def sha1_f_def sha1_k_def
  be_word_def upt_literals

lemma replicate_literals:
  "replicate 59 NUL = [NUL, NUL, NUL, NUL, NUL, NUL, NUL, NUL, NUL, NUL, NUL, NUL, NUL, NUL, NUL,
    NUL, NUL, NUL, NUL, NUL, NUL, NUL, NUL, NUL, NUL, NUL, NUL, NUL, NUL, NUL, NUL, NUL, NUL, NUL,
    NUL, NUL, NUL, NUL, NUL, NUL, NUL, NUL, NUL, NUL, NUL, NUL, NUL, NUL, NUL, NUL, NUL, NUL, NUL,
    NUL, NUL, NUL, NUL, NUL, NUL]"
  "replicate 62 NUL = [NUL, NUL, NUL, NUL, NUL, NUL, NUL, NUL, NUL, NUL, NUL, NUL, NUL, NUL, NUL,
    NUL, NUL, NUL, NUL, NUL, NUL, NUL, NUL, NUL, NUL, NUL, NUL, NUL, NUL, NUL, NUL, NUL, NUL, NUL,
    NUL, NUL, NUL, NUL, NUL, NUL, NUL, NUL, NUL, NUL, NUL, NUL, NUL, NUL, NUL, NUL, NUL, NUL, NUL,
    NUL, NUL, NUL, NUL, NUL, NUL, NUL, NUL, NUL]"
  by code_simp+

lemma sha_run_two:
  "length b = 64 \<Longrightarrow> length c = 64 \<Longrightarrow> sha_run st (b @ c) = (sha1_block (sha1_block st b) c, [])"
  using sha_run_block [of b st c] sha_run_block [of c _ "[]"] by simp

text \<open>The two blocks of the example key of RFC 6455, section 1.3.\<close>

lemma sample_block_1:
  "sha1_block (0x67452301, 0xEFCDAB89, 0x98BADCFE, 0x10325476, 0xC3D2E1F0)
     (''dGhlIHNhbXBsZSBub25jZQ=='' @ WS_GUID @ [CHR 0x80, NUL, NUL, NUL]) =
   (0x5BCF7727, 0x7327416A, 0xBE7BFBF9, 0x5A781878, 0x5E46A4E2)"
  by (simp add: sha1_eval WS_GUID_def)

lemma sample_block_2:
  "sha1_block (0x5BCF7727, 0x7327416A, 0xBE7BFBF9, 0x5A781878, 0x5E46A4E2)
     (replicate 62 NUL @ [CHR 0x01, CHR 0xE0]) =
   (0xB37A4F2C, 0xC0624F16, 0x90F64606, 0xCF385945, 0xB2BEC4EA)"
  by (simp add: sha1_eval replicate_literals)

section \<open>Properties\<close>

text \<open>The accept key is the Base64 text of the digest of the key and the fixed identifier, as the
  protocol demands, and for the example key of RFC 6455 it is the value given there.\<close>

theorem accept_key_correct:
  "ws_accept_key key 32 = Some (base64_groups (sha1_spec (key @ WS_GUID))) \<and>
   ws_accept_key ''dGhlIHNhbXBsZSBub25jZQ=='' 32 = Some ''s3pPLMBiTxaQ9kYGzzhZRbK+xOo=''"
proof -
  let ?m = "''dGhlIHNhbXBsZSBub25jZQ=='' @ WS_GUID"
  have "length ?m = 60" by (simp add: WS_GUID_def)
  then have p: "?m @ sha1_padding (length ?m) = (?m @ [CHR 0x80, NUL, NUL, NUL]) @ replicate 62 NUL @ [CHR 0x01, CHR 0xE0]"
    by (simp add: sha1_padding_def length_bytes_def byte_at_def upt_literals replicate_literals)
  let ?b1 = "?m @ [CHR 0x80, NUL, NUL, NUL]" and ?b2 = "replicate 62 NUL @ [CHR 0x01, CHR 0xE0]"
  have "length ?b1 = 64" "length ?b2 = 64" using \<open>length ?m = 60\<close> by simp_all
  then have "sha_run (sha_state sha1_init) (?b1 @ ?b2) = (sha1_block (sha1_block (sha_state sha1_init) ?b1) ?b2, [])"
    by (rule sha_run_two)
  then have "fst (sha_run (sha_state sha1_init) (?m @ sha1_padding (length ?m))) = (0xB37A4F2C, 0xC0624F16, 0x90F64606, 0xCF385945, 0xB2BEC4EA)"
    unfolding p by (simp only: sha1_init_def Sha1.select_convs append_assoc sample_block_1 sample_block_2 fst_conv)
  then have "base64_groups (sha1_spec ?m) = ''s3pPLMBiTxaQ9kYGzzhZRbK+xOo=''"
    unfolding sha1_spec_def
    by (simp add: digest_bytes_def byte_at_def b64_digit_def b64_word_def B64_CHARS_def Let_def)
  then show ?thesis by (simp add: ws_accept_key_eq)
qed

end
