(* ===== verification/Ws_Session.thy ===== *)
theory Ws_Session
  imports Sockets Ws_Crypto
begin

text \<open>
  A websocket session after the handshake (\<^verbatim>\<open>src/c_http_ws.c\<close>): the frame writer, the incremental
  frame parser, the receive loop, the close handshake. The session is a record with the fields of
  \<^verbatim>\<open>struct HttpWs\<close>; a buffer with a length is the list of its valid bytes, its capacity is kept
  beside it, and a NULL message buffer is one of capacity 0. The connection is the socket script
  of theory \<open>Sockets\<close>. \<^verbatim>\<open>ws->lock\<close> makes each send one atomic step; the model is the thread that
  owns the receive side. The field \<open>ws_oob\<close> has no counterpart in the struct: it records that the
  terminating NUL of a delivered message was written outside the buffer.
\<close>

section \<open>The session\<close>

type_synonym u16 = "16 word"

definition WS_OP_CONT :: nat where "WS_OP_CONT = 0"
definition WS_OP_TEXT :: nat where "WS_OP_TEXT = 1"
definition WS_OP_BINARY :: nat where "WS_OP_BINARY = 2"
definition WS_OP_CLOSE :: nat where "WS_OP_CLOSE = 8"
definition WS_OP_PING :: nat where "WS_OP_PING = 9"
definition WS_OP_PONG :: nat where "WS_OP_PONG = 10"
definition WS_RECV_BUFFER :: nat where "WS_RECV_BUFFER = 4096"
definition WS_RECV_BUFFER_MAX :: nat where "WS_RECV_BUFFER_MAX = 64 * 1024"
definition HTTP_WS_DEFAULT_MAX_MESSAGE :: nat where "HTTP_WS_DEFAULT_MAX_MESSAGE = 4 * 1024 * 1024"
definition HTTP_WS_POLL_MS :: nat where "HTTP_WS_POLL_MS = 250"
definition HTTP_WS_CLOSE_WAIT_MS :: nat where "HTTP_WS_CLOSE_WAIT_MS = 1000"

lemmas ws_consts =
  WS_OP_CONT_def WS_OP_TEXT_def WS_OP_BINARY_def WS_OP_CLOSE_def WS_OP_PING_def WS_OP_PONG_def
  WS_RECV_BUFFER_def WS_RECV_BUFFER_MAX_def

datatype WsParseState = WS_NEED_HEADER | WS_NEED_LEN16 | WS_NEED_LEN64 | WS_NEED_MASK | WS_NEED_PAYLOAD
datatype WsParseResult =
  WS_PARSE_CONTINUE | WS_PARSE_MESSAGE | WS_PARSE_CLOSED | WS_PARSE_PROTOCOL | WS_PARSE_IO_ERROR
datatype HttpWsResult = HTTP_WS_OK | HTTP_WS_CLOSED | HTTP_WS_ERROR
datatype HttpWsMessageType = HTTP_WS_TEXT | HTTP_WS_BINARY

record HttpWs =
  ws_sock :: socket
  ws_data :: "nat option"
  close_sent :: bool
  close_received :: bool
  dead :: bool
  io_error :: bool
  close_code :: u16
  ws_in :: "char list"
  in_cap :: nat
  ws_pos :: nat
  ws_state :: WsParseState
  ws_fin :: bool
  ws_opcode :: nat
  ws_masked :: bool
  ws_mask :: "char list"
  payload_len :: nat
  payload_done :: nat
  ws_ctrl :: "char list"
  msg_active :: bool
  msg_opcode :: nat
  ws_msg :: "char list"
  msg_cap :: nat
  max_message :: nat
  ws_cur :: "(HttpWsMessageType \<times> char list) option"
  ws_oob :: bool

text \<open>\<^verbatim>\<open>size_t\<close> subtraction.\<close>

definition size_sub :: "nat \<Rightarrow> nat \<Rightarrow> nat" where
  "size_sub a b = nat ((int a - int b) mod 2 ^ 64)"

definition ws_mark_dead :: "HttpWs \<Rightarrow> u16 \<Rightarrow> bool \<Rightarrow> HttpWs" where
  "ws_mark_dead ws code io =
     ws\<lparr>close_code := (if code \<noteq> 0 then code else close_code ws),
        io_error := (if io then True else io_error ws), dead := True\<rparr>"

definition ws_is_dead :: "HttpWs \<Rightarrow> bool" where
  "ws_is_dead ws = dead ws"

section \<open>Writing frames\<close>

definition ws_frame_header :: "nat \<Rightarrow> nat \<Rightarrow> char list" where
  "ws_frame_header opcode len =
     char_of (0x80 OR opcode) #
     (if len \<le> 125 then [char_of len]
      else if len \<le> 0xFFFF then [char_of (126 :: nat), char_of (drop_bit 8 len), char_of len]
      else char_of (127 :: nat) # map (\<lambda>i. char_of (drop_bit (56 - 8 * i) len)) [0..<8])"

definition ws_send_frame_locked :: "HttpWs \<Rightarrow> nat \<Rightarrow> char list \<Rightarrow> int \<times> HttpWs" where
  "ws_send_frame_locked ws opcode payload =
     (case ws_send_raw (ws_sock ws) (ws_frame_header opcode (length payload)) of
        (rc, s1) \<Rightarrow>
          if rc \<noteq> 0 then (- 1, ws\<lparr>ws_sock := s1, dead := True, io_error := True\<rparr>)
          else if payload \<noteq> [] then
            (case ws_send_raw s1 payload of
               (rc2, s2) \<Rightarrow>
                 if rc2 \<noteq> 0 then (- 1, ws\<lparr>ws_sock := s2, dead := True, io_error := True\<rparr>)
                 else (0, ws\<lparr>ws_sock := s2\<rparr>))
          else (0, ws\<lparr>ws_sock := s1\<rparr>))"

definition ws_send_frame :: "HttpWs \<Rightarrow> nat \<Rightarrow> char list \<Rightarrow> int \<times> HttpWs" where
  "ws_send_frame ws opcode payload =
     (if dead ws then (- 1, ws) else ws_send_frame_locked ws opcode payload)"

definition close_payload :: "u16 \<Rightarrow> string option \<Rightarrow> char list" where
  "close_payload code reason =
     (if code = 0 then []
      else [byte_at code 8, byte_at code 0] @
        (case reason of None \<Rightarrow> [] | Some r \<Rightarrow> take (125 - 2) r))"

definition ws_send_close :: "HttpWs \<Rightarrow> u16 \<Rightarrow> string option \<Rightarrow> int \<times> HttpWs" where
  "ws_send_close ws code reason =
     (if dead ws then (- 1, ws\<lparr>close_sent := True\<rparr>)
      else
        (case ws_send_frame_locked ws WS_OP_CLOSE (close_payload code reason) of
           (rc, ws1) \<Rightarrow>
             (rc, ws1\<lparr>close_code := (if \<not> close_sent ws1 \<and> code \<noteq> 0 then code else close_code ws1),
                      close_sent := True\<rparr>)))"

section \<open>The parser\<close>

definition ws_compact :: "HttpWs \<Rightarrow> HttpWs" where
  "ws_compact ws = (if ws_pos ws = 0 then ws else ws\<lparr>ws_in := drop (ws_pos ws) (ws_in ws), ws_pos := 0\<rparr>)"

definition ws_protocol_violation :: "HttpWs \<Rightarrow> u16 \<Rightarrow> WsParseResult \<times> HttpWs" where
  "ws_protocol_violation ws code =
     (WS_PARSE_PROTOCOL, ws_mark_dead (snd (ws_send_close ws code (Some []))) 0 False)"

text \<open>The doubling loop; it starts from 256 or from a capacity above 0.\<close>

function reserve_cap :: "nat \<Rightarrow> nat \<Rightarrow> nat" where
  "reserve_cap cap need =
     (if 0 < cap \<and> cap < need + 1
      then (if cap > SIZE_MAX div 2 then need + 1 else reserve_cap (cap * 2) need)
      else cap)"
  by pat_completeness auto
termination by (relation "measure (\<lambda>(cap, need). need + 1 - cap)") auto

declare reserve_cap.simps [simp del]

definition ws_msg_reserve :: "allocator \<Rightarrow> HttpWs \<Rightarrow> nat \<Rightarrow> HttpWs option" where
  "ws_msg_reserve mem ws need =
     (if need \<le> msg_cap ws then Some ws
      else if need > SIZE_MAX - 1 then None
      else
        let new_cap = reserve_cap (if msg_cap ws = 0 then 256 else msg_cap ws) need
        in if mem new_cap then Some (ws\<lparr>msg_cap := new_cap\<rparr>) else None)"

definition xor_char :: "char \<Rightarrow> char \<Rightarrow> char" where
  "xor_char a b = char_of (byte a XOR byte b)"

text \<open>The bytes \<open>bs\<close> of a payload, from position \<open>i\<close> of the payload on, combined with the mask.\<close>

definition unmask :: "char list \<Rightarrow> nat \<Rightarrow> char list \<Rightarrow> char list" where
  "unmask key i bs = map (\<lambda>j. xor_char (bs ! j) (key ! ((i + j) mod 4))) [0..<length bs]"

definition ws_unmask_chunk :: "HttpWs \<Rightarrow> char list \<times> HttpWs" where
  "ws_unmask_chunk ws =
     (let n = min (payload_len ws - payload_done ws) (length (ws_in ws) - ws_pos ws);
          chunk = unmask (ws_mask ws) (payload_done ws) (take n (drop (ws_pos ws) (ws_in ws)))
      in (chunk,
          ws\<lparr>ws_in := take (ws_pos ws) (ws_in ws) @ chunk @ drop (ws_pos ws + n) (ws_in ws),
             payload_done := payload_done ws + n, ws_pos := ws_pos ws + n\<rparr>))"

definition ws_frame_length_known :: "HttpWs \<Rightarrow> WsParseResult \<times> HttpWs" where
  "ws_frame_length_known ws =
     (if ws_opcode ws < WS_OP_CLOSE \<and> payload_len ws > size_sub (max_message ws) (length (ws_msg ws))
      then ws_protocol_violation ws 1009
      else (WS_PARSE_CONTINUE, ws\<lparr>ws_state := WS_NEED_MASK\<rparr>))"

definition close_frame_code :: "char list \<Rightarrow> u16" where
  "close_frame_code ctrl =
     (if length ctrl \<ge> 2 then push_bit 8 (of_nat (byte (ctrl ! 0))) OR of_nat (byte (ctrl ! 1)) else 0)"

definition ws_handle_control :: "HttpWs \<Rightarrow> WsParseResult \<times> HttpWs" where
  "ws_handle_control ws =
     (if ws_opcode ws = WS_OP_PING then
        (case ws_send_frame ws WS_OP_PONG (ws_ctrl ws) of
           (rc, ws1) \<Rightarrow>
             if rc \<noteq> 0 then (WS_PARSE_IO_ERROR, ws_mark_dead ws1 0 True) else (WS_PARSE_CONTINUE, ws1))
      else if ws_opcode ws = WS_OP_PONG then (WS_PARSE_CONTINUE, ws)
      else if ws_opcode ws = WS_OP_CLOSE then
        (if length (ws_ctrl ws) = 1 then ws_protocol_violation ws 1002
         else
           let code = close_frame_code (ws_ctrl ws);
               ws1 = (if \<not> close_sent ws then snd (ws_send_close ws code (Some [])) else ws)
           in (WS_PARSE_CLOSED, (ws_mark_dead ws1 (if code \<noteq> 0 then code else 1005) False)\<lparr>close_received := True\<rparr>))
      else ws_protocol_violation ws 1002)"

text \<open>One round of the loop of \<^verbatim>\<open>ws_parse\<close>: go round again, stop for more input, or return.\<close>

datatype ws_next = Again HttpWs | Stall | Return "WsParseResult \<times> HttpWs"

definition known_opcode :: "nat \<Rightarrow> bool" where
  "known_opcode op \<longleftrightarrow> op \<in> {WS_OP_CONT, WS_OP_TEXT, WS_OP_BINARY, WS_OP_CLOSE, WS_OP_PING, WS_OP_PONG}"

definition next_of :: "WsParseResult \<times> HttpWs \<Rightarrow> ws_next" where
  "next_of r = (if fst r = WS_PARSE_CONTINUE then Again (snd r) else Return r)"

definition header_step :: "HttpWs \<Rightarrow> ws_next" where
  "header_step ws0 =
     (if length (ws_in ws0) - ws_pos ws0 < 2 then Stall
      else
        let b0 = byte (ws_in ws0 ! ws_pos ws0); b1 = byte (ws_in ws0 ! (ws_pos ws0 + 1));
            op = b0 AND 0x0F; len7 = b1 AND 0x7F;
            ws = ws0\<lparr>ws_pos := ws_pos ws0 + 2, ws_fin := (b0 AND 0x80 \<noteq> 0), ws_opcode := op,
                     ws_masked := (b1 AND 0x80 \<noteq> 0)\<rparr>
        in if b0 AND 0x70 \<noteq> 0 then Return (ws_protocol_violation ws 1002)
           else if \<not> ws_masked ws then Return (ws_protocol_violation ws 1002)
           else if \<not> known_opcode op then Return (ws_protocol_violation ws 1002)
           else if op \<ge> WS_OP_CLOSE \<and> (len7 > 125 \<or> \<not> ws_fin ws)
           then Return (ws_protocol_violation ws 1002)
           else if op < WS_OP_CLOSE \<and> op = WS_OP_CONT \<and> \<not> msg_active ws
           then Return (ws_protocol_violation ws 1002)
           else if op < WS_OP_CLOSE \<and> op \<noteq> WS_OP_CONT \<and> msg_active ws
           then Return (ws_protocol_violation ws 1002)
           else
             let ws1 = (if op < WS_OP_CLOSE \<and> op \<noteq> WS_OP_CONT then ws\<lparr>msg_opcode := op\<rparr> else ws)
             in if len7 < 126 then next_of (ws_frame_length_known (ws1\<lparr>payload_len := len7\<rparr>))
                else if len7 = 126 then Again (ws1\<lparr>ws_state := WS_NEED_LEN16\<rparr>)
                else Again (ws1\<lparr>ws_state := WS_NEED_LEN64\<rparr>))"

definition be_value :: "char list \<Rightarrow> nat" where
  "be_value bs = foldl (\<lambda>n c. n * 256 + byte c) 0 bs"

definition len16_step :: "HttpWs \<Rightarrow> ws_next" where
  "len16_step ws0 =
     (if length (ws_in ws0) - ws_pos ws0 < 2 then Stall
      else
        let ws = ws0\<lparr>payload_len := be_value (take 2 (drop (ws_pos ws0) (ws_in ws0))), ws_pos := ws_pos ws0 + 2\<rparr>
        in if payload_len ws < 126 then Return (ws_protocol_violation ws 1002)
           else next_of (ws_frame_length_known ws))"

text \<open>Eight bytes shifted into a \<^verbatim>\<open>uint64_t\<close> lose nothing; a set top bit is rejected before the cursor moves.\<close>

definition len64_step :: "HttpWs \<Rightarrow> ws_next" where
  "len64_step ws0 =
     (if length (ws_in ws0) - ws_pos ws0 < 8 then Stall
      else
        let len = be_value (take 8 (drop (ws_pos ws0) (ws_in ws0)))
        in if drop_bit 63 len \<noteq> 0 then Return (ws_protocol_violation ws0 1002)
           else
             let ws = ws0\<lparr>payload_len := len, ws_pos := ws_pos ws0 + 8\<rparr>
             in if payload_len ws < 65536 then Return (ws_protocol_violation ws 1002)
                else next_of (ws_frame_length_known ws))"

definition mask_step :: "HttpWs \<Rightarrow> ws_next" where
  "mask_step ws =
     (if length (ws_in ws) - ws_pos ws < 4 then Stall
      else Again (ws\<lparr>ws_mask := take 4 (drop (ws_pos ws) (ws_in ws)), ws_pos := ws_pos ws + 4,
                     payload_done := 0, ws_ctrl := [], ws_state := WS_NEED_PAYLOAD\<rparr>))"

text \<open>
  Delivery of a complete message: the terminator goes to index \<^verbatim>\<open>msg_len\<close>, which is outside the
  buffer if \<^verbatim>\<open>msg_len == msg_cap\<close>.
\<close>

definition deliver :: "allocator \<Rightarrow> HttpWs \<Rightarrow> WsParseResult \<times> HttpWs" where
  "deliver mem ws0 =
     (if msg_cap ws0 = 0 \<and> \<not> mem 1
      then (WS_PARSE_IO_ERROR, ws_mark_dead (snd (ws_send_close ws0 1011 (Some []))) 0 True)
      else
        let ws = (if msg_cap ws0 = 0 then ws0\<lparr>msg_cap := 1\<rparr> else ws0)
        in (WS_PARSE_MESSAGE,
            ws\<lparr>ws_oob := (ws_oob ws \<or> length (ws_msg ws) \<ge> msg_cap ws),
               ws_cur := Some (if msg_opcode ws = WS_OP_TEXT then HTTP_WS_TEXT else HTTP_WS_BINARY, ws_msg ws),
               ws_msg := [], msg_cap := 0, msg_active := False\<rparr>))"

text \<open>
  More payload done than the frame has is impossible (see \<open>ws_inv\<close> below); the model stops there so that
  the loop is total.
\<close>

definition payload_step :: "allocator \<Rightarrow> HttpWs \<Rightarrow> ws_next" where
  "payload_step mem ws =
     (if payload_done ws = payload_len ws then
        (let ws1 = ws\<lparr>ws_state := WS_NEED_HEADER, payload_done := 0\<rparr>
         in if ws_opcode ws1 \<ge> WS_OP_CLOSE then next_of (ws_handle_control ws1)
            else if \<not> ws_fin ws1 then Again (ws1\<lparr>msg_active := True\<rparr>)
            else Return (deliver mem ws1))
      else if length (ws_in ws) - ws_pos ws = 0 \<or> payload_done ws > payload_len ws then Stall
      else
        (case ws_unmask_chunk ws of
           (chunk, ws1) \<Rightarrow>
             if ws_opcode ws1 \<ge> WS_OP_CLOSE then Again (ws1\<lparr>ws_ctrl := ws_ctrl ws1 @ chunk\<rparr>)
             else
               (case ws_msg_reserve mem ws1 (length (ws_msg ws1) + length chunk) of
                  None \<Rightarrow> Return (WS_PARSE_IO_ERROR, ws_mark_dead (snd (ws_send_close ws1 1011 (Some []))) 0 True)
                | Some ws2 \<Rightarrow> Again (ws2\<lparr>ws_msg := ws_msg ws2 @ chunk\<rparr>))))"

definition parse_step :: "allocator \<Rightarrow> HttpWs \<Rightarrow> ws_next" where
  "parse_step mem ws =
     (case ws_state ws of
        WS_NEED_HEADER \<Rightarrow> header_step ws
      | WS_NEED_LEN16 \<Rightarrow> len16_step ws
      | WS_NEED_LEN64 \<Rightarrow> len64_step ws
      | WS_NEED_MASK \<Rightarrow> mask_step ws
      | WS_NEED_PAYLOAD \<Rightarrow> payload_step mem ws)"

section \<open>The loop terminates\<close>

definition ws_left :: "HttpWs \<Rightarrow> nat" where
  "ws_left ws = length (ws_in ws) - ws_pos ws"

definition parse_size :: "HttpWs \<Rightarrow> nat" where
  "parse_size ws = 2 * ws_left ws + (if ws_state ws = WS_NEED_PAYLOAD then 1 else 0)"

text \<open>Everything a send changes of a session is the socket's outgoing side and the flags.\<close>

definition ws_core :: "HttpWs \<Rightarrow> HttpWs" where
  "ws_core ws = ws\<lparr>ws_sock := (ws_sock ws)\<lparr>sends := [], outbox := []\<rparr>, close_sent := False,
     close_received := False, dead := False, io_error := False, close_code := 0\<rparr>"

lemma ws_core_update [simp]:
  "ws_core (ws\<lparr>close_sent := b\<rparr>) = ws_core ws" "ws_core (ws\<lparr>close_received := b\<rparr>) = ws_core ws"
  "ws_core (ws\<lparr>dead := b\<rparr>) = ws_core ws" "ws_core (ws\<lparr>io_error := b\<rparr>) = ws_core ws"
  "ws_core (ws\<lparr>close_code := c\<rparr>) = ws_core ws"
  by (simp_all add: ws_core_def)

lemma ws_core_mark_dead [simp]: "ws_core (ws_mark_dead ws code io) = ws_core ws"
  by (simp add: ws_mark_dead_def)

lemma ws_core_frame:
  "ws_send_frame_locked ws op payload = (rc, ws') \<Longrightarrow> ws_core ws' = ws_core ws"
  by (auto simp: ws_send_frame_locked_def ws_core_def split: prod.splits if_splits dest!: wssock.send_inbox)

lemma ws_core_close [simp]: "ws_core (snd (ws_send_close ws code reason)) = ws_core ws"
  by (auto simp: ws_send_close_def dest: ws_core_frame split: prod.split)

lemma ws_core_violation [simp]: "ws_core (snd (ws_protocol_violation ws code)) = ws_core ws"
  by (simp add: ws_protocol_violation_def)

lemma ws_core_control: "ws_core (snd (ws_handle_control ws)) = ws_core ws"
  by (auto simp: ws_handle_control_def ws_send_frame_def Let_def dest: ws_core_frame split: prod.split)

lemma ws_core_fields:
  assumes "ws_core ws' = ws_core ws"
  shows "ws_in ws' = ws_in ws" "ws_pos ws' = ws_pos ws" "ws_state ws' = ws_state ws"
    "in_cap ws' = in_cap ws" "inbox (ws_sock ws') = inbox (ws_sock ws)" "payload_len ws' = payload_len ws"
    "payload_done ws' = payload_done ws" "ws_ctrl ws' = ws_ctrl ws" "ws_msg ws' = ws_msg ws"
    "msg_cap ws' = msg_cap ws" "max_message ws' = max_message ws" "ws_opcode ws' = ws_opcode ws"
    "ws_mask ws' = ws_mask ws" "msg_active ws' = msg_active ws" "msg_opcode ws' = msg_opcode ws"
    "ws_fin ws' = ws_fin ws" "ws_cur ws' = ws_cur ws" "ws_oob ws' = ws_oob ws"
  using arg_cong [OF assms, of ws_in] arg_cong [OF assms, of ws_pos] arg_cong [OF assms, of ws_state]
    arg_cong [OF assms, of in_cap] arg_cong [OF assms, of payload_len] arg_cong [OF assms, of payload_done]
    arg_cong [OF assms, of ws_ctrl] arg_cong [OF assms, of ws_msg] arg_cong [OF assms, of msg_cap]
    arg_cong [OF assms, of max_message] arg_cong [OF assms, of ws_opcode] arg_cong [OF assms, of ws_mask]
    arg_cong [OF assms, of msg_active] arg_cong [OF assms, of msg_opcode] arg_cong [OF assms, of ws_fin]
    arg_cong [OF assms, of ws_cur] arg_cong [OF assms, of ws_oob] arg_cong [OF assms, of "\<lambda>w. inbox (ws_sock w)"]
  by (simp_all add: ws_core_def)

lemma next_of_Again: "next_of r = Again ws \<longleftrightarrow> r = (WS_PARSE_CONTINUE, ws)"
  by (cases r) (auto simp: next_of_def)

lemma next_of_not_Stall [simp]: "next_of r \<noteq> Stall"
  by (simp add: next_of_def)

lemma next_of_Return: "next_of r = Return q \<longleftrightarrow> r = q \<and> fst q \<noteq> WS_PARSE_CONTINUE"
  by (auto simp: next_of_def)

lemma length_known_Again:
  "ws_frame_length_known ws = (WS_PARSE_CONTINUE, ws') \<Longrightarrow> ws' = ws\<lparr>ws_state := WS_NEED_MASK\<rparr>"
  by (auto simp: ws_frame_length_known_def ws_protocol_violation_def split: if_splits)

lemma control_Again:
  "ws_handle_control ws = (WS_PARSE_CONTINUE, ws') \<Longrightarrow> ws_core ws' = ws_core ws"
  using ws_core_control [of ws] by simp

lemma unmask_length [simp]: "length (unmask key i bs) = length bs"
  by (simp add: unmask_def)

lemma msg_reserve_Some:
  "ws_msg_reserve mem ws need = Some ws' \<Longrightarrow> \<exists>c. ws' = ws\<lparr>msg_cap := c\<rparr>"
  by (auto simp: ws_msg_reserve_def Let_def split: if_splits intro: exI [of _ "msg_cap ws"])

lemma payload_Again:
  assumes "payload_step mem ws = Again ws'" and "ws_state ws = WS_NEED_PAYLOAD"
  shows "parse_size ws' < parse_size ws"
proof (cases "payload_done ws = payload_len ws")
  case True
  let ?ws = "ws\<lparr>ws_state := WS_NEED_HEADER, payload_done := 0\<rparr>"
  have "ws_left ws' = ws_left ws \<and> ws_state ws' = WS_NEED_HEADER"
    using assms True control_Again [of ?ws ws'] ws_core_fields(1-3) [of ws' ?ws]
    by (auto simp: payload_step_def next_of_Again ws_left_def Let_def split: if_splits)
  then show ?thesis using assms(2) by (simp add: parse_size_def)
next
  case False
  have "ws_left ws' < ws_left ws \<and> ws_state ws' = WS_NEED_PAYLOAD"
    using assms False
    by (auto simp: payload_step_def ws_left_def ws_unmask_chunk_def Let_def split: if_splits option.splits
        dest!: msg_reserve_Some)
  then show ?thesis using assms(2) by (simp add: parse_size_def)
qed

lemma parse_step_progress: "parse_step mem ws = Again ws' \<Longrightarrow> parse_size ws' < parse_size ws"
proof (cases "ws_state ws")
  case WS_NEED_HEADER
  assume "parse_step mem ws = Again ws'"
  with WS_NEED_HEADER show ?thesis
    by (auto simp: parse_step_def header_step_def parse_size_def ws_left_def next_of_Again Let_def
        split: if_splits dest!: length_known_Again)
next
  case WS_NEED_LEN16
  assume "parse_step mem ws = Again ws'"
  with WS_NEED_LEN16 show ?thesis
    by (auto simp: parse_step_def len16_step_def parse_size_def ws_left_def next_of_Again Let_def
        split: if_splits dest!: length_known_Again)
next
  case WS_NEED_LEN64
  assume "parse_step mem ws = Again ws'"
  with WS_NEED_LEN64 show ?thesis
    by (auto simp: parse_step_def len64_step_def parse_size_def ws_left_def next_of_Again Let_def
        split: if_splits dest!: length_known_Again)
next
  case WS_NEED_MASK
  assume "parse_step mem ws = Again ws'"
  with WS_NEED_MASK show ?thesis
    by (auto simp: parse_step_def mask_step_def parse_size_def ws_left_def split: if_splits)
next
  case WS_NEED_PAYLOAD
  assume "parse_step mem ws = Again ws'"
  with WS_NEED_PAYLOAD show ?thesis by (auto simp: parse_step_def intro: payload_Again)
qed

function ws_parse :: "allocator \<Rightarrow> HttpWs \<Rightarrow> WsParseResult \<times> HttpWs" where
  "ws_parse mem ws =
     (case parse_step mem ws of
        Again ws' \<Rightarrow> ws_parse mem ws'
      | Stall \<Rightarrow> (WS_PARSE_CONTINUE, ws_compact ws)
      | Return r \<Rightarrow> r)"
  by pat_completeness auto
termination by (relation "measure (\<lambda>(mem, ws). parse_size ws)") (auto simp: parse_step_progress)

declare ws_parse.simps [simp del]

section \<open>Receiving\<close>

text \<open>Growing the receive buffer before the next \<^verbatim>\<open>recv\<close>.\<close>

definition ws_grow :: "allocator \<Rightarrow> HttpWs \<Rightarrow> HttpWs option" where
  "ws_grow mem ws =
     (if length (ws_in ws) = in_cap ws then
        (if in_cap ws \<ge> WS_RECV_BUFFER_MAX then None
         else if in_cap ws * 2 \<le> in_cap ws then None
         else if mem (in_cap ws * 2) then Some (ws\<lparr>in_cap := in_cap ws * 2\<rparr>) else None)
      else Some ws)"

lemmas violation_fields [simp] = ws_core_fields [OF ws_core_violation]
lemmas close_fields [simp] = ws_core_fields [OF ws_core_close]
lemmas control_fields [simp] = ws_core_fields [OF ws_core_control]
lemmas mark_dead_fields [simp] = ws_core_fields [OF ws_core_mark_dead]

text \<open>What a round of the parser never touches.\<close>

definition ws_frame :: "HttpWs \<Rightarrow> recv_event list \<times> nat \<times> nat" where
  "ws_frame ws = (inbox (ws_sock ws), in_cap ws, max_message ws)"

lemma length_known_frame [simp]: "ws_frame (snd (ws_frame_length_known ws)) = ws_frame ws"
  by (simp add: ws_frame_def ws_frame_length_known_def)

lemma ws_frame_closing [simp]:
  "ws_frame (snd (ws_protocol_violation ws c)) = ws_frame ws"
  "ws_frame (snd (ws_send_close ws c reason)) = ws_frame ws"
  "ws_frame (ws_mark_dead ws c io) = ws_frame ws"
  by (simp_all add: ws_frame_def)

lemma ws_frame_update [simp]:
  "ws_frame (ws\<lparr>ws_pos := n\<rparr>) = ws_frame ws" "ws_frame (ws\<lparr>ws_in := xs\<rparr>) = ws_frame ws"
  "ws_frame (ws\<lparr>ws_fin := b\<rparr>) = ws_frame ws" "ws_frame (ws\<lparr>ws_opcode := n\<rparr>) = ws_frame ws"
  "ws_frame (ws\<lparr>ws_masked := b\<rparr>) = ws_frame ws" "ws_frame (ws\<lparr>msg_opcode := n\<rparr>) = ws_frame ws"
  "ws_frame (ws\<lparr>payload_len := n\<rparr>) = ws_frame ws" "ws_frame (ws\<lparr>payload_done := n\<rparr>) = ws_frame ws"
  "ws_frame (ws\<lparr>ws_state := st\<rparr>) = ws_frame ws" "ws_frame (ws\<lparr>ws_mask := xs\<rparr>) = ws_frame ws"
  "ws_frame (ws\<lparr>ws_ctrl := xs\<rparr>) = ws_frame ws" "ws_frame (ws\<lparr>msg_active := b\<rparr>) = ws_frame ws"
  "ws_frame (ws\<lparr>ws_msg := xs\<rparr>) = ws_frame ws" "ws_frame (ws\<lparr>msg_cap := n\<rparr>) = ws_frame ws"
  "ws_frame (ws\<lparr>ws_cur := c\<rparr>) = ws_frame ws" "ws_frame (ws\<lparr>ws_oob := b\<rparr>) = ws_frame ws"
  by (simp_all add: ws_frame_def)

lemma deliver_frame [simp]: "ws_frame (snd (deliver mem ws)) = ws_frame ws"
  by (simp add: deliver_def Let_def)

lemma control_frame [simp]: "ws_frame (snd (ws_handle_control ws)) = ws_frame ws"
  by (simp add: ws_frame_def)

lemma next_of_cases:
  "next_of r = Again ws' \<Longrightarrow> ws' = snd r" "next_of r = Return q \<Longrightarrow> q = r"
  by (auto simp: next_of_def split: if_splits)

lemma header_frame:
  "header_step ws = Again ws' \<Longrightarrow> ws_frame ws' = ws_frame ws"
  "header_step ws = Return r \<Longrightarrow> ws_frame (snd r) = ws_frame ws"
  by (auto simp: header_step_def Let_def split: if_splits dest!: next_of_cases)

lemma length_frame:
  "len16_step ws = Again ws' \<or> len64_step ws = Again ws' \<Longrightarrow> ws_frame ws' = ws_frame ws"
  "len16_step ws = Return r \<or> len64_step ws = Return r \<Longrightarrow> ws_frame (snd r) = ws_frame ws"
  by (auto simp: len16_step_def len64_step_def Let_def split: if_splits dest!: next_of_cases)

lemma unmask_chunk_frame: "ws_unmask_chunk ws = (chunk, ws') \<Longrightarrow> ws_frame ws' = ws_frame ws"
  by (auto simp: ws_unmask_chunk_def Let_def)

lemma payload_frame:
  "payload_step mem ws = Again ws' \<Longrightarrow> ws_frame ws' = ws_frame ws"
  "payload_step mem ws = Return r \<Longrightarrow> ws_frame (snd r) = ws_frame ws"
  by (auto simp: payload_step_def Let_def split: if_splits option.splits prod.splits
      dest!: next_of_cases msg_reserve_Some unmask_chunk_frame)

lemma parse_step_frame:
  "parse_step mem ws = Again ws' \<Longrightarrow> ws_frame ws' = ws_frame ws"
  "parse_step mem ws = Return r \<Longrightarrow> ws_frame (snd r) = ws_frame ws"
  by (auto simp: parse_step_def mask_step_def header_frame length_frame payload_frame
      split: WsParseState.splits if_splits)

lemma ws_parse_frame: "ws_frame (snd (ws_parse mem ws)) = ws_frame ws"
proof (induction mem ws rule: ws_parse.induct)
  case (1 mem ws)
  show ?case
  proof (cases "parse_step mem ws")
    case (Again ws')
    with 1 show ?thesis by (simp add: ws_parse.simps [of mem ws] parse_step_frame(1) [OF Again])
  next
    case Stall
    then show ?thesis by (simp add: ws_parse.simps [of mem ws] ws_compact_def)
  next
    case (Return r)
    then show ?thesis by (simp add: ws_parse.simps [of mem ws] parse_step_frame(2) [OF Return])
  qed
qed

lemma ws_parse_inbox: "ws_parse mem ws = (r, ws') \<Longrightarrow> script_size (ws_sock ws') = script_size (ws_sock ws)"
  using ws_parse_frame [of mem ws] by (simp add: ws_frame_def script_size_def)

lemma ws_grow_Some: "ws_grow mem ws = Some ws' \<Longrightarrow> ws' = ws\<lparr>in_cap := in_cap ws'\<rparr> \<and> in_cap ws \<le> in_cap ws'"
  by (auto simp: ws_grow_def split: if_splits)

lemma ws_grow_script: "ws_grow mem ws = Some ws' \<Longrightarrow> ws_sock ws' = ws_sock ws"
  by (auto simp: ws_grow_def split: if_splits)

function ws_recv_loop :: "allocator \<Rightarrow> HttpWs \<Rightarrow> HttpWsResult \<times> HttpWs" where
  "ws_recv_loop mem ws =
     (case ws_parse mem ws of
        (WS_PARSE_MESSAGE, ws1) \<Rightarrow> (HTTP_WS_OK, ws1)
      | (WS_PARSE_CLOSED, ws1) \<Rightarrow> (HTTP_WS_CLOSED, ws1)
      | (WS_PARSE_PROTOCOL, ws1) \<Rightarrow> (HTTP_WS_CLOSED, ws1)
      | (WS_PARSE_IO_ERROR, ws1) \<Rightarrow> (HTTP_WS_ERROR, ws1)
      | (WS_PARSE_CONTINUE, ws1) \<Rightarrow>
          (case ws_grow mem ws1 of
             None \<Rightarrow> (HTTP_WS_ERROR, ws_mark_dead ws1 0 True)
           | Some ws2 \<Rightarrow>
               (case recv (in_cap ws2 - length (ws_in ws2)) (ws_sock ws2) of
                  (Got bs, s) \<Rightarrow> ws_recv_loop mem (ws2\<lparr>ws_sock := s, ws_in := ws_in ws2 @ bs\<rparr>)
                | (Eof, s) \<Rightarrow> (HTTP_WS_CLOSED, ws_mark_dead (ws2\<lparr>ws_sock := s\<rparr>) 1006 False)
                | (Eintr, s) \<Rightarrow> ws_recv_loop mem (ws2\<lparr>ws_sock := s\<rparr>)
                | (Timeout listening, s) \<Rightarrow>
                    if \<not> listening
                    then (HTTP_WS_CLOSED,
                          ws_mark_dead (snd (ws_send_close (ws2\<lparr>ws_sock := s\<rparr>) 1001 (Some ''server shutting down'')))
                            1001 False)
                    else ws_recv_loop mem (ws2\<lparr>ws_sock := s\<rparr>)
                | (Failed, s) \<Rightarrow> (HTTP_WS_ERROR, ws_mark_dead (ws2\<lparr>ws_sock := s\<rparr>) 1006 True))))"
  by pat_completeness auto
termination
  by (relation "measure (\<lambda>(mem, ws). script_size (ws_sock ws))")
    (auto dest!: sym [of _ "recv _ _"] sym [of _ "ws_parse _ _"] recv_progress ws_parse_inbox ws_grow_script)

declare ws_recv_loop.simps [simp del]

definition http_ws_recv :: "allocator \<Rightarrow> HttpWs \<Rightarrow> HttpWsResult \<times> HttpWs" where
  "http_ws_recv mem ws =
     (if ws_is_dead ws then (if io_error ws then HTTP_WS_ERROR else HTTP_WS_CLOSED, ws)
      else ws_recv_loop mem ws)"

section \<open>Closing\<close>

text \<open>The rounds of \<^verbatim>\<open>ws_drain_close_echo\<close>; leaving the loop marks the session dead.\<close>

fun drain_loop :: "allocator \<Rightarrow> nat \<Rightarrow> HttpWs \<Rightarrow> HttpWs" where
  "drain_loop mem 0 ws = ws_mark_dead ws 0 False"
| "drain_loop mem (Suc n) ws =
     (if close_received ws then ws_mark_dead ws 0 False
      else
        (case ws_grow mem ws of
           None \<Rightarrow> ws_mark_dead ws 0 False
         | Some ws1 \<Rightarrow>
             (case recv (in_cap ws1 - length (ws_in ws1)) (ws_sock ws1) of
                (Got bs, s) \<Rightarrow>
                  (case ws_parse mem (ws1\<lparr>ws_sock := s, ws_in := ws_in ws1 @ bs\<rparr>) of
                     (WS_PARSE_CLOSED, ws2) \<Rightarrow> ws2
                   | (WS_PARSE_PROTOCOL, ws2) \<Rightarrow> ws2
                   | (WS_PARSE_IO_ERROR, ws2) \<Rightarrow> ws_mark_dead ws2 1006 True
                   | (_, ws2) \<Rightarrow> drain_loop mem n ws2)
              | (Eof, s) \<Rightarrow> ws_mark_dead (ws1\<lparr>ws_sock := s\<rparr>) 1006 False
              | (Eintr, s) \<Rightarrow> drain_loop mem n (ws1\<lparr>ws_sock := s\<rparr>)
              | (Timeout l, s) \<Rightarrow> ws_mark_dead (ws1\<lparr>ws_sock := s\<rparr>) 0 False
              | (Failed, s) \<Rightarrow> ws_mark_dead (ws1\<lparr>ws_sock := s\<rparr>) 0 False)))"

definition ws_drain_close_echo :: "allocator \<Rightarrow> HttpWs \<Rightarrow> HttpWs" where
  "ws_drain_close_echo mem ws = drain_loop mem (HTTP_WS_CLOSE_WAIT_MS div HTTP_WS_POLL_MS + 1) ws"

definition http_ws_close :: "allocator \<Rightarrow> HttpWs \<Rightarrow> u16 \<Rightarrow> string option \<Rightarrow> int \<times> HttpWs" where
  "http_ws_close mem ws code reason =
     (if ws_is_dead ws then (0, ws)
      else (case ws_send_close ws code reason of (rc, ws1) \<Rightarrow> (rc, ws_drain_close_echo mem ws1)))"

section \<open>The rest of the session interface\<close>

definition http_ws_send_text :: "HttpWs \<Rightarrow> char list \<Rightarrow> int \<times> HttpWs" where
  "http_ws_send_text ws data = ws_send_frame ws WS_OP_TEXT data"

definition http_ws_send_binary :: "HttpWs \<Rightarrow> char list \<Rightarrow> int \<times> HttpWs" where
  "http_ws_send_binary ws data = ws_send_frame ws WS_OP_BINARY data"

definition http_ws_send_ping :: "HttpWs \<Rightarrow> char list \<Rightarrow> int \<times> HttpWs" where
  "http_ws_send_ping ws data = (if length data > 125 then (- 1, ws) else ws_send_frame ws WS_OP_PING data)"

definition http_ws_set_data :: "HttpWs \<Rightarrow> nat option \<Rightarrow> HttpWs" where
  "http_ws_set_data ws d = ws\<lparr>ws_data := d\<rparr>"

definition http_ws_get_data :: "HttpWs \<Rightarrow> nat option" where
  "http_ws_get_data ws = ws_data ws"

definition http_ws_close_code :: "HttpWs \<Rightarrow> u16" where
  "http_ws_close_code ws = close_code ws"

text \<open>\<^verbatim>\<open>sizeof(HttpWs)\<close> is 352; \<open>mutex_ok\<close> is the outcome of \<^verbatim>\<open>pthread_mutex_init\<close>.\<close>

definition ws_session_create ::
  "allocator \<Rightarrow> bool \<Rightarrow> nat \<Rightarrow> socket \<Rightarrow> char list \<Rightarrow> HttpWs option" where
  "ws_session_create mem mutex_ok max_msg s leftover =
     (let cap = (if WS_RECV_BUFFER < length leftover then length leftover + WS_RECV_BUFFER else WS_RECV_BUFFER)
      in if \<not> mem 352 then None
         else if \<not> mutex_ok then None
         else if \<not> mem cap then None
         else Some
           \<lparr>ws_sock = s, ws_data = None, close_sent = False, close_received = False, dead = False,
            io_error = False, close_code = 0, ws_in = leftover, in_cap = cap, ws_pos = 0,
            ws_state = WS_NEED_HEADER, ws_fin = False, ws_opcode = 0, ws_masked = False,
            ws_mask = replicate 4 NUL, payload_len = 0, payload_done = 0, ws_ctrl = [],
            msg_active = False, msg_opcode = 0, ws_msg = [], msg_cap = 0, max_message = max_msg,
            ws_cur = None, ws_oob = False\<rparr>)"

section \<open>The session invariant\<close>

definition ws_room :: "HttpWs \<Rightarrow> bool" where
  "ws_room ws \<longleftrightarrow>
     ws_pos ws \<le> length (ws_in ws) \<and> length (ws_in ws) \<le> in_cap ws \<and> WS_RECV_BUFFER \<le> in_cap ws \<and>
     max_message ws < 2 ^ 64 \<and> length (ws_msg ws) \<le> max_message ws \<and>
     length (ws_msg ws) \<le> msg_cap ws \<and>
     (\<forall>t d. ws_cur ws = Some (t, d) \<longrightarrow> length d \<le> max_message ws)"

definition ws_state_ok :: "HttpWs \<Rightarrow> bool" where
  "ws_state_ok ws =
     (case ws_state ws of
        WS_NEED_HEADER \<Rightarrow> True
      | WS_NEED_MASK \<Rightarrow>
          if ws_opcode ws \<ge> WS_OP_CLOSE then payload_len ws \<le> 125
          else length (ws_msg ws) + payload_len ws \<le> max_message ws
      | WS_NEED_PAYLOAD \<Rightarrow>
          payload_done ws \<le> payload_len ws \<and> length (ws_mask ws) = 4 \<and>
          (if ws_opcode ws \<ge> WS_OP_CLOSE then payload_len ws \<le> 125 \<and> length (ws_ctrl ws) = payload_done ws
           else length (ws_msg ws) + (payload_len ws - payload_done ws) \<le> max_message ws)
      | _ \<Rightarrow> ws_opcode ws < WS_OP_CLOSE)"

definition ws_inv :: "HttpWs \<Rightarrow> bool" where
  "ws_inv ws \<longleftrightarrow> ws_room ws \<and> ws_state_ok ws"

lemma ws_inv_core:
  assumes "ws_core ws' = ws_core ws"
  shows "ws_inv ws' = ws_inv ws"
  unfolding ws_inv_def ws_room_def ws_state_ok_def by (simp only: ws_core_fields [OF assms])

lemma ws_inv_closing [simp]:
  "ws_inv (snd (ws_protocol_violation ws c)) = ws_inv ws"
  "ws_inv (snd (ws_send_close ws c reason)) = ws_inv ws"
  "ws_inv (ws_mark_dead ws c io) = ws_inv ws"
  "ws_inv (snd (ws_handle_control ws)) = ws_inv ws"
  "ws_inv (ws\<lparr>close_received := b\<rparr>) = ws_inv ws"
  by (rule ws_inv_core, simp add: ws_core_control)+

lemma ws_inv_update [simp]:
  "ws_inv (ws\<lparr>ws_fin := b\<rparr>) = ws_inv ws" "ws_inv (ws\<lparr>ws_masked := b\<rparr>) = ws_inv ws"
  "ws_inv (ws\<lparr>msg_opcode := n\<rparr>) = ws_inv ws" "ws_inv (ws\<lparr>msg_active := b\<rparr>) = ws_inv ws"
  "ws_inv (ws\<lparr>ws_oob := b\<rparr>) = ws_inv ws"
  "ws_inv (ws\<lparr>ws_sock := s\<rparr>) = ws_inv ws" "ws_inv (ws\<lparr>ws_data := d\<rparr>) = ws_inv ws"
  by (simp_all add: ws_inv_def ws_room_def ws_state_ok_def cong: WsParseState.case_cong)

lemma ws_inv_header [simp]:
  assumes "ws_state ws = WS_NEED_HEADER"
  shows "ws_inv (ws\<lparr>ws_opcode := n\<rparr>) = ws_inv ws" "ws_inv (ws\<lparr>payload_len := n\<rparr>) = ws_inv ws"
    "ws_inv (ws\<lparr>payload_done := n\<rparr>) = ws_inv ws"
  using assms by (simp_all add: ws_inv_def ws_room_def ws_state_ok_def cong: WsParseState.case_cong)

lemma ws_state_ok_update [simp]:
  "ws_state_ok (ws\<lparr>ws_pos := n\<rparr>) = ws_state_ok ws" "ws_state_ok (ws\<lparr>ws_in := xs\<rparr>) = ws_state_ok ws"
  "ws_state_ok (ws\<lparr>in_cap := n\<rparr>) = ws_state_ok ws" "ws_state_ok (ws\<lparr>msg_cap := n\<rparr>) = ws_state_ok ws"
  "ws_state_ok (ws\<lparr>ws_sock := s\<rparr>) = ws_state_ok ws"
  by (simp_all add: ws_state_ok_def cong: WsParseState.case_cong)

lemma ws_inv_pos: "ws_inv ws \<Longrightarrow> n \<le> length (ws_in ws) \<Longrightarrow> ws_inv (ws\<lparr>ws_pos := n\<rparr>)"
  by (simp add: ws_inv_def ws_room_def)

lemma ws_inv_create: "ws_session_create mem ok n s lo = Some ws \<Longrightarrow> n < 2 ^ 64 \<Longrightarrow> ws_inv ws"
  by (auto simp: ws_session_create_def ws_inv_def ws_room_def ws_state_ok_def Let_def ws_consts split: if_splits)

lemma size_sub_le: "a < 2 ^ 64 \<Longrightarrow> b \<le> a \<Longrightarrow> size_sub a b = a - b"
  by (simp add: size_sub_def)

lemma reserve_cap_room: "0 < cap \<Longrightarrow> need < reserve_cap cap need"
proof (induction cap need rule: reserve_cap.induct)
  case (1 cap need)
  then show ?case by (auto simp: reserve_cap.simps [of cap need])
qed

lemma msg_reserve_room:
  "ws_msg_reserve mem ws need = Some ws' \<Longrightarrow> \<exists>c. ws' = ws\<lparr>msg_cap := c\<rparr> \<and> need \<le> c"
  using reserve_cap_room [of "msg_cap ws" need] reserve_cap_room [of 256 need]
  by (auto simp: ws_msg_reserve_def Let_def split: if_splits intro: exI [of _ "msg_cap ws"])

lemma length_known_inv:
  assumes "ws_inv ws" and "ws_opcode ws \<ge> WS_OP_CLOSE \<Longrightarrow> payload_len ws \<le> 125"
  shows "ws_inv (snd (ws_frame_length_known ws))"
proof (cases "ws_opcode ws < WS_OP_CLOSE \<and> payload_len ws > size_sub (max_message ws) (length (ws_msg ws))")
  case True
  then show ?thesis using assms(1) by (simp add: ws_frame_length_known_def)
next
  case False
  moreover have "size_sub (max_message ws) (length (ws_msg ws)) = max_message ws - length (ws_msg ws)"
    using assms(1) by (intro size_sub_le) (simp_all add: ws_inv_def ws_room_def)
  ultimately show ?thesis
    using assms
    by (auto simp: ws_frame_length_known_def ws_inv_def ws_room_def ws_state_ok_def)
qed

fun outcome_inv :: "ws_next \<Rightarrow> bool" where
  "outcome_inv (Again ws) = ws_inv ws"
| "outcome_inv Stall = True"
| "outcome_inv (Return r) = ws_inv (snd r)"

lemma outcome_next_of [simp]: "outcome_inv (next_of r) = ws_inv (snd r)"
  by (simp add: next_of_def)

lemma ws_inv_wait_length:
  "ws_inv ws \<Longrightarrow> ws_opcode ws < WS_OP_CLOSE \<Longrightarrow> st \<in> {WS_NEED_LEN16, WS_NEED_LEN64} \<Longrightarrow> ws_inv (ws\<lparr>ws_state := st\<rparr>)"
  by (auto simp: ws_inv_def ws_room_def ws_state_ok_def)

lemma header_inv:
  assumes "ws_inv ws" and "ws_state ws = WS_NEED_HEADER"
  shows "outcome_inv (header_step ws)"
proof (cases "length (ws_in ws) - ws_pos ws < 2")
  case True
  then show ?thesis by (simp add: header_step_def)
next
  case False
  define b0 b1 where "b0 = byte (ws_in ws ! ws_pos ws)" and "b1 = byte (ws_in ws ! (ws_pos ws + 1))"
  define w where "w = ws\<lparr>ws_pos := ws_pos ws + 2, ws_fin := (b0 AND 0x80 \<noteq> 0), ws_opcode := b0 AND 0x0F,
    ws_masked := (b1 AND 0x80 \<noteq> 0)\<rparr>"
  have w: "ws_inv w" "ws_state w = WS_NEED_HEADER" "ws_opcode w = b0 AND 0x0F"
    using assms False by (simp_all add: w_def ws_inv_pos)
  show ?thesis
    unfolding header_step_def Let_def b0_def [symmetric] b1_def [symmetric] w_def [symmetric]
    using w False by (auto intro!: length_known_inv ws_inv_wait_length)
qed

lemma length_inv:
  assumes "ws_inv ws"
  shows "ws_state ws = WS_NEED_LEN16 \<Longrightarrow> outcome_inv (len16_step ws)"
    and "ws_state ws = WS_NEED_LEN64 \<Longrightarrow> outcome_inv (len64_step ws)"
proof -
  have *: "ws_inv (ws\<lparr>payload_len := n, ws_pos := k\<rparr>)"
    if "ws_state ws \<in> {WS_NEED_LEN16, WS_NEED_LEN64}" "k \<le> length (ws_in ws)" for n k
    using assms that by (auto simp: ws_inv_def ws_room_def ws_state_ok_def)
  have op: "\<not> WS_OP_CLOSE \<le> ws_opcode ws" if "ws_state ws \<in> {WS_NEED_LEN16, WS_NEED_LEN64}"
    using assms that by (auto simp: ws_inv_def ws_state_ok_def)
  show "outcome_inv (len16_step ws)" if "ws_state ws = WS_NEED_LEN16"
    using that * op by (auto simp: len16_step_def Let_def intro!: length_known_inv)
  show "outcome_inv (len64_step ws)" if "ws_state ws = WS_NEED_LEN64"
    using that * op assms by (auto simp: len64_step_def Let_def intro!: length_known_inv)
qed

lemma mask_inv: "ws_inv ws \<Longrightarrow> ws_state ws = WS_NEED_MASK \<Longrightarrow> outcome_inv (mask_step ws)"
  by (auto simp: mask_step_def ws_inv_def ws_room_def ws_state_ok_def)

lemma deliver_inv:
  assumes "ws_inv ws" and "ws_state ws = WS_NEED_HEADER"
  shows "ws_inv (snd (deliver mem ws))"
  using assms by (auto simp: deliver_def Let_def) (auto simp: ws_inv_def ws_room_def ws_state_ok_def)

lemma unmask_chunk_inv:
  assumes "ws_inv ws" and "ws_state ws = WS_NEED_PAYLOAD" and "ws_unmask_chunk ws = (chunk, ws')"
  shows "ws_room ws'" and "ws_state ws' = WS_NEED_PAYLOAD" and "payload_done ws' = payload_done ws + length chunk"
    and "payload_done ws' \<le> payload_len ws'" and "ws_msg ws' = ws_msg ws" and "ws_ctrl ws' = ws_ctrl ws"
    and "payload_len ws' = payload_len ws" and "ws_opcode ws' = ws_opcode ws" and "ws_mask ws' = ws_mask ws"
    and "max_message ws' = max_message ws"
  using assms by (auto simp: ws_unmask_chunk_def Let_def ws_inv_def ws_room_def ws_state_ok_def)

lemma payload_inv:
  assumes "ws_inv ws" and "ws_state ws = WS_NEED_PAYLOAD"
  shows "outcome_inv (payload_step mem ws)"
proof (cases "payload_done ws = payload_len ws")
  case True
  let ?w = "ws\<lparr>ws_state := WS_NEED_HEADER, payload_done := 0\<rparr>"
  have "ws_inv ?w" using assms by (simp add: ws_inv_def ws_room_def ws_state_ok_def)
  with True show ?thesis by (simp add: payload_step_def Let_def deliver_inv)
next
  case False
  obtain chunk w where cw: "ws_unmask_chunk ws = (chunk, w)" by (cases "ws_unmask_chunk ws")
  note f = unmask_chunk_inv [OF assms cw]
  have ok: "if ws_opcode ws \<ge> WS_OP_CLOSE then payload_len ws \<le> 125 \<and> length (ws_ctrl ws) = payload_done ws
      else length (ws_msg ws) + (payload_len ws - payload_done ws) \<le> max_message ws" "length (ws_mask ws) = 4"
    using assms by (auto simp: ws_inv_def ws_state_ok_def split: if_splits)
  have w: "ws_inv w" if "\<not> ws_opcode ws \<ge> WS_OP_CLOSE"
    using f ok that by (simp add: ws_inv_def ws_state_ok_def)
  have c: "ws_inv (w\<lparr>ws_ctrl := ws_ctrl w @ chunk\<rparr>)" if "ws_opcode ws \<ge> WS_OP_CLOSE"
    using f ok that by (simp add: ws_inv_def ws_state_ok_def ws_room_def)
  have m: "ws_inv (w\<lparr>msg_cap := n, ws_msg := ws_msg w @ chunk\<rparr>)"
    if "\<not> ws_opcode ws \<ge> WS_OP_CLOSE" "length (ws_msg w) + length chunk \<le> n" for n
    using f ok that by (simp add: ws_inv_def ws_state_ok_def ws_room_def)
  show ?thesis
    using False f(8) w c m
    by (auto simp: payload_step_def cw split: option.split dest!: msg_reserve_room)
qed

lemma parse_step_inv: "ws_inv ws \<Longrightarrow> outcome_inv (parse_step mem ws)"
  by (simp add: parse_step_def header_inv length_inv mask_inv payload_inv split: WsParseState.split)

lemma ws_compact_inv [simp]: "ws_inv (ws_compact ws) \<longleftrightarrow> ws_inv ws" if "ws_inv ws"
  using that by (auto simp: ws_compact_def ws_inv_def ws_room_def)

lemma ws_parse_inv [inv_intros]: "ws_inv ws \<Longrightarrow> ws_inv (snd (ws_parse mem ws))"
proof (induction mem ws rule: ws_parse.induct)
  case (1 mem ws)
  with parse_step_inv [of ws mem] show ?case
    by (cases "parse_step mem ws") (simp_all add: ws_parse.simps [of mem ws])
qed

lemma ws_inv_receive:
  "ws_inv ws \<Longrightarrow> length (ws_in ws) + length bs \<le> in_cap ws \<Longrightarrow> ws_inv (ws\<lparr>ws_sock := s, ws_in := ws_in ws @ bs\<rparr>)"
  by (auto simp: ws_inv_def ws_room_def)

lemma ws_grow_inv:
  "ws_grow mem ws = Some ws' \<Longrightarrow> ws_inv ws \<Longrightarrow> ws_inv ws'"
  by (auto simp: ws_grow_def ws_inv_def ws_room_def split: if_splits)

section \<open>What a handler may do with a session\<close>

inductive ws_op :: "allocator \<Rightarrow> HttpWs \<Rightarrow> HttpWs \<Rightarrow> bool" for mem where
  op_text: "ws_op mem ws (snd (http_ws_send_text ws data))"
| op_binary: "ws_op mem ws (snd (http_ws_send_binary ws data))"
| op_ping: "ws_op mem ws (snd (http_ws_send_ping ws data))"
| op_recv: "ws_op mem ws (snd (http_ws_recv mem ws))"
| op_close: "ws_op mem ws (snd (http_ws_close mem ws code reason))"
| op_data: "ws_op mem ws (http_ws_set_data ws d)"

inductive ws_run :: "allocator \<Rightarrow> HttpWs \<Rightarrow> HttpWs \<Rightarrow> bool" for mem where
  run_done: "ws_run mem ws ws"
| run_step: "ws_op mem ws ws1 \<Longrightarrow> ws_run mem ws1 ws2 \<Longrightarrow> ws_run mem ws ws2"

inductive_simps ws_op_simps: "ws_op mem ws ws'"

text \<open>
  A property that the parser, a grown buffer, received bytes and everything the closing handshake writes keep is
  kept by every sequence of calls a handler can make.
\<close>

locale session_property =
  fixes P :: "HttpWs \<Rightarrow> bool"
  assumes parse: "P ws \<Longrightarrow> P (snd (ws_parse mem ws))"
    and grow: "ws_grow mem ws = Some ws' \<Longrightarrow> P ws \<Longrightarrow> P ws'"
    and receive: "P ws \<Longrightarrow> outbox s = outbox (ws_sock ws) \<Longrightarrow> length (ws_in ws) + length bs \<le> in_cap ws \<Longrightarrow>
      P (ws\<lparr>ws_sock := s, ws_in := ws_in ws @ bs\<rparr>)"
    and socket: "P ws \<Longrightarrow> outbox s = outbox (ws_sock ws) \<Longrightarrow> P (ws\<lparr>ws_sock := s\<rparr>)"
    and data: "P ws \<Longrightarrow> P (ws\<lparr>ws_data := d\<rparr>)"
    and mark_dead: "P ws \<Longrightarrow> P (ws_mark_dead ws c io)"
    and send_close: "P ws \<Longrightarrow> P (snd (ws_send_close ws c reason))"
    and send_frame: "P ws \<Longrightarrow> P (snd (ws_send_frame ws opcode payload))"
begin

lemmas closing = mark_dead send_close

lemma taken: "P ws \<Longrightarrow> recv n (ws_sock ws) = (r, s) \<Longrightarrow> P (ws\<lparr>ws_sock := s\<rparr>)"
  by (auto dest: recv_frame intro: socket)

lemma received:
  assumes "P ws" and "recv (in_cap ws - length (ws_in ws)) (ws_sock ws) = (Got bs, s)"
  shows "P (ws\<lparr>ws_sock := s, ws_in := ws_in ws @ bs\<rparr>)"
proof (rule receive [OF assms(1)])
  show "outbox s = outbox (ws_sock ws)" using recv_frame [OF assms(2)] by simp
  have "0 < length bs" and "length bs \<le> in_cap ws - length (ws_in ws)" using recv_Got [OF assms(2)] by blast+
  then show "length (ws_in ws) + length bs \<le> in_cap ws" by linarith
qed

lemma recv_loop: "P ws \<Longrightarrow> P (snd (ws_recv_loop mem ws))"
proof (induction mem ws rule: ws_recv_loop.induct)
  case (1 mem ws)
  obtain r ws1 where p: "ws_parse mem ws = (r, ws1)" by (cases "ws_parse mem ws")
  have i1: "P ws1" using parse [OF "1.prems", of mem] p by simp
  show ?case
  proof (cases "r = WS_PARSE_CONTINUE")
    case False
    then show ?thesis using p i1 by (cases r) (simp_all add: ws_recv_loop.simps [of mem ws])
  next
    case r: True
    show ?thesis
    proof (cases "ws_grow mem ws1")
      case None
      then show ?thesis using p r i1 by (simp add: ws_recv_loop.simps [of mem ws] closing)
    next
      case (Some ws2)
      note i2 = grow [OF Some i1]
      obtain e s where e: "recv (in_cap ws2 - length (ws_in ws2)) (ws_sock ws2) = (e, s)"
        by (cases "recv (in_cap ws2 - length (ws_in ws2)) (ws_sock ws2)")
      note IH = "1.IH" [OF p [symmetric] r Some e [symmetric]]
      show ?thesis
      proof (cases e)
        case (Got bs)
        then show ?thesis
          using IH(1) [OF Got] p r Some e received [OF i2] by (simp add: ws_recv_loop.simps [of mem ws])
      next
        case Eintr
        then show ?thesis using IH(2) [OF Eintr] p r Some e taken [OF i2 e] by (simp add: ws_recv_loop.simps [of mem ws])
      next
        case (Timeout l)
        then show ?thesis
          using IH(3) [OF Timeout] p r Some e taken [OF i2 e] by (cases l) (simp_all add: ws_recv_loop.simps [of mem ws] closing)
      qed (use p r Some e taken [OF i2 e] in \<open>simp_all add: ws_recv_loop.simps [of mem ws] closing\<close>)
    qed
  qed
qed

lemma recv_call: "P ws \<Longrightarrow> P (snd (http_ws_recv mem ws))"
  by (simp add: http_ws_recv_def recv_loop)

lemma drain: "P ws \<Longrightarrow> P (drain_loop mem n ws)"
proof (induction n arbitrary: ws)
  case 0
  then show ?case by (simp add: closing)
next
  case (Suc n)
  show ?case
  proof (cases "close_received ws \<or> ws_grow mem ws = None")
    case True
    then show ?thesis using Suc.prems by (auto simp: closing split: option.split)
  next
    case False
    then obtain ws1 where g: "ws_grow mem ws = Some ws1" by auto
    note i1 = grow [OF g Suc.prems]
    obtain e s where e: "recv (in_cap ws1 - length (ws_in ws1)) (ws_sock ws1) = (e, s)"
      by (cases "recv (in_cap ws1 - length (ws_in ws1)) (ws_sock ws1)")
    show ?thesis
    proof (cases e)
      case (Got bs)
      then have "P (snd (ws_parse mem (ws1\<lparr>ws_sock := s, ws_in := ws_in ws1 @ bs\<rparr>)))"
        using received [OF i1] e by (intro parse) simp
      then show ?thesis using False g e Got Suc.IH
        by (auto simp: closing split: prod.split WsParseResult.split)
    qed (use False g e taken [OF i1 e] Suc.IH in \<open>simp_all add: closing\<close>)
  qed
qed

lemma close_call: "P ws \<Longrightarrow> P (snd (http_ws_close mem ws code reason))"
  using closing(2) [of ws code reason]
  by (cases "ws_send_close ws code reason") (simp add: http_ws_close_def ws_drain_close_echo_def drain del: drain_loop.simps)

lemma op: "ws_op mem ws ws' \<Longrightarrow> P ws \<Longrightarrow> P ws'"
  by (induction rule: ws_op.induct)
    (simp_all add: http_ws_send_text_def http_ws_send_binary_def http_ws_send_ping_def http_ws_set_data_def
      send_frame data recv_call close_call)

lemma run: "ws_run mem ws ws' \<Longrightarrow> P ws \<Longrightarrow> P ws'"
  by (induction rule: ws_run.induct) (auto dest: op)

end

lemma ws_core_send [simp]: "ws_core (snd (ws_send_frame ws op payload)) = ws_core ws"
  by (cases "ws_send_frame_locked ws op payload") (auto simp: ws_send_frame_def dest: ws_core_frame)

interpretation sess: session_property ws_inv
proof unfold_locales
  show "ws_inv ws \<Longrightarrow> ws_inv (snd (ws_send_frame ws op payload))" for ws op payload
    using ws_inv_core [OF ws_core_send] by blast
qed (auto simp: ws_inv_receive intro: ws_parse_inv ws_grow_inv)

interpretation limit: session_property "\<lambda>ws. max_message ws = n" for n
proof unfold_locales
  fix ws ws' :: HttpWs and mem op payload
  show "max_message ws = n \<Longrightarrow> max_message (snd (ws_parse mem ws)) = n"
    using ws_parse_frame [of mem ws] by (simp add: ws_frame_def)
  show "ws_grow mem ws = Some ws' \<Longrightarrow> max_message ws = n \<Longrightarrow> max_message ws' = n"
    by (auto simp: ws_grow_def split: if_splits)
  show "max_message ws = n \<Longrightarrow> max_message (snd (ws_send_frame ws op payload)) = n"
    using ws_core_fields(11) [OF ws_core_send] by simp
qed simp_all

text \<open>What was sent stays sent: the output of a session only grows.\<close>

definition sent_from :: "char list \<Rightarrow> HttpWs \<Rightarrow> bool" where
  "sent_from X ws \<longleftrightarrow> (\<exists>Y. outbox (ws_sock ws) = X @ Y)"

lemma sent_from_sock: "outbox (ws_sock ws') = outbox (ws_sock ws) \<Longrightarrow> sent_from X ws' = sent_from X ws"
  by (simp add: sent_from_def)

lemma sent_from_update [simp]:
  "sent_from X (ws\<lparr>ws_pos := n\<rparr>) = sent_from X ws" "sent_from X (ws\<lparr>ws_in := xs\<rparr>) = sent_from X ws"
  "sent_from X (ws\<lparr>ws_fin := b\<rparr>) = sent_from X ws" "sent_from X (ws\<lparr>ws_opcode := n\<rparr>) = sent_from X ws"
  "sent_from X (ws\<lparr>ws_masked := b\<rparr>) = sent_from X ws" "sent_from X (ws\<lparr>msg_opcode := n\<rparr>) = sent_from X ws"
  "sent_from X (ws\<lparr>payload_len := n\<rparr>) = sent_from X ws" "sent_from X (ws\<lparr>payload_done := n\<rparr>) = sent_from X ws"
  "sent_from X (ws\<lparr>ws_state := st\<rparr>) = sent_from X ws" "sent_from X (ws\<lparr>ws_mask := xs\<rparr>) = sent_from X ws"
  "sent_from X (ws\<lparr>ws_ctrl := xs\<rparr>) = sent_from X ws" "sent_from X (ws\<lparr>msg_active := b\<rparr>) = sent_from X ws"
  "sent_from X (ws\<lparr>ws_msg := xs\<rparr>) = sent_from X ws" "sent_from X (ws\<lparr>msg_cap := n\<rparr>) = sent_from X ws"
  "sent_from X (ws\<lparr>in_cap := n\<rparr>) = sent_from X ws" "sent_from X (ws\<lparr>ws_data := d\<rparr>) = sent_from X ws"
  "sent_from X (ws\<lparr>ws_cur := c\<rparr>) = sent_from X ws" "sent_from X (ws\<lparr>ws_oob := b\<rparr>) = sent_from X ws"
  "sent_from X (ws\<lparr>close_sent := b\<rparr>) = sent_from X ws" "sent_from X (ws\<lparr>close_received := b\<rparr>) = sent_from X ws"
  "sent_from X (ws\<lparr>close_code := code\<rparr>) = sent_from X ws" "sent_from X (ws\<lparr>dead := b\<rparr>) = sent_from X ws"
  "sent_from X (ws\<lparr>io_error := b\<rparr>) = sent_from X ws" "sent_from X (ws_mark_dead ws code io) = sent_from X ws"
  by (simp_all add: sent_from_def ws_mark_dead_def)

lemma sent_from_locked: "sent_from X ws \<Longrightarrow> sent_from X (snd (ws_send_frame_locked ws op payload))"
  by (auto simp: ws_send_frame_locked_def sent_from_def split: prod.split dest!: wssock.send_prefix)

lemma sent_from_send:
  "sent_from X ws \<Longrightarrow> sent_from X (snd (ws_send_frame ws op payload))"
  "sent_from X ws \<Longrightarrow> sent_from X (snd (ws_send_close ws c reason))"
  "sent_from X ws \<Longrightarrow> sent_from X (snd (ws_protocol_violation ws c))"
  using sent_from_locked [of X ws]
  by (auto simp: ws_send_frame_def ws_send_close_def ws_protocol_violation_def split_def)

lemma sent_from_control: "sent_from X ws \<Longrightarrow> sent_from X (snd (ws_handle_control ws))"
  using sent_from_send [of X ws] by (auto simp: ws_handle_control_def Let_def split_def)

lemma sent_from_known: "sent_from X ws \<Longrightarrow> sent_from X (snd (ws_frame_length_known ws))"
  by (simp add: ws_frame_length_known_def sent_from_send)

definition outcome_sent :: "char list \<Rightarrow> ws_next \<Rightarrow> bool" where
  "outcome_sent X n = (case n of Again ws \<Rightarrow> sent_from X ws | Stall \<Rightarrow> True | Return r \<Rightarrow> sent_from X (snd r))"

lemma outcome_sent_simps [simp]:
  "outcome_sent X (Again ws) = sent_from X ws" "outcome_sent X Stall" "outcome_sent X (Return r) = sent_from X (snd r)"
  "outcome_sent X (next_of r) = sent_from X (snd r)"
  by (simp_all add: outcome_sent_def next_of_def)

lemma sent_from_deliver: "sent_from X ws \<Longrightarrow> sent_from X (snd (deliver mem ws))"
  by (simp add: deliver_def Let_def sent_from_send)

lemma sent_from_payload: "sent_from X ws \<Longrightarrow> outcome_sent X (payload_step mem ws)"
  by (auto simp: payload_step_def Let_def sent_from_deliver sent_from_control sent_from_send ws_unmask_chunk_def
      split: option.split dest!: msg_reserve_room)

lemma sent_from_step: "sent_from X ws \<Longrightarrow> outcome_sent X (parse_step mem ws)"
  by (simp add: parse_step_def header_step_def len16_step_def len64_step_def mask_step_def Let_def
      sent_from_payload sent_from_known sent_from_send split: WsParseState.split)

lemma sent_from_parse: "sent_from X ws \<Longrightarrow> sent_from X (snd (ws_parse mem ws))"
proof (induction mem ws rule: ws_parse.induct)
  case (1 mem ws)
  with sent_from_step [of X ws mem] show ?case
    by (cases "parse_step mem ws") (simp_all add: ws_parse.simps [of mem ws] ws_compact_def)
qed

interpretation out: session_property "sent_from X" for X
  by unfold_locales (auto simp: sent_from_send ws_grow_def sent_from_sock [of "ws\<lparr>ws_sock := s\<rparr>" for ws s]
    sent_from_sock [of "ws\<lparr>ws_sock := s, ws_in := xs\<rparr>" for ws s xs] intro: sent_from_parse split: if_splits)

lemma ws_op_dead: "ws_op mem ws ws' \<Longrightarrow> dead ws \<Longrightarrow> dead ws' \<and> ws_sock ws' = ws_sock ws"
  by (induction rule: ws_op.induct)
    (auto simp: http_ws_send_text_def http_ws_send_binary_def http_ws_send_ping_def http_ws_set_data_def
      ws_send_frame_def http_ws_recv_def http_ws_close_def ws_is_dead_def)

section \<open>Properties\<close>



text \<open>Once a session is dead, no call of its handler reads from or writes to the socket any more, and the
  session stays dead.\<close>

theorem dead_session_silent:
  assumes "dead ws" and "ws_run mem ws ws'"
  shows "dead ws' \<and> ws_sock ws' = ws_sock ws"
  using assms(2,1) by (induction rule: ws_run.induct) (auto dest: ws_op_dead)

theorem dead_session_silent_witness:
  "\<exists>ws ws'. ws_session_create (\<lambda>_. True) True 4 \<lparr>inbox = [RData ''x''], sends = [], outbox = []\<rparr> [] = Some ws \<and>
     ws_run (\<lambda>_. True) (ws_mark_dead ws 1006 True) ws' \<and> ws_sock ws' = ws_sock ws"
proof -
  obtain ws where c: "ws_session_create (\<lambda>_. True) True 4 \<lparr>inbox = [RData ''x''], sends = [], outbox = []\<rparr> [] = Some ws"
    by (simp add: ws_session_create_def)
  let ?d = "ws_mark_dead ws 1006 True"
  have r: "ws_run (\<lambda>_. True) ?d (snd (http_ws_send_text ?d ''hi''))" by (rule run_step [OF op_text run_done])
  have "dead ?d" "ws_sock ?d = ws_sock ws" by (simp_all add: ws_mark_dead_def)
  with c r dead_session_silent [OF _ r] show ?thesis by metis
qed

end
