(* ===== verification/Ws_Delivery.thy ===== *)
theory Ws_Delivery
  imports Ws_Session
begin

text \<open>
  What a websocket session delivers: the frames a client sends, in the encoding of RFC 6455, whatever
  pieces they arrive in and however often the receive call is interrupted, come out of
  \<^verbatim>\<open>http_ws_recv\<close> as the message that was sent.
\<close>

section \<open>Client frames\<close>

fun be_bytes :: "nat \<Rightarrow> nat \<Rightarrow> char list" where
  "be_bytes 0 x = []"
| "be_bytes (Suc n) x = be_bytes n (x div 256) @ [char_of x]"

lemma be_bytes_length [simp]: "length (be_bytes n x) = n"
  by (induction n arbitrary: x) auto

lemma be_value_snoc: "be_value (bs @ [c]) = be_value bs * 256 + byte c"
  by (simp add: be_value_def)

lemma be_value_bytes: "x < 256 ^ n \<Longrightarrow> be_value (be_bytes n x) = x"
proof (induction n arbitrary: x)
  case 0
  then show ?case by (simp add: be_value_def)
next
  case (Suc n)
  have "x div 256 < 256 ^ n" using Suc.prems by (simp add: less_mult_imp_div_less mult.commute)
  with Suc.IH show ?case by (simp add: be_value_snoc)
qed

text \<open>The length field with the mask bit, the masking key, the masked payload.\<close>

definition length_field :: "nat \<Rightarrow> char list" where
  "length_field n =
     (if n \<le> 125 then [char_of (128 + n)]
      else if n \<le> 65535 then char_of (128 + 126 :: nat) # be_bytes 2 n
      else char_of (128 + 127 :: nat) # be_bytes 8 n)"

definition client_frame :: "bool \<Rightarrow> nat \<Rightarrow> char list \<Rightarrow> char list \<Rightarrow> char list" where
  "client_frame fin op key payload =
     char_of ((if fin then 128 else 0) + op) # length_field (length payload) @ key @ unmask key 0 payload"

text \<open>A message as a sequence of fragments, each with its own key.\<close>

fun frames_of :: "nat \<Rightarrow> (char list \<times> char list) list \<Rightarrow> char list" where
  "frames_of op [] = []"
| "frames_of op ((key, payload) # fs) = client_frame (fs = []) op key payload @ frames_of WS_OP_CONT fs"

definition fragments_ok :: "(char list \<times> char list) list \<Rightarrow> bool" where
  "fragments_ok fs \<longleftrightarrow> (\<forall>f \<in> set fs. length (fst f) = 4 \<and> length (snd f) < 2 ^ 63)"

definition message_of :: "(char list \<times> char list) list \<Rightarrow> char list" where
  "message_of fs = concat (map snd fs)"

lemma message_of_simps [simp]: "message_of [] = []" "message_of (f # fs) = snd f @ message_of fs"
  by (simp_all add: message_of_def)

lemma xor_char_cancel [simp]: "xor_char (xor_char a b) b = a"
proof -
  have "byte (xor_char a b) = byte a XOR byte b"
  proof -
    have "take_bit 8 (byte c) = byte c" for c :: char
      using byte_less_256 [of c] by (simp add: take_bit_eq_mod)
    then have "take_bit 8 (byte a XOR byte b) = byte a XOR byte b" by (simp only: take_bit_xor)
    then show ?thesis by (simp add: xor_char_def take_bit_eq_mod)
  qed
  then show ?thesis by (simp add: xor_char_def [of "xor_char a b"] xor.assoc)
qed

lemma unmask_nth: "j < length bs \<Longrightarrow> unmask key i bs ! j = xor_char (bs ! j) (key ! ((i + j) mod 4))"
  by (simp add: unmask_def)

lemma unmask_unmask [simp]: "unmask key i (unmask key i bs) = bs"
  by (rule nth_equalityI) (simp_all add: unmask_nth)

lemma unmask_take: "take n (unmask key i bs) = unmask key i (take n bs)"
  by (rule nth_equalityI) (simp_all add: unmask_nth)

lemma unmask_drop: "drop n (unmask key i bs) = unmask key (i + n) (drop n bs)"
  by (rule nth_equalityI) (simp_all add: unmask_nth add.assoc)

lemma length_byte:
  fixes n :: nat
  assumes "n < 128"
  shows "(128 + n) AND 0x7F = n" "(128 + n) AND 0x80 \<noteq> 0" "128 + n < 256"
proof -
  have "(128 + n) AND 0x7F = take_bit 7 (128 + n)"
    by (simp add: take_bit_eq_mask mask_numeral)
  also have "\<dots> = n" using assms by (simp add: take_bit_eq_mod mod_if)
  finally show "(128 + n) AND 0x7F = n" .
  have "(128 + n) div 128 = 1" using assms by (intro div_nat_eqI) auto
  then have "bit (128 + n) 7" by (simp add: bit_iff_odd)
  then show "(128 + n) AND 0x80 \<noteq> 0"
    using and_exp_eq_0_iff_not_bit [of "128 + n" 7] by simp
  show "128 + n < 256" using assms by simp
qed

section \<open>The part of a message that is still to come\<close>

definition frame_tail :: "char list \<Rightarrow> char list \<Rightarrow> (char list \<times> char list) list \<Rightarrow> char list \<Rightarrow> char list" where
  "frame_tail key p fs R = key @ unmask key 0 p @ frames_of WS_OP_CONT fs @ R"

definition good :: "HttpWs \<Rightarrow> char list \<Rightarrow> (char list \<times> char list) list \<Rightarrow> bool" where
  "good ws M fs \<longleftrightarrow> ws_inv ws \<and> fragments_ok fs \<and> length M \<le> max_message ws \<and> length M < 2 ^ 63"

definition in_frame :: "HttpWs \<Rightarrow> nat \<Rightarrow> (char list \<times> char list) list \<Rightarrow> bool" where
  "in_frame ws op fs \<longleftrightarrow> ws_opcode ws < WS_OP_CLOSE \<and> msg_opcode ws = op \<and> ws_fin ws = (fs = [])"

text \<open>
  \<open>expects ws str op M R\<close>: the parser is in the middle of a message of type \<open>op\<close> with contents \<open>M\<close>, and
  \<open>str\<close> holds exactly what is missing of it, followed by \<open>R\<close>.
\<close>

inductive expects :: "HttpWs \<Rightarrow> char list \<Rightarrow> nat \<Rightarrow> char list \<Rightarrow> char list \<Rightarrow> bool" where
  header: "good ws M fs \<Longrightarrow> ws_state ws = WS_NEED_HEADER \<Longrightarrow> fs \<noteq> [] \<Longrightarrow> op \<in> {WS_OP_TEXT, WS_OP_BINARY} \<Longrightarrow>
     (op' = op \<and> \<not> msg_active ws \<and> ws_msg ws = [] \<or> op' = WS_OP_CONT \<and> msg_active ws \<and> msg_opcode ws = op) \<Longrightarrow>
     M = ws_msg ws @ message_of fs \<Longrightarrow> str = frames_of op' fs @ R \<Longrightarrow> expects ws str op M R"
| len16: "good ws M ((key, p) # fs) \<Longrightarrow> ws_state ws = WS_NEED_LEN16 \<Longrightarrow> in_frame ws op fs \<Longrightarrow>
     op \<in> {WS_OP_TEXT, WS_OP_BINARY} \<Longrightarrow> 125 < length p \<Longrightarrow> length p \<le> 65535 \<Longrightarrow> M = ws_msg ws @ p @ message_of fs \<Longrightarrow>
     str = be_bytes 2 (length p) @ frame_tail key p fs R \<Longrightarrow> expects ws str op M R"
| len64: "good ws M ((key, p) # fs) \<Longrightarrow> ws_state ws = WS_NEED_LEN64 \<Longrightarrow> in_frame ws op fs \<Longrightarrow>
     op \<in> {WS_OP_TEXT, WS_OP_BINARY} \<Longrightarrow> 65535 < length p \<Longrightarrow> M = ws_msg ws @ p @ message_of fs \<Longrightarrow>
     str = be_bytes 8 (length p) @ frame_tail key p fs R \<Longrightarrow> expects ws str op M R"
| mask: "good ws M ((key, p) # fs) \<Longrightarrow> ws_state ws = WS_NEED_MASK \<Longrightarrow> in_frame ws op fs \<Longrightarrow>
     op \<in> {WS_OP_TEXT, WS_OP_BINARY} \<Longrightarrow> payload_len ws = length p \<Longrightarrow> M = ws_msg ws @ p @ message_of fs \<Longrightarrow>
     str = frame_tail key p fs R \<Longrightarrow> expects ws str op M R"
| payload: "good ws M fs \<Longrightarrow> ws_state ws = WS_NEED_PAYLOAD \<Longrightarrow> in_frame ws op fs \<Longrightarrow>
     op \<in> {WS_OP_TEXT, WS_OP_BINARY} \<Longrightarrow> payload_len ws = length p \<Longrightarrow> payload_done ws \<le> length p \<Longrightarrow>
     M = ws_msg ws @ drop (payload_done ws) p @ message_of fs \<Longrightarrow>
     str = drop (payload_done ws) (unmask (ws_mask ws) 0 p) @ frames_of WS_OP_CONT fs @ R \<Longrightarrow> expects ws str op M R"

definition ws_view :: "HttpWs \<Rightarrow> char list \<Rightarrow> char list" where
  "ws_view ws rest = drop (ws_pos ws) (ws_in ws) @ rest"

lemma view_nth: "k < length (ws_in ws) - ws_pos ws \<Longrightarrow> ws_in ws ! (ws_pos ws + k) = ws_view ws rest ! k"
  by (simp add: ws_view_def nth_append)

lemma view_take: "k \<le> length (ws_in ws) - ws_pos ws \<Longrightarrow> take k (drop (ws_pos ws) (ws_in ws)) = take k (ws_view ws rest)"
  by (simp add: ws_view_def)

lemma view_drop:
  "k \<le> length (ws_in ws) - ws_pos ws \<Longrightarrow> drop (ws_pos ws + k) (ws_in ws) @ rest = drop k (ws_view ws rest)"
  by (simp add: ws_view_def add.commute)

lemma opcode_byte:
  assumes "b = byte (char_of ((if fin then 128 else 0) + op'))" and "op' \<in> {WS_OP_CONT, WS_OP_TEXT, WS_OP_BINARY}"
  shows "b AND 0x0F = op'" "b AND 0x70 = 0" "(b AND 0x80 \<noteq> 0) = fin"
  using assms by (auto simp: ws_consts)

text \<open>The length check never rejects a message within the limit.\<close>

lemma length_known_ok:
  assumes "ws_inv ws" and "length (ws_msg ws) + payload_len ws \<le> max_message ws"
  shows "ws_frame_length_known ws = (WS_PARSE_CONTINUE, ws\<lparr>ws_state := WS_NEED_MASK\<rparr>)"
proof -
  have "size_sub (max_message ws) (length (ws_msg ws)) = max_message ws - length (ws_msg ws)"
    using assms(1) by (intro size_sub_le) (simp_all add: ws_inv_def ws_room_def)
  with assms show ?thesis by (auto simp: ws_frame_length_known_def)
qed

fun outcome_expects :: "ws_next \<Rightarrow> char list \<Rightarrow> nat \<Rightarrow> char list \<Rightarrow> char list \<Rightarrow> bool" where
  "outcome_expects (Again ws) rest op M R = expects ws (ws_view ws rest) op M R"
| "outcome_expects Stall rest op M R = (rest \<noteq> [])"
| "outcome_expects (Return (r, ws)) rest op M R =
     (r = WS_PARSE_MESSAGE \<and> ws_view ws rest = R \<and> ws_state ws = WS_NEED_HEADER \<and> \<not> msg_active ws \<and> ws_msg ws = [] \<and>
      ws_cur ws = Some (if op = WS_OP_TEXT then HTTP_WS_TEXT else HTTP_WS_BINARY, M))"

lemma header_expects:
  assumes e: "good ws M fs" "ws_state ws = WS_NEED_HEADER" "fs \<noteq> []" "op \<in> {WS_OP_TEXT, WS_OP_BINARY}"
     "op' = op \<and> \<not> msg_active ws \<and> ws_msg ws = [] \<or> op' = WS_OP_CONT \<and> msg_active ws \<and> msg_opcode ws = op"
     "M = ws_msg ws @ message_of fs" and str: "ws_view ws rest = frames_of op' fs @ R"
  shows "outcome_expects (header_step ws) rest op M R"
proof -
  obtain key p fs' where fs: "fs = (key, p) # fs'" using e(3) by (cases fs) auto
  let ?n = "length p" and ?fin = "fs' = []"
  have str': "ws_view ws rest = char_of ((if ?fin then 128 else 0) + op') # length_field ?n @ frame_tail key p fs' R"
    unfolding str fs by (simp add: client_frame_def frame_tail_def)
  show ?thesis
  proof (cases "length (ws_in ws) - ws_pos ws < 2")
    case True
    have "length (length_field ?n) \<ge> 1" by (simp add: length_field_def)
    then have "length (ws_view ws rest) \<ge> 2" unfolding str' by simp
    then have "rest \<noteq> []" using True by (auto simp: ws_view_def)
    then show ?thesis using True by (simp add: header_step_def)
  next
    case False
    define b0 b1 where "b0 = byte (ws_in ws ! ws_pos ws)" and "b1 = byte (ws_in ws ! (ws_pos ws + 1))"
    have op': "op' \<in> {WS_OP_CONT, WS_OP_TEXT, WS_OP_BINARY}" "op' < WS_OP_CLOSE" "known_opcode op'"
      using e(4,5) by (auto simp: ws_consts known_opcode_def)
    have "b0 = byte (char_of ((if ?fin then 128 else 0) + op'))"
      using False view_nth [of 0 ws rest] by (simp add: b0_def str')
    note b0 = opcode_byte [OF this op'(1)]
    have "op \<noteq> WS_OP_CONT" using e(4) by (auto simp: ws_consts)
    define len7 where "len7 = (if ?n \<le> 125 then ?n else if ?n \<le> 65535 then 126 else 127)"
    have "b1 = 128 + len7"
      using False view_nth [of 1 ws rest] by (simp add: b1_def str' length_field_def len7_def)
    moreover have "len7 < 128" by (simp add: len7_def)
    ultimately have b1: "b1 AND 0x7F = len7" "b1 AND 0x80 \<noteq> 0" using length_byte by auto
    define w where "w = ws\<lparr>ws_pos := ws_pos ws + 2, ws_fin := ?fin, ws_opcode := op', ws_masked := True\<rparr>"
    define w1 where "w1 = (if op' \<noteq> WS_OP_CONT then w\<lparr>msg_opcode := op'\<rparr> else w)"
    have step: "header_step ws =
        (if len7 < 126 then next_of (ws_frame_length_known (w1\<lparr>payload_len := len7\<rparr>))
         else if len7 = 126 then Again (w1\<lparr>ws_state := WS_NEED_LEN16\<rparr>)
         else Again (w1\<lparr>ws_state := WS_NEED_LEN64\<rparr>))"
      unfolding header_step_def Let_def b0_def [symmetric] b1_def [symmetric] b0 b1
      using False b1(2) op' e(4,5) by (auto simp: w1_def w_def ws_consts)
    have w1: "ws_inv w1" "in_frame w1 op fs'" "ws_msg w1 = ws_msg ws" "max_message w1 = max_message ws"
        "ws_state w1 = WS_NEED_HEADER" "ws_opcode w1 < WS_OP_CLOSE"
      using e(1,2,5) op'(2) False \<open>op \<noteq> WS_OP_CONT\<close>
      by (auto simp: w1_def w_def in_frame_def good_def ws_inv_pos)
    have view: "ws_view w1 rest = drop 1 (length_field ?n) @ frame_tail key p fs' R"
      using view_drop [of 2 ws rest] False unfolding str'
      by (simp add: ws_view_def w1_def w_def length_field_def)
    have fit: "length (ws_msg w1) + ?n \<le> max_message w1"
      using e(1,6) w1 by (simp add: good_def fs)
    have good: "good w M ((key, p) # fs')" if "ws_inv w" "max_message w = max_message ws" for w
      using e(1) that by (simp add: good_def fs)
    consider (small) "?n \<le> 125" | (medium) "125 < ?n" "?n \<le> 65535" | (large) "65535 < ?n" by linarith
    then show ?thesis
    proof cases
      case small
      let ?w = "w1\<lparr>payload_len := ?n\<rparr>"
      have "ws_frame_length_known ?w = (WS_PARSE_CONTINUE, ?w\<lparr>ws_state := WS_NEED_MASK\<rparr>)"
        using w1 fit by (intro length_known_ok) auto
      then have st: "header_step ws = Again (?w\<lparr>ws_state := WS_NEED_MASK\<rparr>)"
        using small by (simp add: step len7_def next_of_def)
      have "ws_inv (?w\<lparr>ws_state := WS_NEED_MASK\<rparr>)"
        using header_inv [of ws] e(1,2) unfolding st by (simp add: good_def)
      then have "good (?w\<lparr>ws_state := WS_NEED_MASK\<rparr>) M ((key, p) # fs')" using w1 by (intro good) simp_all
      then show ?thesis
        unfolding st using small view w1 e(4,6)
        by (auto simp: ws_view_def length_field_def in_frame_def fs intro!: expects.mask)
    next
      case medium
      have st: "header_step ws = Again (w1\<lparr>ws_state := WS_NEED_LEN16\<rparr>)"
        using medium by (simp add: step len7_def)
      have "ws_inv (w1\<lparr>ws_state := WS_NEED_LEN16\<rparr>)"
        using header_inv [of ws] e(1,2) unfolding st by (simp add: good_def)
      then have "good (w1\<lparr>ws_state := WS_NEED_LEN16\<rparr>) M ((key, p) # fs')" using w1 by (intro good) simp_all
      then show ?thesis
        unfolding st using medium view w1 e(4,6)
        by (auto simp: ws_view_def length_field_def in_frame_def fs intro!: expects.len16)
    next
      case large
      have st: "header_step ws = Again (w1\<lparr>ws_state := WS_NEED_LEN64\<rparr>)"
        using large by (simp add: step len7_def)
      have "ws_inv (w1\<lparr>ws_state := WS_NEED_LEN64\<rparr>)"
        using header_inv [of ws] e(1,2) unfolding st by (simp add: good_def)
      then have "good (w1\<lparr>ws_state := WS_NEED_LEN64\<rparr>) M ((key, p) # fs')" using w1 by (intro good) simp_all
      then show ?thesis
        unfolding st using large view w1 e(4,6)
        by (auto simp: ws_view_def length_field_def in_frame_def fs intro!: expects.len64)
    qed
  qed
qed

lemma length_expects:
  assumes e: "good ws M ((key, p) # fs)" "in_frame ws op fs" "op \<in> {WS_OP_TEXT, WS_OP_BINARY}"
     "M = ws_msg ws @ p @ message_of fs"
  shows "ws_state ws = WS_NEED_LEN16 \<Longrightarrow> 125 < length p \<Longrightarrow> length p \<le> 65535 \<Longrightarrow>
       ws_view ws rest = be_bytes 2 (length p) @ frame_tail key p fs R \<Longrightarrow> outcome_expects (len16_step ws) rest op M R"
    and "ws_state ws = WS_NEED_LEN64 \<Longrightarrow> 65535 < length p \<Longrightarrow>
       ws_view ws rest = be_bytes 8 (length p) @ frame_tail key p fs R \<Longrightarrow> outcome_expects (len64_step ws) rest op M R"
proof -
  let ?n = "length p"
  have inv: "ws_inv ws" and fit: "length (ws_msg ws) + ?n \<le> max_message ws" and big: "?n < 2 ^ 63"
    using e(1,4) by (simp_all add: good_def fragments_ok_def)
  have next_frame: "next_of (ws_frame_length_known (ws\<lparr>payload_len := ?n, ws_pos := k\<rparr>)) =
        Again (ws\<lparr>payload_len := ?n, ws_pos := k, ws_state := WS_NEED_MASK\<rparr>)"
      "expects (ws\<lparr>payload_len := ?n, ws_pos := k, ws_state := WS_NEED_MASK\<rparr>)
         (ws_view (ws\<lparr>payload_len := ?n, ws_pos := k, ws_state := WS_NEED_MASK\<rparr>) rest) op M R"
    if "ws_state ws \<in> {WS_NEED_LEN16, WS_NEED_LEN64}" "k \<le> length (ws_in ws)"
      "drop k (ws_in ws) @ rest = frame_tail key p fs R" for k
  proof -
    let ?w = "ws\<lparr>payload_len := ?n, ws_pos := k\<rparr>"
    have "ws_inv ?w" using that inv by (auto simp: ws_inv_def ws_room_def ws_state_ok_def)
    then have k: "ws_frame_length_known ?w = (WS_PARSE_CONTINUE, ?w\<lparr>ws_state := WS_NEED_MASK\<rparr>)"
      using fit by (intro length_known_ok) auto
    moreover have "ws_inv (snd (ws_frame_length_known ?w))"
      using \<open>ws_inv ?w\<close> e(2) by (intro length_known_inv) (auto simp: in_frame_def)
    ultimately show "next_of (ws_frame_length_known ?w) = Again (?w\<lparr>ws_state := WS_NEED_MASK\<rparr>)"
      and "expects (?w\<lparr>ws_state := WS_NEED_MASK\<rparr>) (ws_view (?w\<lparr>ws_state := WS_NEED_MASK\<rparr>) rest) op M R"
      using e that by (auto simp: next_of_def good_def in_frame_def ws_view_def intro!: expects.mask)
  qed
  have stall: "rest \<noteq> []" if "length (ws_in ws) - ws_pos ws < k" "ws_view ws rest = be_bytes k x @ t" for k x t
  proof -
    have "length (ws_view ws rest) \<ge> k" using that(2) by simp
    then show ?thesis using that(1) by (auto simp: ws_view_def)
  qed
  have val: "be_value (take k (drop (ws_pos ws) (ws_in ws))) = ?n"
      "drop (ws_pos ws + k) (ws_in ws) @ rest = frame_tail key p fs R" "ws_pos ws + k \<le> length (ws_in ws)"
    if "\<not> length (ws_in ws) - ws_pos ws < k" "ws_view ws rest = be_bytes k ?n @ frame_tail key p fs R" "?n < 256 ^ k" "0 < k" for k
    using that view_take [of k ws rest] view_drop [of k ws rest] be_value_bytes [of ?n k] by auto
  show "outcome_expects (len16_step ws) rest op M R"
    if "ws_state ws = WS_NEED_LEN16" "125 < ?n" "?n \<le> 65535" "ws_view ws rest = be_bytes 2 ?n @ frame_tail key p fs R"
  proof (cases "length (ws_in ws) - ws_pos ws < 2")
    case True
    then show ?thesis using stall that(4) by (simp add: len16_step_def)
  next
    case False
    note v = val [OF False that(4)]
    show ?thesis
      using False that v next_frame [of "ws_pos ws + 2"] by (simp add: len16_step_def)
  qed
  show "outcome_expects (len64_step ws) rest op M R"
    if "ws_state ws = WS_NEED_LEN64" "65535 < ?n" "ws_view ws rest = be_bytes 8 ?n @ frame_tail key p fs R"
  proof (cases "length (ws_in ws) - ws_pos ws < 8")
    case True
    then show ?thesis using stall that(3) by (simp add: len64_step_def)
  next
    case False
    note v = val [OF False that(3)]
    have "?n < 256 ^ 8" "drop_bit 63 ?n = 0" using big by (simp_all add: drop_bit_eq_div)
    then show ?thesis
      using False that v next_frame [of "ws_pos ws + 8"] by (simp add: len64_step_def Let_def)
  qed
qed

lemma mask_expects:
  assumes e: "good ws M ((key, p) # fs)" "ws_state ws = WS_NEED_MASK" "in_frame ws op fs"
     "op \<in> {WS_OP_TEXT, WS_OP_BINARY}" "payload_len ws = length p" "M = ws_msg ws @ p @ message_of fs"
     "ws_view ws rest = frame_tail key p fs R"
  shows "outcome_expects (mask_step ws) rest op M R"
proof -
  have key: "length key = 4" using e(1) by (simp add: good_def fragments_ok_def)
  show ?thesis
  proof (cases "length (ws_in ws) - ws_pos ws < 4")
    case True
    have "length (ws_view ws rest) \<ge> 4" using e(7) key by (simp add: frame_tail_def)
    then show ?thesis using True by (auto simp: mask_step_def ws_view_def)
  next
    case False
    have t: "take 4 (drop (ws_pos ws) (ws_in ws)) = key"
        "drop (ws_pos ws + 4) (ws_in ws) @ rest = unmask key 0 p @ frames_of WS_OP_CONT fs @ R"
      using False view_take [of 4 ws rest] view_drop [of 4 ws rest] key e(7) by (simp_all add: frame_tail_def)
    have "outcome_inv (mask_step ws)" using e(1,2) by (simp add: good_def mask_inv)
    then show ?thesis
      using False t e by (auto simp: mask_step_def ws_view_def good_def in_frame_def fragments_ok_def intro!: expects.payload [where p = p])
  qed
qed

text \<open>An allocator that never fails.\<close>

definition ample :: "allocator \<Rightarrow> bool" where
  "ample mem \<longleftrightarrow> (\<forall>n. mem n)"

lemma reserve_ok:
  assumes "ample mem" and "\<not> need > SIZE_MAX - 1"
  shows "\<exists>c. ws_msg_reserve mem ws need = Some (ws\<lparr>msg_cap := c\<rparr>)"
proof (cases "need \<le> msg_cap ws")
  case True
  then show ?thesis by (intro exI [of _ "msg_cap ws"]) (simp add: ws_msg_reserve_def)
next
  case False
  then show ?thesis using assms by (auto simp: ws_msg_reserve_def Let_def ample_def)
qed

lemma payload_expects:
  assumes e: "good ws M fs" "ws_state ws = WS_NEED_PAYLOAD" "in_frame ws op fs" "op \<in> {WS_OP_TEXT, WS_OP_BINARY}"
     "payload_len ws = length p" "payload_done ws \<le> length p"
     "M = ws_msg ws @ drop (payload_done ws) p @ message_of fs"
     "ws_view ws rest = drop (payload_done ws) (unmask (ws_mask ws) 0 p) @ frames_of WS_OP_CONT fs @ R"
     and mem: "ample mem"
  shows "outcome_expects (payload_step mem ws) rest op M R"
proof -
  let ?d = "payload_done ws"
  have inv: "ws_inv ws" and op: "\<not> WS_OP_CLOSE \<le> ws_opcode ws" "ws_fin ws = (fs = [])" "msg_opcode ws = op"
    using e(1,3) by (auto simp: good_def in_frame_def)
  have oinv: "outcome_inv (payload_step mem ws)" using inv e(2) by (rule payload_inv)
  show ?thesis
  proof (cases "?d = length p")
    case True
    let ?w = "ws\<lparr>ws_state := WS_NEED_HEADER, payload_done := 0\<rparr>"
    have view: "ws_view ws rest = frames_of WS_OP_CONT fs @ R" using e(8) True by simp
    show ?thesis
    proof (cases "fs = []")
      case False
      then have st: "payload_step mem ws = Again (?w\<lparr>msg_active := True\<rparr>)"
        using True op e(5) by (simp add: payload_step_def Let_def)
      show ?thesis
        using oinv False True e(1,4,7) op(3) view unfolding st
        by (auto simp: ws_view_def good_def intro!: expects.header [where fs = fs and op' = WS_OP_CONT])
    next
      case fin: True
      then have "payload_step mem ws = Return (deliver mem ?w)"
        using True op e(5) by (simp add: payload_step_def Let_def)
      then show ?thesis
        using fin True view op(3) mem e(7) by (simp add: deliver_def Let_def ws_view_def ample_def)
    qed
  next
    case False
    then have d: "?d < length p" using e(6) by simp
    show ?thesis
    proof (cases "length (ws_in ws) - ws_pos ws = 0")
      case True
      then have "payload_step mem ws = Stall" using False e(5) by (simp add: payload_step_def)
      moreover have "ws_view ws rest \<noteq> []" using e(8) d by auto
      ultimately show ?thesis using True by (auto simp: ws_view_def)
    next
      case avail: False
      define n where "n = min (length p - ?d) (length (ws_in ws) - ws_pos ws)"
      define chunk where "chunk = take n (drop ?d p)"
      have n: "n \<le> length p - ?d" "n \<le> length (ws_in ws) - ws_pos ws" "length chunk = n"
        by (simp_all add: n_def chunk_def)
      have "take n (drop (ws_pos ws) (ws_in ws)) = take n (drop ?d (unmask (ws_mask ws) 0 p))"
        using view_take [OF n(2), of rest] n(1) by (simp add: e(8))
      also have "\<dots> = unmask (ws_mask ws) ?d chunk" by (simp add: unmask_drop unmask_take chunk_def)
      finally have u: "unmask (ws_mask ws) ?d (take n (drop (ws_pos ws) (ws_in ws))) = chunk" by simp
      define w where "w = ws\<lparr>ws_in := take (ws_pos ws) (ws_in ws) @ chunk @ drop (ws_pos ws + n) (ws_in ws),
        payload_done := ?d + n, ws_pos := ws_pos ws + n\<rparr>"
      have cw: "ws_unmask_chunk ws = (chunk, w)"
        unfolding ws_unmask_chunk_def Let_def e(5) n_def [symmetric] u w_def ..
      have "length (ws_msg ws) + n \<le> length M" using e(7) n by simp
      then have need: "\<not> length (ws_msg ws) + n > SIZE_MAX - 1" using e(1) by (simp add: good_def SIZE_MAX_def)
      then obtain c where r: "ws_msg_reserve mem w (length (ws_msg w) + length chunk) = Some (w\<lparr>msg_cap := c\<rparr>)"
        using reserve_ok [of mem "length (ws_msg w) + length chunk" w] mem n(3) by (auto simp: w_def)
      then have st: "payload_step mem ws = Again (w\<lparr>msg_cap := c, ws_msg := ws_msg w @ chunk\<rparr>)"
        using False avail d e(5) op cw by (auto simp: payload_step_def w_def)
      have "drop n (ws_view ws rest) = drop (?d + n) (unmask (ws_mask ws) 0 p) @ frames_of WS_OP_CONT fs @ R"
        unfolding e(8) using n(1) by (simp add: add.commute)
      moreover have "ws_view (w\<lparr>msg_cap := c, ws_msg := ws_msg w @ chunk\<rparr>) rest = drop n (ws_view ws rest)"
        using view_drop [OF n(2), of rest] inv n by (simp add: ws_view_def w_def ws_inv_def ws_room_def)
      moreover have "drop ?d p = chunk @ drop (?d + n) p"
        by (simp add: chunk_def add.commute flip: drop_drop)
      ultimately show ?thesis
        using oinv e n(1) d unfolding st
        by (auto simp: w_def good_def in_frame_def intro!: expects.payload [where p = p and fs = fs])
    qed
  qed
qed

lemma parse_step_expects:
  assumes "expects ws (ws_view ws rest) op M R" and mem: "ample mem"
  shows "outcome_expects (parse_step mem ws) rest op M R"
  using assms(1)
proof (cases rule: expects.cases)
  case (header fs op')
  then show ?thesis using header_expects [of ws M fs op op' rest R] by (simp add: parse_step_def)
next
  case (len16 key p fs)
  then show ?thesis using length_expects(1) [of ws M key p fs op rest R] by (simp add: parse_step_def)
next
  case (len64 key p fs)
  then show ?thesis using length_expects(2) [of ws M key p fs op rest R] by (simp add: parse_step_def)
next
  case (mask key p fs)
  then show ?thesis using mask_expects [of ws M key p fs op rest R] by (simp add: parse_step_def)
next
  case (payload fs p)
  then show ?thesis using payload_expects [of ws M fs op p rest R mem] mem by (simp add: parse_step_def)
qed

section \<open>From the parser to the receive loop\<close>

lemma compact_fields [simp]:
  "ws_state (ws_compact ws) = ws_state ws" "msg_active (ws_compact ws) = msg_active ws"
  "ws_msg (ws_compact ws) = ws_msg ws" "msg_opcode (ws_compact ws) = msg_opcode ws"
  "ws_opcode (ws_compact ws) = ws_opcode ws" "ws_fin (ws_compact ws) = ws_fin ws"
  "payload_len (ws_compact ws) = payload_len ws" "payload_done (ws_compact ws) = payload_done ws"
  "ws_mask (ws_compact ws) = ws_mask ws" "max_message (ws_compact ws) = max_message ws"
  "ws_sock (ws_compact ws) = ws_sock ws" "in_cap (ws_compact ws) = in_cap ws" "dead (ws_compact ws) = dead ws"
  "ws_view (ws_compact ws) rest = ws_view ws rest"
  "ws_pos (ws_compact ws) = 0"
  by (simp_all add: ws_compact_def ws_view_def)

lemma compact_length: "length (ws_in (ws_compact ws)) = length (ws_in ws) - ws_pos ws"
  by (simp add: ws_compact_def)

lemma expects_transfer:
  assumes "expects ws str op M R" and "ws_inv ws'"
    and "ws_state ws' = ws_state ws" "msg_active ws' = msg_active ws" "ws_msg ws' = ws_msg ws"
      "msg_opcode ws' = msg_opcode ws" "ws_opcode ws' = ws_opcode ws" "ws_fin ws' = ws_fin ws"
      "payload_len ws' = payload_len ws" "payload_done ws' = payload_done ws" "ws_mask ws' = ws_mask ws"
      "max_message ws' = max_message ws"
  shows "expects ws' str op M R"
  using assms(1)
proof (cases rule: expects.cases)
  case (header fs op')
  then show ?thesis using assms by (intro expects.header [where fs = fs and op' = op']) (auto simp: good_def)
next
  case (len16 key p fs)
  then show ?thesis using assms by (intro expects.len16 [where key = key and p = p and fs = fs]) (auto simp: good_def in_frame_def)
next
  case (len64 key p fs)
  then show ?thesis using assms by (intro expects.len64 [where key = key and p = p and fs = fs]) (auto simp: good_def in_frame_def)
next
  case (mask key p fs)
  then show ?thesis using assms by (intro expects.mask [where key = key and p = p and fs = fs]) (auto simp: good_def in_frame_def)
next
  case (payload fs p)
  then show ?thesis using assms by (intro expects.payload [where p = p and fs = fs]) (auto simp: good_def in_frame_def)
qed

lemma expects_inv: "expects ws str op M R \<Longrightarrow> ws_inv ws"
  by (auto simp: good_def elim: expects.cases)

lemma stall_short: "parse_step mem ws = Stall \<Longrightarrow> ws_inv ws \<Longrightarrow> length (ws_in ws) - ws_pos ws < 8"
  by (auto simp: parse_step_def header_step_def len16_step_def len64_step_def mask_step_def payload_step_def
      Let_def ws_inv_def ws_state_ok_def split: WsParseState.splits if_splits prod.splits option.splits)

definition received :: "HttpWs \<Rightarrow> nat \<Rightarrow> char list \<Rightarrow> char list \<Rightarrow> char list \<Rightarrow> bool" where
  "received ws op M rest R \<longleftrightarrow>
     ws_view ws rest = R \<and> ws_state ws = WS_NEED_HEADER \<and> \<not> msg_active ws \<and> ws_msg ws = [] \<and>
     ws_cur ws = Some (if op = WS_OP_TEXT then HTTP_WS_TEXT else HTTP_WS_BINARY, M)"

lemma ws_parse_expects:
  assumes "expects ws (ws_view ws rest) op M R" and mem: "ample mem"
  shows "(\<exists>ws'. ws_parse mem ws = (WS_PARSE_MESSAGE, ws') \<and> received ws' op M rest R) \<or>
    (\<exists>ws'. ws_parse mem ws = (WS_PARSE_CONTINUE, ws') \<and> rest \<noteq> [] \<and> expects ws' (ws_view ws' rest) op M R \<and>
       length (ws_in ws') < 8)"
  using assms
proof (induction mem ws rule: ws_parse.induct)
  case (1 mem ws)
  note out = parse_step_expects [OF "1.prems"]
  note inv = expects_inv [OF "1.prems"(1)]
  show ?case
  proof (cases "parse_step mem ws")
    case (Again ws')
    with 1 out show ?thesis by (simp add: ws_parse.simps [of mem ws])
  next
    case Stall
    have "expects (ws_compact ws) (ws_view ws rest) op M R"
      by (rule expects_transfer [OF "1.prems"(1)]) (use inv in simp_all)
    then show ?thesis
      using Stall out stall_short [OF Stall inv]
      by (intro disjI2 exI [of _ "ws_compact ws"]) (simp add: ws_parse.simps [of mem ws] compact_length)
  next
    case (Return r)
    with out show ?thesis
      by (cases r) (auto simp: ws_parse.simps [of mem ws] received_def)
  qed
qed

text \<open>A connection on which nothing but data, signals and poll timeouts of a running server happens.\<close>

fun calm_event :: "recv_event \<Rightarrow> bool" where
  "calm_event (RData bs) = (bs \<noteq> [])"
| "calm_event REintr = True"
| "calm_event (RTimeout listening) = listening"
| "calm_event RError = False"

definition calm :: "socket \<Rightarrow> bool" where
  "calm s \<longleftrightarrow> list_all calm_event (inbox s)"

lemma recv_calm:
  assumes "calm s" and "0 < n" and "pending s \<noteq> []" and "recv n s = (e, s')"
  shows "calm s'" and "(\<exists>bs. e = Got bs) \<or> (e = Eintr \<or> e = Timeout True) \<and> pending s' = pending s"
proof -
  obtain v es where i: "inbox s = v # es" using assms(3) by (cases "inbox s") (auto simp: pending_def)
  have "calm s' \<and> ((\<exists>bs. e = Got bs) \<or> (e = Eintr \<or> e = Timeout True) \<and> pending s' = pending s)"
    using assms(1,2,4) i
    by (cases v) (auto simp: recv_def calm_def pending_def split: if_splits)
  then show "calm s'" "(\<exists>bs. e = Got bs) \<or> (e = Eintr \<or> e = Timeout True) \<and> pending s' = pending s" by auto
qed

lemma recv_loop_delivers:
  assumes "expects ws (ws_view ws (pending (ws_sock ws))) op M R" and "calm (ws_sock ws)" and "ample mem"
  shows "\<exists>ws'. ws_recv_loop mem ws = (HTTP_WS_OK, ws') \<and> received ws' op M (pending (ws_sock ws')) R"
  using assms
proof (induction mem ws rule: ws_recv_loop.induct)
  case (1 mem ws)
  note inv = expects_inv [OF "1.prems"(1)]
  obtain r ws1 where p: "ws_parse mem ws = (r, ws1)" by (cases "ws_parse mem ws")
  have sock: "inbox (ws_sock ws1) = inbox (ws_sock ws)"
    using ws_parse_frame [of mem ws] p by (simp add: ws_frame_def)
  then have pend: "pending (ws_sock ws1) = pending (ws_sock ws)" and calm: "calm (ws_sock ws1)"
    using "1.prems"(2) by (simp_all add: pending_def calm_def)
  from ws_parse_expects [OF "1.prems"(1,3)] p
  consider (message) "r = WS_PARSE_MESSAGE" "received ws1 op M (pending (ws_sock ws)) R"
    | (more) "r = WS_PARSE_CONTINUE" "pending (ws_sock ws) \<noteq> []"
        "expects ws1 (ws_view ws1 (pending (ws_sock ws))) op M R" "length (ws_in ws1) < 8"
    by auto
  then show ?case
  proof cases
    case message
    then show ?thesis using p pend by (simp add: ws_recv_loop.simps [of mem ws])
  next
    case more
    note i1 = expects_inv [OF more(3)]
    have cap: "length (ws_in ws1) < in_cap ws1"
      using i1 more(4) by (simp add: ws_inv_def ws_room_def ws_consts)
    then have g: "ws_grow mem ws1 = Some ws1" by (simp add: ws_grow_def)
    obtain e s where e: "recv (in_cap ws1 - length (ws_in ws1)) (ws_sock ws1) = (e, s)"
      by (cases "recv (in_cap ws1 - length (ws_in ws1)) (ws_sock ws1)")
    note IH = "1.IH" [OF p [symmetric] more(1) g e [symmetric]]
    have c: "calm s" and d: "(\<exists>bs. e = Got bs) \<or> (e = Eintr \<or> e = Timeout True) \<and> pending s = pending (ws_sock ws)"
      using recv_calm [OF calm _ _ e] cap more(2) pend by auto
    from d show ?thesis
    proof (elim disjE exE conjE)
      fix bs assume bs: "e = Got bs"
      let ?w = "ws1\<lparr>ws_sock := s, ws_in := ws_in ws1 @ bs\<rparr>"
      have b: "length bs \<le> in_cap ws1 - length (ws_in ws1)" "pending (ws_sock ws1) = bs @ pending s"
        using recv_Got e bs by auto
      have "ws_inv ?w" using i1 b(1) cap by (intro ws_inv_receive) auto
      moreover have "ws_view ?w (pending s) = ws_view ws1 (pending (ws_sock ws))"
        using b(2) pend i1 by (simp add: ws_view_def ws_inv_def ws_room_def)
      ultimately have "expects ?w (ws_view ?w (pending s)) op M R"
        using expects_transfer [OF more(3), of ?w] by simp
      then show ?thesis
        using IH(1) [OF bs] c "1.prems"(3) p more(1) g e bs by (simp add: ws_recv_loop.simps [of mem ws])
    next
      assume ei: "e = Eintr" "pending s = pending (ws_sock ws)"
      have "expects (ws1\<lparr>ws_sock := s\<rparr>) (ws_view (ws1\<lparr>ws_sock := s\<rparr>) (pending s)) op M R"
        using expects_transfer [OF more(3), of "ws1\<lparr>ws_sock := s\<rparr>"] i1 ei(2) by (simp add: ws_view_def)
      then show ?thesis
        using IH(2) [OF ei(1)] c "1.prems"(3) p more(1) g e ei by (simp add: ws_recv_loop.simps [of mem ws])
    next
      assume ti: "e = Timeout True" "pending s = pending (ws_sock ws)"
      have "expects (ws1\<lparr>ws_sock := s\<rparr>) (ws_view (ws1\<lparr>ws_sock := s\<rparr>) (pending s)) op M R"
        using expects_transfer [OF more(3), of "ws1\<lparr>ws_sock := s\<rparr>"] i1 ti(2) by (simp add: ws_view_def)
      then show ?thesis
        using IH(3) [OF ti(1)] c "1.prems"(3) p more(1) g e ti by (simp add: ws_recv_loop.simps [of mem ws])
    qed
  qed
qed

section \<open>A stalled parser stays stalled\<close>

lemma parse_step_Return: "parse_step mem ws = Return r \<Longrightarrow> fst r \<noteq> WS_PARSE_CONTINUE"
  by (auto simp: parse_step_def header_step_def len16_step_def len64_step_def mask_step_def payload_step_def
      deliver_def ws_protocol_violation_def next_of_Return Let_def
      split: WsParseState.splits if_splits prod.splits option.splits)

lemma header_Stall: "header_step ws = Stall \<longleftrightarrow> length (ws_in ws) - ws_pos ws < 2"
  by (simp add: header_step_def Let_def)

lemma payload_Stall:
  "payload_step mem ws = Stall \<longleftrightarrow>
     payload_done ws \<noteq> payload_len ws \<and> (length (ws_in ws) - ws_pos ws = 0 \<or> payload_done ws > payload_len ws)"
  by (auto simp: payload_step_def Let_def split: prod.splits option.splits)

lemma parse_step_Stall:
  "parse_step mem ws = Stall \<longleftrightarrow>
     (let left = length (ws_in ws) - ws_pos ws
      in case ws_state ws of
           WS_NEED_HEADER \<Rightarrow> left < 2 | WS_NEED_LEN16 \<Rightarrow> left < 2 | WS_NEED_LEN64 \<Rightarrow> left < 8 | WS_NEED_MASK \<Rightarrow> left < 4
         | WS_NEED_PAYLOAD \<Rightarrow> payload_done ws \<noteq> payload_len ws \<and> (left = 0 \<or> payload_done ws > payload_len ws))"
  by (cases "ws_state ws")
    (simp_all add: parse_step_def header_Stall payload_Stall len16_step_def len64_step_def mask_step_def Let_def)

lemma stall_compact: "parse_step mem (ws_compact ws) = Stall \<longleftrightarrow> parse_step mem ws = Stall"
  by (simp add: parse_step_Stall compact_length Let_def split: WsParseState.split)

lemma ws_parse_stalled:
  "ws_parse mem ws = (WS_PARSE_CONTINUE, ws') \<Longrightarrow> parse_step mem ws' = Stall \<and> ws_pos ws' = 0"
proof (induction mem ws rule: ws_parse.induct)
  case (1 mem ws)
  show ?case
  proof (cases "parse_step mem ws")
    case (Again w)
    with 1 show ?thesis by (simp add: ws_parse.simps [of mem ws])
  next
    case Stall
    with "1.prems" have "ws' = ws_compact ws" by (simp add: ws_parse.simps [of mem ws])
    with Stall show ?thesis using stall_compact [of mem ws] by simp
  next
    case (Return r)
    with "1.prems" parse_step_Return [OF Return] show ?thesis by (simp add: ws_parse.simps [of mem ws])
  qed
qed

section \<open>Shutdown\<close>

definition idle_event :: "recv_event \<Rightarrow> bool" where
  "idle_event e \<longleftrightarrow> e = REintr \<or> e = RTimeout True"

lemma stalled_parse: "parse_step mem ws = Stall \<Longrightarrow> ws_pos ws = 0 \<Longrightarrow> ws_parse mem ws = (WS_PARSE_CONTINUE, ws)"
  by (simp add: ws_parse.simps ws_compact_def)

lemma send_frame_reliable:
  "sends (ws_sock ws) = [] \<Longrightarrow>
     ws_send_frame_locked ws op p =
       (0, ws\<lparr>ws_sock := (ws_sock ws)\<lparr>outbox := outbox (ws_sock ws) @ ws_frame_header op (length p) @ p\<rparr>\<rparr>)"
  by (simp add: ws_send_frame_locked_def wssock.send_reliable)

lemma recv_idle:
  assumes "parse_step mem ws = Stall" and "ws_pos ws = 0" and "length (ws_in ws) < in_cap ws"
    and "inbox (ws_sock ws) = idle @ RTimeout False # es" and "list_all idle_event idle" and "\<not> dead ws"
  shows "\<exists>s. inbox s = es \<and> sends s = sends (ws_sock ws) \<and> outbox s = outbox (ws_sock ws) \<and>
    ws_recv_loop mem ws =
      (HTTP_WS_CLOSED, ws_mark_dead (snd (ws_send_close (ws\<lparr>ws_sock := s\<rparr>) 1001 (Some ''server shutting down''))) 1001 False)"
  using assms
proof (induction idle arbitrary: ws)
  case Nil
  have "ws_recv_loop mem ws = (HTTP_WS_CLOSED,
      ws_mark_dead (snd (ws_send_close (ws\<lparr>ws_sock := (ws_sock ws)\<lparr>inbox := es\<rparr>\<rparr>) 1001 (Some ''server shutting down''))) 1001 False)"
    using Nil.prems stalled_parse [OF Nil.prems(1,2)]
    by (simp add: ws_recv_loop.simps [of mem ws] ws_grow_def recv_def)
  then show ?case by (intro exI [of _ "(ws_sock ws)\<lparr>inbox := es\<rparr>"]) simp
next
  case (Cons e idle)
  let ?s = "(ws_sock ws)\<lparr>inbox := idle @ RTimeout False # es\<rparr>"
  let ?w = "ws\<lparr>ws_sock := ?s\<rparr>"
  have "ws_recv_loop mem ws = ws_recv_loop mem ?w"
    using Cons.prems stalled_parse [OF Cons.prems(1,2)]
    by (auto simp: ws_recv_loop.simps [of mem ws] ws_grow_def recv_def idle_event_def)
  moreover have "parse_step mem ?w = Stall" using Cons.prems(1) by (simp add: parse_step_Stall Let_def cong: WsParseState.case_cong)
  ultimately show ?case using Cons.IH [of ?w] Cons.prems by simp
qed

section \<open>The terminator of a message\<close>

lemma unmask_append: "unmask key i (xs @ ys) = unmask key i xs @ unmask key (i + length xs) ys"
proof -
  have "take (length xs) (unmask key i (xs @ ys)) = unmask key i xs" by (simp add: unmask_take)
  moreover have "drop (length xs) (unmask key i (xs @ ys)) = unmask key (i + length xs) ys" by (simp add: unmask_drop)
  ultimately show ?thesis by (metis append_take_drop_id)
qed

text \<open>
  The last chunk of a message that fills the capacity exactly: \<^verbatim>\<open>ws_msg_reserve\<close> is content with
  \<^verbatim>\<open>need == msg_cap\<close>, and the terminator lands behind the buffer.
\<close>

lemma last_chunk_overruns:
  assumes "ws_state ws = WS_NEED_PAYLOAD" "ws_opcode ws < WS_OP_CLOSE" "ws_fin ws"
    "drop (ws_pos ws) (ws_in ws) = unmask (ws_mask ws) (payload_done ws) chunk" "chunk \<noteq> []"
    "payload_len ws = payload_done ws + length chunk" "msg_cap ws = length (ws_msg ws) + length chunk"
    "ws_pos ws \<le> length (ws_in ws)"
  shows "\<exists>ws'. ws_parse mem ws = (WS_PARSE_MESSAGE, ws') \<and> ws_oob ws' \<and>
    ws_cur ws' = Some (if msg_opcode ws = WS_OP_TEXT then HTTP_WS_TEXT else HTTP_WS_BINARY, ws_msg ws @ chunk)"
proof -
  have len: "length (ws_in ws) - ws_pos ws = length chunk" using arg_cong [OF assms(4), of length] by simp
  define w where "w = ws\<lparr>ws_in := take (ws_pos ws) (ws_in ws) @ chunk, payload_done := payload_len ws,
    ws_pos := ws_pos ws + length chunk, ws_msg := ws_msg ws @ chunk\<rparr>"
  have "ws_unmask_chunk ws = (chunk, ws\<lparr>ws_in := take (ws_pos ws) (ws_in ws) @ chunk, payload_done := payload_len ws,
    ws_pos := ws_pos ws + length chunk\<rparr>)"
    using assms(4,6,8) len by (simp add: ws_unmask_chunk_def Let_def)
  then have "parse_step mem ws = Again w"
    using assms len by (simp add: parse_step_def payload_step_def ws_msg_reserve_def w_def)
  moreover have "parse_step mem w = Return (deliver mem (w\<lparr>ws_state := WS_NEED_HEADER, payload_done := 0\<rparr>))"
    using assms by (simp add: parse_step_def payload_step_def w_def Let_def)
  ultimately have "ws_parse mem ws = deliver mem (w\<lparr>ws_state := WS_NEED_HEADER, payload_done := 0\<rparr>)"
    by (simp add: ws_parse.simps [of mem ws] ws_parse.simps [of mem w])
  then show ?thesis using assms(5,7) by (auto simp: deliver_def w_def Let_def)
qed

lemma first_chunk:
  assumes "ws_state ws = WS_NEED_HEADER" "\<not> msg_active ws" "ws_msg ws = []" "msg_cap ws = 0" "ws_pos ws = 0"
    "256 \<le> max_message ws" "max_message ws < 2 ^ 64" "ample mem" "length key = 4" "0 < length u" "length u < 256"
    "ws_in ws = [CHR 0x82, CHR 0xFE, CHR 0x01, NUL] @ key @ u"
  shows "\<exists>w. ws_parse mem ws = (WS_PARSE_CONTINUE, w) \<and> ws_state w = WS_NEED_PAYLOAD \<and> ws_opcode w = WS_OP_BINARY \<and>
    ws_fin w \<and> ws_mask w = key \<and> payload_len w = 256 \<and> payload_done w = length u \<and>
    ws_msg w = unmask key 0 u \<and> msg_cap w = 256 \<and> ws_in w = [] \<and> ws_pos w = 0 \<and> in_cap w = in_cap ws \<and>
    ws_sock w = ws_sock ws \<and> msg_opcode w = WS_OP_BINARY"
proof -
  define w1 where "w1 = ws\<lparr>ws_pos := 2, ws_fin := True, ws_opcode := 2, ws_masked := True, msg_opcode := 2,
    ws_state := WS_NEED_LEN16\<rparr>"
  have 1: "parse_step mem ws = Again w1"
    using assms by (simp add: parse_step_def header_step_def Let_def known_opcode_def ws_consts w1_def)
  define w2 where "w2 = w1\<lparr>payload_len := 256, ws_pos := 4, ws_state := WS_NEED_MASK\<rparr>"
  have "be_value (take 2 (drop 2 (ws_in ws))) = 256" by (simp add: assms(12) be_value_def)
  then have 2: "parse_step mem w1 = Again w2"
    using assms by (simp add: parse_step_def len16_step_def Let_def w1_def w2_def ws_frame_length_known_def size_sub_def next_of_def)
  define w3 where "w3 = w2\<lparr>ws_mask := key, ws_pos := 8, payload_done := 0, ws_ctrl := [], ws_state := WS_NEED_PAYLOAD\<rparr>"
  have 3: "parse_step mem w2 = Again w3"
    using assms by (simp add: parse_step_def mask_step_def w1_def w2_def w3_def)
  define w4 where "w4 = w3\<lparr>ws_in := take 8 (ws_in ws) @ unmask key 0 u, payload_done := length u, ws_pos := 8 + length u,
    msg_cap := 256, ws_msg := unmask key 0 u\<rparr>"
  have r: "reserve_cap 256 (length u) = 256" using assms(11) by (simp add: reserve_cap.simps)
  have c: "ws_unmask_chunk w3 = (unmask key 0 u,
      w3\<lparr>ws_in := take 8 (ws_in ws) @ unmask key 0 u, payload_done := length u, ws_pos := 8 + length u\<rparr>)"
    using assms by (simp add: ws_unmask_chunk_def Let_def w3_def w2_def w1_def)
  have f: "ws_state w3 = WS_NEED_PAYLOAD" "payload_done w3 = 0" "payload_len w3 = 256" "ws_opcode w3 = 2"
      "ws_in w3 = ws_in ws" "ws_pos w3 = 8" "ws_msg w3 = []" "msg_cap w3 = 0"
    using assms(3,4) by (simp_all add: w3_def w2_def w1_def)
  have 4: "parse_step mem w3 = Again w4"
    using assms(8-12) r
    by (simp add: parse_step_def payload_step_def f c ws_msg_reserve_def Let_def SIZE_MAX_def ample_def ws_consts w4_def)
  have 5: "parse_step mem w4 = Stall"
    using assms by (simp add: parse_step_Stall w4_def w3_def w2_def)
  have "ws_parse mem ws = (WS_PARSE_CONTINUE, ws_compact w4)"
    by (simp add: ws_parse.simps [of mem ws] ws_parse.simps [of mem w1] ws_parse.simps [of mem w2]
        ws_parse.simps [of mem w3] ws_parse.simps [of mem w4] 1 2 3 4 5)
  then show ?thesis
    using assms by (intro exI [of _ "ws_compact w4"]) (simp add: ws_compact_def w4_def w3_def w2_def w1_def ws_consts)
qed

section \<open>Properties\<close>

text \<open>C8: a text or binary message that a client sends in any number of masked fragments, in any length
  encoding, arriving in any pieces between signals and poll timeouts, is what the next
  \<^verbatim>\<open>http_ws_recv\<close> returns, byte for byte; what follows it on the connection stays unread and the session is
  ready for the next message.\<close>

theorem message_delivered:
  assumes "ws_inv ws" and "\<not> dead ws" and "ws_state ws = WS_NEED_HEADER" and "\<not> msg_active ws" and "ws_msg ws = []"
    and "op \<in> {WS_OP_TEXT, WS_OP_BINARY}" and "fs \<noteq> []" and "fragments_ok fs"
    and "length (message_of fs) \<le> max_message ws" and "length (message_of fs) < 2 ^ 63"
    and "ample mem" and "calm (ws_sock ws)"
    and "ws_view ws (pending (ws_sock ws)) = frames_of op fs @ R"
  shows "\<exists>ws'. http_ws_recv mem ws = (HTTP_WS_OK, ws') \<and>
    ws_cur ws' = Some (if op = WS_OP_TEXT then HTTP_WS_TEXT else HTTP_WS_BINARY, message_of fs) \<and>
    ws_view ws' (pending (ws_sock ws')) = R \<and>
    ws_inv ws' \<and> ws_state ws' = WS_NEED_HEADER \<and> \<not> msg_active ws' \<and> ws_msg ws' = []"
proof -
  have "expects ws (ws_view ws (pending (ws_sock ws))) op (message_of fs) R"
    using assms by (intro expects.header [where fs = fs and op' = op]) (auto simp: good_def)
  from recv_loop_delivers [OF this assms(12,11)] obtain ws' where
    "ws_recv_loop mem ws = (HTTP_WS_OK, ws')" "received ws' op (message_of fs) (pending (ws_sock ws')) R" by blast
  then show ?thesis
    using assms(1,2) sess.recv_call [OF assms(1), of mem] by (auto simp: http_ws_recv_def ws_is_dead_def received_def)
qed

definition sample_session :: "nat \<Rightarrow> char list \<Rightarrow> recv_event list \<Rightarrow> HttpWs" where
  "sample_session n lo es =
     the (ws_session_create (\<lambda>_. True) True n \<lparr>inbox = es, sends = [], outbox = []\<rparr> lo)"

lemma sample_session_fields:
  "ws_session_create (\<lambda>_. True) True n \<lparr>inbox = es, sends = [], outbox = []\<rparr> lo = Some (sample_session n lo es)"
  "\<not> dead (sample_session n lo es)" "ws_state (sample_session n lo es) = WS_NEED_HEADER"
  "\<not> msg_active (sample_session n lo es)" "ws_msg (sample_session n lo es) = []"
  "max_message (sample_session n lo es) = n" "ws_in (sample_session n lo es) = lo" "ws_pos (sample_session n lo es) = 0"
  "ws_sock (sample_session n lo es) = \<lparr>inbox = es, sends = [], outbox = []\<rparr>" "msg_cap (sample_session n lo es) = 0"
  "in_cap (sample_session n lo es) = (if WS_RECV_BUFFER < length lo then length lo + WS_RECV_BUFFER else WS_RECV_BUFFER)"
  "close_sent (sample_session n lo es) = False"
  by (simp_all add: sample_session_def ws_session_create_def Let_def)

theorem message_delivered_witness:
  "\<exists>ws'. http_ws_recv (\<lambda>_. True)
       (sample_session 100 [CHR 0x01] [RData [CHR 0x82], RTimeout True, RData ''abcd'', REintr,
          RData [CHR 0x09, CHR 0x0B, CHR 0x80, CHR 0x80, NUL, NUL, NUL, NUL]]) = (HTTP_WS_OK, ws') \<and>
     ws_cur ws' = Some (HTTP_WS_TEXT, ''hi'')"
proof -
  let ?ws = "sample_session 100 [CHR 0x01] [RData [CHR 0x82], RTimeout True, RData ''abcd'', REintr,
          RData [CHR 0x09, CHR 0x0B, CHR 0x80, CHR 0x80, NUL, NUL, NUL, NUL]]"
  let ?fs = "[(''abcd'', ''hi''), ([NUL, NUL, NUL, NUL], [])]"
  have inv: "ws_inv ?ws" by (rule ws_inv_create [OF sample_session_fields(1)]) simp
  have v: "ws_view ?ws (pending (ws_sock ?ws)) = frames_of WS_OP_TEXT ?fs @ []"
    by (simp add: sample_session_fields ws_view_def pending_def client_frame_def length_field_def unmask_def
        xor_char_def ws_consts upt_rec_numeral upt_rec)
  show ?thesis
    using message_delivered [OF inv, of WS_OP_TEXT ?fs "\<lambda>_. True" "[]"] v
    by (auto simp: sample_session_fields fragments_ok_def ample_def calm_def)
qed

text \<open>When the server stops listening while a client is silent, the receive call returns
  \<^verbatim>\<open>HTTP_WS_CLOSED\<close> at the next poll timeout, whatever signals and timeouts came before, and the client gets a close
  frame with the code 1001.\<close>

theorem recv_notices_shutdown:
  assumes "\<not> dead ws" and "ws_parse mem ws = (WS_PARSE_CONTINUE, w)" and "\<not> dead w" and "length (ws_in w) < in_cap w"
    and "inbox (ws_sock ws) = idle @ RTimeout False # es" and "list_all idle_event idle" and "sends (ws_sock w) = []"
  shows "\<exists>ws'. http_ws_recv mem ws = (HTTP_WS_CLOSED, ws') \<and> dead ws' \<and> close_code ws' = 1001 \<and> close_sent ws' \<and>
    inbox (ws_sock ws') = es \<and>
    outbox (ws_sock ws') = outbox (ws_sock w) @ ws_frame_header WS_OP_CLOSE 22 @ [CHR 0x03, CHR 0xE9] @ ''server shutting down''"
proof -
  have w: "parse_step mem w = Stall" "ws_pos w = 0" using ws_parse_stalled [OF assms(2)] by auto
  have i: "inbox (ws_sock w) = idle @ RTimeout False # es"
    using ws_parse_frame [of mem ws] assms(2,5) by (simp add: ws_frame_def)
  have "ws_recv_loop mem ws = ws_recv_loop mem w"
    using assms(2) stalled_parse [OF w] by (simp add: ws_recv_loop.simps [of mem ws] ws_recv_loop.simps [of mem w])
  moreover obtain s where s: "inbox s = es" "sends s = sends (ws_sock w)" "outbox s = outbox (ws_sock w)"
    "ws_recv_loop mem w =
      (HTTP_WS_CLOSED, ws_mark_dead (snd (ws_send_close (w\<lparr>ws_sock := s\<rparr>) 1001 (Some ''server shutting down''))) 1001 False)"
    using recv_idle [OF w assms(4) i assms(6,3)] by blast
  moreover have "ws_send_frame_locked (w\<lparr>ws_sock := s\<rparr>) WS_OP_CLOSE (close_payload 1001 (Some ''server shutting down'')) =
    (0, w\<lparr>ws_sock := s\<lparr>outbox := outbox s @ ws_frame_header WS_OP_CLOSE 22 @ [CHR 0x03, CHR 0xE9] @ ''server shutting down''\<rparr>\<rparr>)"
  proof -
    have p: "close_payload 1001 (Some ''server shutting down'') = [CHR 0x03, CHR 0xE9] @ ''server shutting down''"
      by (simp add: close_payload_def byte_at_def)
    have "length ([CHR 0x03, CHR 0xE9] @ ''server shutting down'') = 22" by simp
    then show ?thesis
      unfolding p using send_frame_reliable [of "w\<lparr>ws_sock := s\<rparr>" WS_OP_CLOSE "[CHR 0x03, CHR 0xE9] @ ''server shutting down''"] s(2) assms(7)
      by (simp only: HttpWs.simps) simp
  qed
  ultimately show ?thesis
    using assms(1,3) s(1-3)
    by (simp add: http_ws_recv_def ws_is_dead_def ws_send_close_def ws_mark_dead_def)
qed

theorem recv_notices_shutdown_witness:
  "\<exists>ws'. http_ws_recv (\<lambda>_. True) (sample_session 100 [] [REintr, RTimeout True, RTimeout False]) = (HTTP_WS_CLOSED, ws') \<and>
     close_code ws' = 1001"
proof -
  let ?ws = "sample_session 100 [] [REintr, RTimeout True, RTimeout False]"
  have "ws_parse (\<lambda>_. True) ?ws = (WS_PARSE_CONTINUE, ?ws)"
    by (rule stalled_parse) (simp_all add: parse_step_Stall sample_session_fields)
  then show ?thesis
    using recv_notices_shutdown [of ?ws "\<lambda>_. True" ?ws "[REintr, RTimeout True]" "[]"]
    by (auto simp: sample_session_fields idle_event_def ws_consts)
qed

text \<open>C40: a binary message of 256 bytes whose payload arrives in two pieces is delivered, but its terminating
  NUL is written one byte behind the message buffer.\<close>

theorem terminator_overrun:
  assumes "ws = sample_session n [] [RData ([CHR 0x82, CHR 0xFE, CHR 0x01, NUL] @ key @ unmask key 0 p),
      RData (unmask key (length p) q)]"
    and "256 \<le> n" and "n < 2 ^ 64" and "length key = 4" and "p \<noteq> []" and "q \<noteq> []" and "length p + length q = 256"
  shows "\<exists>ws'. http_ws_recv (\<lambda>_. True) ws = (HTTP_WS_OK, ws') \<and> ws_cur ws' = Some (HTTP_WS_BINARY, p @ q) \<and> ws_oob ws'"
proof -
  let ?mem = "\<lambda>_ :: nat. True" and ?F = "[CHR 0x82, CHR 0xFE, CHR 0x01, NUL] @ key @ unmask key 0 p"
  let ?s1 = "\<lparr>inbox = [RData (unmask key (length p) q)], sends = [], outbox = []\<rparr>"
  let ?w0 = "ws\<lparr>ws_sock := ?s1, ws_in := ?F\<rparr>"
  have ample: "ample ?mem" by (simp add: ample_def)
  have u: "unmask key i xs \<noteq> []" if "xs \<noteq> []" for i xs using that by (metis length_0_conv unmask_length)
  have 1: "ws_recv_loop ?mem ws = ws_recv_loop ?mem ?w0"
  proof -
    have p: "ws_parse ?mem ws = (WS_PARSE_CONTINUE, ws)"
      by (rule stalled_parse) (simp_all add: assms(1) sample_session_fields parse_step_Stall)
    have g: "ws_grow ?mem ws = Some ws" by (simp add: ws_grow_def assms(1) sample_session_fields ws_consts)
    have f: "ws_in ws = []" "in_cap ws = 4096" "\<not> dead ws" "ws_sock ws = \<lparr>inbox = [RData ?F, RData (unmask key (length p) q)], sends = [], outbox = []\<rparr>"
      by (simp_all add: assms(1) sample_session_fields ws_consts)
    have r: "recv (in_cap ws - length (ws_in ws)) (ws_sock ws) = (Got ?F, ?s1)"
      using assms(4,6,7) by (simp add: f recv_def)
    show ?thesis using r by (subst ws_recv_loop.simps) (simp add: p g f)
  qed
  have pl: "length p < 256" using assms(6,7) by (cases q) auto
  obtain w where w: "ws_parse ?mem ?w0 = (WS_PARSE_CONTINUE, w)" "ws_state w = WS_NEED_PAYLOAD" "ws_opcode w = WS_OP_BINARY"
    "ws_fin w" "ws_mask w = key" "payload_len w = 256" "payload_done w = length p" "ws_msg w = p" "msg_cap w = 256"
    "ws_in w = []" "ws_pos w = 0" "in_cap w = 4096" "ws_sock w = ?s1" "msg_opcode w = WS_OP_BINARY"
    using first_chunk [of ?w0 ?mem key "unmask key 0 p"] assms ample pl
    by (auto simp: sample_session_fields ws_consts)
  let ?w1 = "w\<lparr>ws_sock := \<lparr>inbox = [], sends = [], outbox = []\<rparr>, ws_in := unmask key (length p) q\<rparr>"
  have 2: "ws_recv_loop ?mem ?w0 = ws_recv_loop ?mem ?w1"
  proof -
    have "recv (in_cap w - length (ws_in w)) (ws_sock w) = (Got (unmask key (length p) q), \<lparr>inbox = [], sends = [], outbox = []\<rparr>)"
      using w assms(7) u [OF assms(6)] by (simp add: recv_def)
    moreover have "ws_grow ?mem w = Some w" using w by (simp add: ws_grow_def)
    ultimately show ?thesis using w(10) by (subst ws_recv_loop.simps) (simp add: w(1) del: append_Cons)
  qed
  obtain ws' where "ws_parse ?mem ?w1 = (WS_PARSE_MESSAGE, ws')" "ws_oob ws'" "ws_cur ws' = Some (HTTP_WS_BINARY, p @ q)"
    using last_chunk_overruns [of ?w1 q ?mem] w assms(6,7) by (auto simp: ws_consts)
  then have "ws_recv_loop ?mem ?w1 = (HTTP_WS_OK, ws')" by (simp add: ws_recv_loop.simps [of ?mem ?w1])
  then show ?thesis
    using 1 2 \<open>ws_oob ws'\<close> \<open>ws_cur ws' = _\<close> assms(1) by (simp add: http_ws_recv_def ws_is_dead_def sample_session_fields)
qed

theorem terminator_overrun_witness:
  "\<exists>ws'. http_ws_recv (\<lambda>_. True) (sample_session 1000 [] [RData ([CHR 0x82, CHR 0xFE, CHR 0x01, NUL] @ ''abcd'' @
       unmask ''abcd'' 0 ''x''), RData (unmask ''abcd'' 1 (replicate 255 (CHR ''y'')))]) = (HTTP_WS_OK, ws') \<and> ws_oob ws'"
  using terminator_overrun [of _ 1000 "''abcd''" "''x''" "replicate 255 (CHR ''y'')", OF refl] by auto

end
