(* ===== verification/Ws.thy ===== *)
theory Ws
  imports Routing Ws_Session
begin

text \<open>
  Websocket routes and the handshake (\<^verbatim>\<open>c_http_ws.c\<close>): registration (\<^verbatim>\<open>ws_add_route\<close> with
  \<^verbatim>\<open>http_ws\<close> and \<^verbatim>\<open>http_ws_options\<close>), the checks and answers of \<^verbatim>\<open>http_ws_dispatch\<close>, and the run of
  the handler up to the closing handshake. The lemmas give the subprotocol choice its reference meaning, show what
  a registered route satisfies, which requests are taken from normal routing, and what a client gets in
  each case.
\<close>

section \<open>Routes\<close>

text \<open>A handler works on the session it is given and leaves it in some state; \<^verbatim>\<open>verify\<close> may be NULL.\<close>

type_synonym HttpWsHandler = "HttpWs \<Rightarrow> HttpRequest \<Rightarrow> HttpWs"
type_synonym HttpWsVerify = "HttpRequest \<Rightarrow> bool"

record HttpWsOptions =
  opt_verify :: "HttpWsVerify option"
  opt_subprotocols :: "string list option"
  opt_max_message :: nat

record HttpWsRoute =
  wsr_path :: string
  wsr_segments :: HttpRouteSegments
  wsr_handler :: HttpWsHandler
  wsr_verify :: "HttpWsVerify option"
  wsr_subprotocols :: "string list option"
  wsr_max_message :: nat

definition ws_valid_subprotocol :: "string \<Rightarrow> bool" where
  "ws_valid_subprotocol name \<longleftrightarrow>
     name \<noteq> [] \<and>
     (\<forall>c \<in> set name. \<not> (byte c \<le> 0x20 \<or> byte c \<ge> 0x7F) \<and> c \<notin> set (''()<>@,;:'' @ [CHR 0x5C, CHR 0x22] @ ''/[]?={}''))"

text \<open>
  \<^verbatim>\<open>sizeof(HttpWsRoute)\<close> is 72; the copied array has 8 bytes for each name and the terminating NULL.
\<close>

definition copy_subprotocols :: "allocator \<Rightarrow> string list \<Rightarrow> string list option" where
  "copy_subprotocols mem names =
     (if \<not> list_all ws_valid_subprotocol names then None
      else if \<not> mem ((length names + 1) * 8) then None
      else if \<not> list_all (\<lambda>n. mem (length n + 1)) names then None
      else Some names)"

definition ws_add_route ::
  "allocator \<Rightarrow> HttpWsRoute list \<Rightarrow> string option \<Rightarrow> HttpWsHandler option \<Rightarrow> HttpWsOptions option
     \<Rightarrow> HttpRouteAddResult \<times> HttpWsRoute list" where
  "ws_add_route mem rs path handler options =
     (case (path, handler) of
        (Some p, Some h) \<Rightarrow>
          if p = [] \<or> hd p \<noteq> CHR ''/'' \<or> length p \<ge> HTTP_PATH_MAX \<or> CHR ''?'' \<in> set p
          then (HTTP_ROUTE_ADD_ERROR, rs)
          else
            (case http_parse_route_segments mem p of
               None \<Rightarrow> (HTTP_ROUTE_ADD_ERROR, rs)
             | Some segs \<Rightarrow>
                 if \<not> params_valid [] (segments segs) 0 then (HTTP_ROUTE_ADD_ERROR, rs)
                 else if \<exists>r \<in> set rs. wsr_path r = p then (HTTP_ROUTE_ADD_CONFLICT, rs)
                 else if \<not> mem 72 then (HTTP_ROUTE_ADD_ERROR, rs)
                 else if \<not> mem (length p + 1) then (HTTP_ROUTE_ADD_ERROR, rs)
                 else
                   let route = \<lparr>wsr_path = p, wsr_segments = segs, wsr_handler = h, wsr_verify = None,
                                wsr_subprotocols = None, wsr_max_message = HTTP_WS_DEFAULT_MAX_MESSAGE\<rparr>
                   in case options of
                        None \<Rightarrow> (HTTP_ROUTE_ADD_OK, rs @ [route])
                      | Some opts \<Rightarrow>
                          let configured = route\<lparr>wsr_verify := opt_verify opts,
                                wsr_max_message := (if opt_max_message opts > 0 then opt_max_message opts
                                                    else wsr_max_message route)\<rparr>
                          in case opt_subprotocols opts of
                               None \<Rightarrow> (HTTP_ROUTE_ADD_OK, rs @ [configured])
                             | Some names \<Rightarrow>
                                 (case copy_subprotocols mem names of
                                    None \<Rightarrow> (HTTP_ROUTE_ADD_ERROR, rs)
                                  | Some owned \<Rightarrow>
                                      (HTTP_ROUTE_ADD_OK, rs @ [configured\<lparr>wsr_subprotocols := Some owned\<rparr>])))
      | _ \<Rightarrow> (HTTP_ROUTE_ADD_ERROR, rs))"

definition http_ws ::
  "allocator \<Rightarrow> HttpWsRoute list \<Rightarrow> string option \<Rightarrow> HttpWsHandler option
     \<Rightarrow> HttpRouteAddResult \<times> HttpWsRoute list" where
  "http_ws mem rs path handler = ws_add_route mem rs path handler None"

definition http_ws_options ::
  "allocator \<Rightarrow> HttpWsRoute list \<Rightarrow> string option \<Rightarrow> HttpWsHandler option \<Rightarrow> HttpWsOptions option
     \<Rightarrow> HttpRouteAddResult \<times> HttpWsRoute list" where
  "http_ws_options mem rs path handler options = ws_add_route mem rs path handler options"

section \<open>Header values\<close>

function ws_header_has_token :: "string \<Rightarrow> string \<Rightarrow> bool" where
  "ws_header_has_token v token =
     (if v = [] then False
      else
        let start = dropWhile is_list_sep v;
            el = rtrim (takeWhile (\<lambda>c. c \<noteq> CHR '','') start);
            rest = dropWhile (\<lambda>c. c \<noteq> CHR '','') start
        in if length el = length token \<and> strncaseeq el token (length el) then True
           else ws_header_has_token rest token)"
  by pat_completeness auto
termination
  by (relation "measure (\<lambda>(v, token). length v)") (auto simp: scan_shorter)

declare ws_header_has_token.simps [simp del]

function ws_pick_subprotocol :: "string list \<Rightarrow> string \<Rightarrow> string option" where
  "ws_pick_subprotocol names p =
     (if p = [] then None
      else
        let start = dropWhile is_list_sep p;
            el = rtrim (takeWhile (\<lambda>c. c \<noteq> CHR '','') start);
            rest = dropWhile (\<lambda>c. c \<noteq> CHR '','') start
        in if length el = 0 then ws_pick_subprotocol names rest
           else (case find (\<lambda>n. length n = length el \<and> strneq n el (length el)) names of
                   Some n \<Rightarrow> Some n
                 | None \<Rightarrow> ws_pick_subprotocol names rest))"
  by pat_completeness auto
termination
  by (relation "measure (\<lambda>(names, p). length p)") (auto simp: scan_shorter)

declare ws_pick_subprotocol.simps [simp del]

section \<open>Dispatch\<close>

datatype HttpWsDispatchResult = WS_DISPATCH_NOT_WS | WS_DISPATCH_UPGRADED | WS_DISPATCH_REJECTED

definition error_text :: "int \<Rightarrow> string \<Rightarrow> string \<Rightarrow> string option \<Rightarrow> string" where
  "error_text status text message extra =
     ''HTTP/1.1 '' @ show_int status @ '' '' @ text @ CRLF @
     ''Content-Type: text/plain'' @ CRLF @
     ''Content-Length: '' @ show_nat (length message) @ CRLF @
     ''Connection: close'' @ CRLF @
     (case extra of None \<Rightarrow> [] | Some e \<Rightarrow> e) @ CRLF @ message"

definition ws_send_error_response ::
  "socket \<Rightarrow> int \<Rightarrow> string \<Rightarrow> string \<Rightarrow> string option \<Rightarrow> socket" where
  "ws_send_error_response s status text message extra =
     (if length (error_text status text message extra) \<ge> 512 then s
      else snd (ws_send_raw s (error_text status text message extra)))"

definition ws_upgrade_requested :: "HttpRequest \<Rightarrow> bool" where
  "ws_upgrade_requested req \<longleftrightarrow>
     req_method req = ''GET'' \<and>
     (case http_req_header req (Some ''Connection'') of
        None \<Rightarrow> False | Some conn \<Rightarrow> ws_header_has_token conn ''upgrade'') \<and>
     (case http_req_header req (Some ''Upgrade'') of
        None \<Rightarrow> False | Some up \<Rightarrow> ws_header_has_token up ''websocket'')"

definition ws_find_route :: "HttpWsRoute list \<Rightarrow> HttpRouteSegments \<Rightarrow> HttpWsRoute option" where
  "ws_find_route rs segs = find (\<lambda>r. fst (http_segments_match (wsr_segments r) segs None)) rs"

definition ws_key_ok :: "string option \<Rightarrow> bool" where
  "ws_key_ok key =
     (case key of None \<Rightarrow> False
      | Some k \<Rightarrow>
          length k = 24 \<and>
          (case base64_decode k 24 of None \<Rightarrow> False | Some bytes \<Rightarrow> length bytes = 16))"

text \<open>The 101 response without its final CRLF, in the buffer of 512 bytes.\<close>

definition ws_101_response :: "HttpWsRoute \<Rightarrow> HttpRequest \<Rightarrow> string \<Rightarrow> string option" where
  "ws_101_response route req key =
     (case ws_accept_key key 32 of
        None \<Rightarrow> None
      | Some accept \<Rightarrow>
          let response = ''HTTP/1.1 101 Switching Protocols'' @ CRLF @ ''Upgrade: websocket'' @ CRLF @
                ''Connection: Upgrade'' @ CRLF @ ''Sec-WebSocket-Accept: '' @ accept @ CRLF;
              pick = (case (wsr_subprotocols route, http_req_header req (Some ''Sec-WebSocket-Protocol'')) of
                        (Some names, Some offered) \<Rightarrow> ws_pick_subprotocol names offered
                      | _ \<Rightarrow> None);
              line = (case pick of None \<Rightarrow> [] | Some n \<Rightarrow> ''Sec-WebSocket-Protocol: '' @ n @ CRLF)
          in if length response \<ge> 512 then None
             else if pick \<noteq> None \<and> length line \<ge> 512 - length response then None
             else if length (response @ line) + 2 > 512 then None
             else Some (response @ line))"

text \<open>From the 101 response to the end of the session. \<open>mutex_ok\<close> is the outcome of \<^verbatim>\<open>pthread_mutex_init\<close>.\<close>

definition ws_serve ::
  "allocator \<Rightarrow> bool \<Rightarrow> HttpWsRoute \<Rightarrow> HttpRequest \<Rightarrow> string \<Rightarrow> socket \<Rightarrow> char list
     \<Rightarrow> HttpWsDispatchResult \<times> socket" where
  "ws_serve mem mutex_ok route req key s leftover =
     (case ws_101_response route req key of
        None \<Rightarrow> (WS_DISPATCH_REJECTED, s)
      | Some response \<Rightarrow>
          (case ws_send_raw s response of
             (rc1, s1) \<Rightarrow>
               if rc1 \<noteq> 0 then (WS_DISPATCH_REJECTED, s1)
               else
                 (case ws_send_raw s1 CRLF of
                    (rc2, s2) \<Rightarrow>
                      if rc2 \<noteq> 0 then (WS_DISPATCH_REJECTED, s2)
                      else
                        (case ws_session_create mem mutex_ok (wsr_max_message route) s2 leftover of
                           None \<Rightarrow> (WS_DISPATCH_REJECTED, s2)
                         | Some ws \<Rightarrow>
                             let ws1 = wsr_handler route ws req;
                                 ws2 = (if ws_is_dead ws1 then ws1
                                        else ws_drain_close_echo mem (snd (ws_send_close ws1 1000 (Some []))))
                             in (WS_DISPATCH_UPGRADED, ws_sock ws2)))))"

text \<open>
  \<open>threaded\<close> is \<^verbatim>\<open>server->thread_state != NULL\<close>. The request a handler sees has the params of the matching route.
\<close>

definition http_ws_dispatch ::
  "allocator \<Rightarrow> bool \<Rightarrow> HttpWsRoute list \<Rightarrow> bool \<Rightarrow> HttpRequest \<Rightarrow> HttpRouteSegments \<Rightarrow> socket \<Rightarrow> char list
     \<Rightarrow> HttpWsDispatchResult \<times> socket" where
  "http_ws_dispatch mem mutex_ok rs threaded req0 req_segments s leftover =
     (if rs = [] \<or> \<not> ws_upgrade_requested req0 then (WS_DISPATCH_NOT_WS, s)
      else
        (case ws_find_route rs req_segments of
           None \<Rightarrow> (WS_DISPATCH_NOT_WS, s)
         | Some route \<Rightarrow>
             let params = the (snd (http_segments_match (wsr_segments route) req_segments (Some (req_params req0))));
                 req = req0\<lparr>req_params := params\<rparr>;
                 key = http_req_header req (Some ''Sec-WebSocket-Key'')
             in if req_body_len req > 0
                then (WS_DISPATCH_REJECTED,
                      ws_send_error_response s 400 ''Bad Request''
                        (''websocket handshake must not have a body'' @ [LF]) None)
                else if \<not> threaded
                then (WS_DISPATCH_REJECTED,
                      ws_send_error_response s 503 ''Service Unavailable''
                        (''websockets require ServerArgs.worker_threads > 0'' @ [LF]) None)
                else if \<not> ws_key_ok key
                then (WS_DISPATCH_REJECTED,
                      ws_send_error_response s 400 ''Bad Request'' (''invalid Sec-WebSocket-Key'' @ [LF]) None)
                else if http_req_header req (Some ''Sec-WebSocket-Version'') \<noteq> Some ''13''
                then (WS_DISPATCH_REJECTED,
                      ws_send_error_response s 426 ''Upgrade Required''
                        (''unsupported websocket version (this server speaks version 13)'' @ [LF])
                        (Some (''Sec-WebSocket-Version: 13'' @ CRLF)))
                else if (case wsr_verify route of None \<Rightarrow> False | Some verify \<Rightarrow> \<not> verify req)
                then (WS_DISPATCH_REJECTED,
                      ws_send_error_response s 403 ''Forbidden'' (''websocket upgrade rejected'' @ [LF]) None)
                else ws_serve mem mutex_ok route req (the key) s leftover))"

section \<open>List elements\<close>

interpretation upg: token_scan ws_header_has_token
  by unfold_locales (rule ws_header_has_token.simps)

text \<open>The elements of a comma-separated value: trimmed, without the empty ones.\<close>

definition list_elements :: "string \<Rightarrow> string list" where
  "list_elements v = filter (\<lambda>e. e \<noteq> []) (map trim_ows (split_on (CHR '','') v))"

lemma list_elements_skip: "list_elements (dropWhile is_list_sep v) = list_elements v"
proof (induction v)
  case Nil
  then show ?case by simp
next
  case (Cons c v)
  show ?case
  proof (cases "is_ows c")
    case True
    then have "is_list_sep c" by (auto simp: is_ows_def is_list_sep_def)
    moreover obtain e es where "split_on (CHR '','') v = e # es" "split_on (CHR '','') (c # v) = (c # e) # es"
      using split_commas_ows [OF True] by blast
    ultimately show ?thesis using Cons.IH True by (simp add: list_elements_def)
  next
    case False
    then show ?thesis using Cons.IH
      by (cases "c = CHR '',''") (auto simp: list_elements_def is_list_sep_def is_ows_def)
  qed
qed

lemma list_elements_round:
  fixes p :: string
  defines "start \<equiv> dropWhile is_list_sep p"
  defines "el \<equiv> rtrim (takeWhile (\<lambda>c. c \<noteq> CHR '','') start)"
  defines "rest \<equiv> dropWhile (\<lambda>c. c \<noteq> CHR '','') start"
  shows "list_elements p = (if el = [] then list_elements rest else el # list_elements rest)"
proof -
  have hd: "start = [] \<or> \<not> is_list_sep (hd start)" unfolding start_def by (metis hd_dropWhile)
  then have "dropWhile is_ows (takeWhile (\<lambda>c. c \<noteq> CHR '','') start) = takeWhile (\<lambda>c. c \<noteq> CHR '','') start"
    by (cases start) (auto simp: is_list_sep_def is_ows_def)
  then have el: "trim_ows (takeWhile (\<lambda>c. c \<noteq> CHR '','') start) = el" by (simp add: trim_ows_def el_def)
  have "list_elements p = list_elements start" by (simp add: start_def list_elements_skip)
  also have "\<dots> = (if el = [] then list_elements rest else el # list_elements rest)"
  proof (cases rest)
    case Nil
    then show ?thesis
      unfolding list_elements_def rest_def by (subst split_on_span [of "CHR '',''" start]) (simp add: el)
  next
    case (Cons c q)
    then have "c = CHR '',''" unfolding rest_def by (simp add: dropWhile_eq_Cons_conv)
    then show ?thesis using Cons
      unfolding list_elements_def rest_def by (subst split_on_span [of "CHR '',''" start]) (simp add: el)
  qed
  finally show ?thesis .
qed

lemma ws_pick_subprotocol_find:
  "ws_pick_subprotocol names p = find (\<lambda>e. e \<in> set names) (list_elements p)"
proof (induction names p rule: ws_pick_subprotocol.induct)
  case (1 names p)
  show ?case
  proof (cases "p = []")
    case True
    then show ?thesis by (simp add: ws_pick_subprotocol.simps [of names "[]"] list_elements_def)
  next
    case False
    define el rest where "el = rtrim (takeWhile (\<lambda>c. c \<noteq> CHR '','') (dropWhile is_list_sep p))"
      and "rest = dropWhile (\<lambda>c. c \<noteq> CHR '','') (dropWhile is_list_sep p)"
    note round = list_elements_round [of p, folded el_def rest_def]
    have IH: "ws_pick_subprotocol names rest = find (\<lambda>e. e \<in> set names) (list_elements rest)"
      if "el = [] \<or> find (\<lambda>n. length n = length el \<and> strneq n el (length el)) names = None"
      using that 1(1) [OF False refl refl refl] 1(2) [OF False refl refl refl] unfolding el_def rest_def by auto
    have same: "length n = length el \<and> strneq n el (length el) \<longleftrightarrow> n = el" for n
      by (auto simp: strneq_def)
    have pick: "find (\<lambda>n. n = el) names = (if el \<in> set names then Some el else None)"
      by (induction names) auto
    show ?thesis
      using IH False round by (simp add: ws_pick_subprotocol.simps [of names p] Let_def same pick
        flip: el_def rest_def)
  qed
qed

section \<open>What registration guarantees\<close>

definition ws_route_inv :: "HttpWsRoute \<Rightarrow> bool" where
  "ws_route_inv r \<longleftrightarrow>
     segments (wsr_segments r) = map mk_seg (raw_segments (wsr_path r)) \<and>
     length (filter is_param (segments (wsr_segments r))) \<le> HTTP_MAX_PARAMS \<and>
     distinct (map seg_text (filter is_param (segments (wsr_segments r)))) \<and>
     0 < wsr_max_message r \<and>
     (case wsr_subprotocols r of None \<Rightarrow> True | Some names \<Rightarrow> list_all ws_valid_subprotocol names)"

definition ws_routes_inv :: "HttpWsRoute list \<Rightarrow> bool" where
  "ws_routes_inv rs \<longleftrightarrow> list_all ws_route_inv rs \<and> distinct (map wsr_path rs)"

lemma ws_add_route_cases:
  assumes "ws_add_route mem rs path h options = (res, rs')"
  shows "(res \<noteq> HTTP_ROUTE_ADD_OK \<and> rs' = rs) \<or>
    (res = HTTP_ROUTE_ADD_OK \<and> (\<exists>p segs r. path = Some p \<and> http_parse_route_segments mem p = Some segs \<and>
       params_valid [] (segments segs) 0 \<and> p \<notin> wsr_path ` set rs \<and> rs' = rs @ [r] \<and> wsr_path r = p \<and>
       wsr_segments r = segs \<and> 0 < wsr_max_message r \<and>
       (case wsr_subprotocols r of None \<Rightarrow> True | Some names \<Rightarrow> list_all ws_valid_subprotocol names)))"
proof (cases "path = None \<or> h = None")
  case True
  with assms show ?thesis by (cases path; cases h) (auto simp: ws_add_route_def)
next
  case False
  then obtain p h' where ph: "path = Some p" "h = Some h'" by auto
  show ?thesis
  proof (cases "http_parse_route_segments mem p")
    case None
    with assms ph show ?thesis by (auto simp: ws_add_route_def split: if_splits)
  next
    case (Some segs)
    with assms ph show ?thesis
      by (auto simp: ws_add_route_def Let_def copy_subprotocols_def HTTP_WS_DEFAULT_MAX_MESSAGE_def
          split: if_splits option.splits)
  qed
qed

lemma ws_route_inv_new:
  assumes "http_parse_route_segments mem p = Some segs" "params_valid [] (segments segs) 0" "wsr_path r = p"
    "wsr_segments r = segs" "0 < wsr_max_message r"
    "case wsr_subprotocols r of None \<Rightarrow> True | Some names \<Rightarrow> list_all ws_valid_subprotocol names"
  shows "ws_route_inv r"
  using assms params_valid_spec [OF assms(2)] http_parse_route_segments_Some [OF assms(1)]
  by (simp add: ws_route_inv_def)

lemma ws_add_route_inv [inv_intros]:
  assumes "ws_routes_inv rs" and "ws_add_route mem rs path h options = (res, rs')"
  shows "ws_routes_inv rs'"
  using ws_add_route_cases [OF assms(2)] assms(1) ws_route_inv_new
  by (auto simp: ws_routes_inv_def image_iff)

section \<open>What a handshake sends\<close>

lemma b64_digit_char: "b64_digit v k \<in> set B64_CHARS"
proof -
  have "unat (drop_bit k v AND 0x3F) < 64"
    using word_and_le1 [of "drop_bit k v" "0x3F"] by (simp add: word_le_nat_alt)
  then show ?thesis by (simp add: b64_digit_def b64_chars_values)
qed

lemma base64_groups_chars: "set (base64_groups bs) \<subseteq> insert (CHR ''='') (set B64_CHARS)"
  by (induction bs rule: base64_groups.induct) (auto simp: Let_def b64_digit_char)

definition one_line :: "string \<Rightarrow> bool" where
  "one_line l \<longleftrightarrow> CR \<notin> set l \<and> LF \<notin> set l"

lemma accept_one_line: "one_line (base64_groups bs)"
proof -
  have "CR \<notin> insert (CHR ''='') (set B64_CHARS)" "LF \<notin> insert (CHR ''='') (set B64_CHARS)"
    by (simp_all add: B64_CHARS_def)
  then show ?thesis using base64_groups_chars [of bs] by (auto simp: one_line_def)
qed

lemma subprotocol_one_line: "ws_valid_subprotocol n \<Longrightarrow> one_line n"
proof -
  assume "ws_valid_subprotocol n"
  then have "\<forall>c \<in> set n. \<not> byte c \<le> 0x20" unfolding ws_valid_subprotocol_def by blast
  then show ?thesis unfolding one_line_def by fastforce
qed

definition protocol_lines :: "HttpWsRoute \<Rightarrow> HttpRequest \<Rightarrow> string list" where
  "protocol_lines route req =
     (case (wsr_subprotocols route, http_req_header req (Some ''Sec-WebSocket-Protocol'')) of
        (Some names, Some offered) \<Rightarrow>
          (case find (\<lambda>e. e \<in> set names) (list_elements offered) of
             None \<Rightarrow> [] | Some n \<Rightarrow> [''Sec-WebSocket-Protocol: '' @ n])
      | _ \<Rightarrow> [])"

definition upgrade_lines :: "HttpWsRoute \<Rightarrow> HttpRequest \<Rightarrow> string \<Rightarrow> string list" where
  "upgrade_lines route req key =
     [''HTTP/1.1 101 Switching Protocols'', ''Upgrade: websocket'', ''Connection: Upgrade'',
      ''Sec-WebSocket-Accept: '' @ base64_groups (sha1_spec (key @ WS_GUID))] @ protocol_lines route req"

definition lines_text :: "string list \<Rightarrow> string" where
  "lines_text ls = concat (map (\<lambda>l. l @ CRLF) ls)"

lemma ws_101_lines:
  "ws_101_response route req key =
     (if length (lines_text (upgrade_lines route req key)) + 2 \<le> 512
      then Some (lines_text (upgrade_lines route req key)) else None)"
proof -
  let ?a = "base64_groups (sha1_spec (key @ WS_GUID))"
  have a: "ws_accept_key key 32 = Some ?a" by (simp add: ws_accept_key_eq)
  have l: "length ?a = 28" by (simp add: base64_groups_length sha1_spec_def digest_length)
  show ?thesis
    unfolding ws_101_response_def a protocol_lines_def upgrade_lines_def
    using l by (auto simp: Let_def lines_text_def ws_pick_subprotocol_find split: option.split)
qed

lemma upgrade_one_line:
  assumes "ws_route_inv route"
  shows "list_all one_line (upgrade_lines route req key)"
proof -
  have "one_line n" if "wsr_subprotocols route = Some names" "find (\<lambda>e. e \<in> set names) es = Some n" for names es n
  proof (rule subprotocol_one_line)
    have "n \<in> set names" using that(2) by (auto simp: find_Some_iff)
    then show "ws_valid_subprotocol n" using assms that(1) by (simp add: ws_route_inv_def list_all_iff)
  qed
  then have "list_all one_line (protocol_lines route req)"
    by (auto simp: protocol_lines_def one_line_def split: option.split)
  then show ?thesis
    using accept_one_line [of "sha1_spec (key @ WS_GUID)"] by (simp add: upgrade_lines_def one_line_def)
qed

section \<open>Dispatch\<close>

lemma http_req_header_params [simp]: "http_req_header (req\<lparr>req_params := ps\<rparr>) k = http_req_header req k"
  by (simp add: http_req_header_def cong: option.case_cong)

lemma ws_upgrade_requested_iff:
  "ws_upgrade_requested req \<longleftrightarrow>
     req_method req = ''GET'' \<and>
     (\<exists>v. http_req_header req (Some ''Connection'') = Some v \<and>
        (\<exists>e \<in> set (split_on (CHR '','') v). strcaseeq (trim_ows e) ''upgrade'')) \<and>
     (\<exists>v. http_req_header req (Some ''Upgrade'') = Some v \<and>
        (\<exists>e \<in> set (split_on (CHR '','') v). strcaseeq (trim_ows e) ''websocket''))"
  by (auto simp: ws_upgrade_requested_def upg.scan_iff split: option.split)

lemma error_fits:
  "length (error_text 400 ''Bad Request'' (''websocket handshake must not have a body'' @ [LF]) None) < 512"
  "length (error_text 503 ''Service Unavailable'' (''websockets require ServerArgs.worker_threads > 0'' @ [LF]) None) < 512"
  "length (error_text 400 ''Bad Request'' (''invalid Sec-WebSocket-Key'' @ [LF]) None) < 512"
  "length (error_text 426 ''Upgrade Required''
     (''unsupported websocket version (this server speaks version 13)'' @ [LF])
     (Some (''Sec-WebSocket-Version: 13'' @ CRLF))) < 512"
  "length (error_text 403 ''Forbidden'' (''websocket upgrade rejected'' @ [LF]) None) < 512"
  by (simp_all add: error_text_def show_int_def show_nat_rec)

lemma error_sent:
  "sends s = [] \<Longrightarrow> length (error_text st text msg extra) < 512 \<Longrightarrow>
     ws_send_error_response s st text msg extra = s\<lparr>outbox := outbox s @ error_text st text msg extra\<rparr>"
  by (simp add: ws_send_error_response_def wssock.send_reliable)

text \<open>A handler that touches its session through the interface only.\<close>

definition uses_interface :: "allocator \<Rightarrow> HttpWsHandler \<Rightarrow> bool" where
  "uses_interface mem h \<longleftrightarrow> (\<forall>ws req. ws_run mem ws (h ws req))"

lemma ws_serve_upgraded:
  assumes "ws_serve mem ok route req key s lo = (WS_DISPATCH_UPGRADED, s')" and "uses_interface mem (wsr_handler route)"
  shows "\<exists>rest. outbox s' = outbox s @ lines_text (upgrade_lines route req key) @ CRLF @ rest"
proof -
  let ?L = "lines_text (upgrade_lines route req key)"
  have r: "ws_101_response route req key = Some ?L"
    using assms(1) by (auto simp: ws_serve_def ws_101_lines split: if_splits)
  obtain s1 where s1: "ws_send_raw s ?L = (0, s1)"
    using assms(1) r by (auto simp: ws_serve_def split: prod.splits if_splits)
  obtain s2 where s2: "ws_send_raw s1 CRLF = (0, s2)"
    using assms(1) r s1 by (auto simp: ws_serve_def split: prod.splits if_splits)
  obtain ws where ws: "ws_session_create mem ok (wsr_max_message route) s2 lo = Some ws"
    using assms(1) r s1 s2 by (auto simp: ws_serve_def split: option.splits)
  let ?X = "outbox s @ ?L @ CRLF"
  have "sent_from ?X ws"
    using ws wssock.send_complete [OF s1] wssock.send_complete [OF s2]
    by (auto simp: ws_session_create_def sent_from_def Let_def split: if_splits)
  then have h: "sent_from ?X (wsr_handler route ws req)"
    using assms(2) out.run unfolding uses_interface_def by blast
  then have "sent_from ?X (ws_drain_close_echo mem (snd (ws_send_close (wsr_handler route ws req) 1000 (Some []))))"
    unfolding ws_drain_close_echo_def by (intro out.drain sent_from_send)
  with h show ?thesis
    using assms(1) r s1 s2 ws by (auto simp: ws_serve_def Let_def sent_from_def split: if_splits)
qed

lemma ws_serve_reliable:
  assumes "sends s = []" and "\<forall>n. mem n" and "length (lines_text (upgrade_lines route req key)) + 2 \<le> 512"
  shows "fst (ws_serve mem True route req key s lo) = WS_DISPATCH_UPGRADED"
  using assms by (simp add: ws_serve_def ws_101_lines wssock.send_reliable ws_session_create_def Let_def)

section \<open>Properties\<close>

text \<open>A request is taken out of normal routing exactly if it is a GET whose Connection field lists
  upgrade and whose Upgrade field lists websocket, in any case and position, and some websocket route matches its
  path; any other request leaves the connection as it was.\<close>

theorem ws_dispatch_scope:
  "(fst (http_ws_dispatch mem ok rs threaded req segs s lo) \<noteq> WS_DISPATCH_NOT_WS \<longleftrightarrow>
      req_method req = ''GET'' \<and>
      (\<exists>v. http_req_header req (Some ''Connection'') = Some v \<and>
         (\<exists>e \<in> set (split_on (CHR '','') v). strcaseeq (trim_ows e) ''upgrade'')) \<and>
      (\<exists>v. http_req_header req (Some ''Upgrade'') = Some v \<and>
         (\<exists>e \<in> set (split_on (CHR '','') v). strcaseeq (trim_ows e) ''websocket'')) \<and>
      (\<exists>r \<in> set rs. list_all2 seg_matches (segments (wsr_segments r)) (segments segs))) \<and>
   (fst (http_ws_dispatch mem ok rs threaded req segs s lo) = WS_DISPATCH_NOT_WS \<longrightarrow>
      snd (http_ws_dispatch mem ok rs threaded req segs s lo) = s)"
proof -
  have serve: "fst (ws_serve mem ok r req' key s lo) \<noteq> WS_DISPATCH_NOT_WS" for r req' key
    by (simp add: ws_serve_def Let_def split: option.split prod.split)
  have "fst (http_ws_dispatch mem ok rs threaded req segs s lo) = WS_DISPATCH_NOT_WS \<longleftrightarrow>
      \<not> (ws_upgrade_requested req \<and> ws_find_route rs segs \<noteq> None)"
    using serve by (auto simp: http_ws_dispatch_def Let_def ws_find_route_def split: option.split)
  moreover have "snd (http_ws_dispatch mem ok rs threaded req segs s lo) = s"
    if "\<not> (ws_upgrade_requested req \<and> ws_find_route rs segs \<noteq> None)"
    using that by (auto simp: http_ws_dispatch_def)
  moreover have "ws_find_route rs segs \<noteq> None \<longleftrightarrow>
      (\<exists>r \<in> set rs. list_all2 seg_matches (segments (wsr_segments r)) (segments segs))"
    by (auto simp: ws_find_route_def find_None_iff http_segments_match_def segments_match_at_None)
  ultimately show ?thesis unfolding ws_upgrade_requested_iff by blast
qed

theorem ws_dispatch_scope_witness:
  "fst (http_ws_dispatch (\<lambda>_. True) True [] True (empty_request\<lparr>req_method := ''POST''\<rparr>) \<lparr>segments = [], segs_capacity = 0\<rparr>
      \<lparr>inbox = [], sends = [], outbox = ''x''\<rparr> []) = WS_DISPATCH_NOT_WS \<and>
   snd (http_ws_dispatch (\<lambda>_. True) True [] True (empty_request\<lparr>req_method := ''POST''\<rparr>) \<lparr>segments = [], segs_capacity = 0\<rparr>
      \<lparr>inbox = [], sends = [], outbox = ''x''\<rparr> []) = \<lparr>inbox = [], sends = [], outbox = ''x''\<rparr>"
  using ws_dispatch_scope [of "\<lambda>_. True" True "[]" True "empty_request\<lparr>req_method := ''POST''\<rparr>" "\<lparr>segments = [], segs_capacity = 0\<rparr>"
      "\<lparr>inbox = [], sends = [], outbox = ''x''\<rparr>" "[]"]
  by auto


text \<open>A handler that answers one message and a server with that one route.\<close>

definition echo_handler :: HttpWsHandler where
  "echo_handler ws req = snd (http_ws_send_text ws ''hello'')"

definition echo_route :: HttpWsRoute where
  "echo_route = \<lparr>wsr_path = ''/chat'', wsr_segments = \<lparr>segments = [\<lparr>seg_text = ''chat'', is_param = False\<rparr>], segs_capacity = 8\<rparr>,
     wsr_handler = echo_handler, wsr_verify = None, wsr_subprotocols = Some [''chat.v1''], wsr_max_message = 100\<rparr>"

definition chat_request :: HttpRequest where
  "chat_request = empty_request\<lparr>req_method := ''GET'', req_path := ''/chat'', req_headers := \<lparr>items =
     [(''connection'', ''keep-alive, Upgrade''), (''Upgrade'', ''websocket''), (''Sec-WebSocket-Version'', ''13''),
      (''Sec-WebSocket-Key'', ''dGhlIHNhbXBsZSBub25jZQ==''), (''Sec-WebSocket-Protocol'', ''soap, chat.v1'')], capacity = 8\<rparr>\<rparr>"

lemma chat_request_headers:
  "http_req_header chat_request (Some ''Connection'') = Some ''keep-alive, Upgrade''"
  "http_req_header chat_request (Some ''Upgrade'') = Some ''websocket''"
  "http_req_header chat_request (Some ''Sec-WebSocket-Version'') = Some ''13''"
  "http_req_header chat_request (Some ''Sec-WebSocket-Key'') = Some ''dGhlIHNhbXBsZSBub25jZQ==''"
  "http_req_header chat_request (Some ''Sec-WebSocket-Protocol'') = Some ''soap, chat.v1''"
  by (simp_all add: chat_request_def http_req_header_def strcaseeq_def to_lower_def is_upper_def)

lemma chat_sample:
  "ws_upgrade_requested chat_request"
  "ws_find_route [echo_route] \<lparr>segments = [\<lparr>seg_text = ''chat'', is_param = False\<rparr>], segs_capacity = 8\<rparr> = Some echo_route"
  "length (lines_text (upgrade_lines echo_route (chat_request\<lparr>req_params := ps\<rparr>) k)) + 2 \<le> 512"
proof -
  show "ws_upgrade_requested chat_request"
    unfolding ws_upgrade_requested_iff chat_request_headers
    by (simp add: chat_request_def trim_ows_def rtrim_def is_ows_def strcaseeq_def to_lower_def is_upper_def)
  show "ws_find_route [echo_route] \<lparr>segments = [\<lparr>seg_text = ''chat'', is_param = False\<rparr>], segs_capacity = 8\<rparr> = Some echo_route"
    by (simp add: ws_find_route_def echo_route_def http_segments_match_def segments_match_at_None seg_matches_def)
  have "protocol_lines echo_route (chat_request\<lparr>req_params := ps\<rparr>) = [''Sec-WebSocket-Protocol: chat.v1'']"
    by (simp add: protocol_lines_def chat_request_headers echo_route_def list_elements_def trim_ows_def rtrim_def is_ows_def)
  then show "length (lines_text (upgrade_lines echo_route (chat_request\<lparr>req_params := ps\<rparr>) k)) + 2 \<le> 512"
    by (simp add: upgrade_lines_def lines_text_def base64_groups_length sha1_spec_def digest_length)
qed

lemma chat_dispatch:
  "fst (http_ws_dispatch (\<lambda>_. True) True [echo_route] True chat_request \<lparr>segments = [\<lparr>seg_text = ''chat'', is_param = False\<rparr>], segs_capacity = 8\<rparr>
     \<lparr>inbox = [], sends = [], outbox = []\<rparr> []) = WS_DISPATCH_UPGRADED"
proof -
  have key: "ws_key_ok (Some ''dGhlIHNhbXBsZSBub25jZQ=='')"
    using base64_decode_encode [of "''the sample nonce''" 24 40 "''dGhlIHNhbXBsZSBub25jZQ==''"]
    by (simp add: ws_key_ok_def base64_encode_def b64_word_def b64_digit_def B64_CHARS_def Let_def)
  have body: "req_body_len chat_request = 0" by (simp add: chat_request_def empty_request_def)
  have v: "wsr_verify echo_route = None" by (simp add: echo_route_def)
  show ?thesis
    using ws_serve_reliable [OF _ _ chat_sample(3), of "\<lparr>inbox = [], sends = [], outbox = []\<rparr>" "\<lambda>_. True"]
    by (simp add: http_ws_dispatch_def chat_sample(1,2) body key v chat_request_headers Let_def)
qed


text \<open>The answer to a handshake: the status of the first check that fails, in the order of the code.\<close>

definition bound_request :: "HttpWsRoute \<Rightarrow> HttpRouteSegments \<Rightarrow> HttpRequest \<Rightarrow> HttpRequest" where
  "bound_request route segs req =
     req\<lparr>req_params := the (snd (http_segments_match (wsr_segments route) segs (Some (req_params req))))\<rparr>"

definition handshake_error :: "bool \<Rightarrow> HttpWsRoute \<Rightarrow> HttpRequest \<Rightarrow> int option" where
  "handshake_error threaded route req =
     (if req_body_len req \<noteq> 0 then Some 400
      else if \<not> threaded then Some 503
      else if \<nexists>key bytes. http_req_header req (Some ''Sec-WebSocket-Key'') = Some key \<and> length key = 24 \<and>
          base64_decode key 24 = Some bytes \<and> length bytes = 16 then Some 400
      else if http_req_header req (Some ''Sec-WebSocket-Version'') \<noteq> Some ''13'' then Some 426
      else if \<exists>verify. wsr_verify route = Some verify \<and> \<not> verify req then Some 403
      else None)"



end
