(* ===== verification/Server.thy ===== *)
theory Server
  imports Response Request Multipart Negotiation Static Ws
begin

text \<open>
  The request loop of \<^verbatim>\<open>c_http.c\<close>: choosing and running a handler (\<^verbatim>\<open>execute_handler\<close>), one connection from the first byte to the
  close (\<^verbatim>\<open>handle_client\<close>), and the life of a server (\<^verbatim>\<open>http_create_server\<close>, \<^verbatim>\<open>http_stop_server\<close>,
  \<^verbatim>\<open>http_close_server\<close>). Here the components meet: what was read is parsed, passes the middleware, the websocket
  dispatch, the routes, the mounted routers and the static mounts, and what they made of the response is encoded and
  sent. The lemmas show which handler runs, that every request is answered, that a malformed request reaches no
  application code, and when a connection stays open.
\<close>

section \<open>The server\<close>

text \<open>
  \<open>srv_heap\<close> holds the routers that the mounts refer to; \<open>srv_threads\<close> is the limit of the worker state, or \<^const>\<open>None\<close> for
  the iterative server. \<open>srv_fd\<close> is -1 for no socket.
\<close>

record HttpServer =
  srv_port :: nat
  srv_bind_addr :: string
  srv_fd :: int
  srv_listening :: bool
  srv_keep_alive :: bool
  srv_routes :: HttpRoutes
  srv_middlewares :: HttpMiddlewares
  srv_encoders :: HttpEncoders
  srv_name :: "string option"
  srv_static :: "HttpStaticConfig list"
  srv_error_handler :: "HttpErrorHandler option"
  srv_mounts :: "HttpRouterMount list"
  srv_heap :: router_heap
  srv_threads :: "nat option"
  srv_ws :: "HttpWsRoute list"

text \<open>
  What the system contributes to one round of the loop: the allocator, \<^verbatim>\<open>pthread_mutex_init\<close>, the files as \<^verbatim>\<open>send_res\<close> opens
  them and as the static handler sees them, the clock, and the former contents of the multipart buffers.
\<close>

record request_env =
  env_mem :: allocator
  env_mutex :: bool
  env_files :: file_system
  env_view :: fs_view
  env_now :: tm
  env_junk :: "nat \<Rightarrow> char list \<times> char list"

definition http_set_error_handler :: "HttpServer \<Rightarrow> HttpErrorHandler option \<Rightarrow> HttpServer" where
  "http_set_error_handler srv h = srv\<lparr>srv_error_handler := h\<rparr>"

section \<open>Choosing a handler\<close>

datatype HandlerResult = HANDLER_OK | HANDLER_NOT_FOUND | HANDLER_METHOD_NOT_ALLOWED | HANDLER_NOT_IMPLEMENTED

text \<open>
  The route loop: whether any route was seen to match the path before the loop ended, and the first that also has
  the method. The HEAD fallback is a second loop over the same routes.
\<close>

fun find_route :: "HttpRouteSegments \<Rightarrow> nat \<Rightarrow> HttpMethod \<Rightarrow> HttpRoute list \<Rightarrow> bool \<Rightarrow> bool \<times> HttpRoute option" where
  "find_route segs offset method [] path_exists = (path_exists, None)"
| "find_route segs offset method (r # rs) path_exists =
     (if \<not> fst (segments_match_at (route_segments r) segs offset None)
      then find_route segs offset method rs path_exists
      else if route_method r = method then (True, Some r)
      else find_route segs offset method rs True)"

definition find_get :: "HttpRouteSegments \<Rightarrow> nat \<Rightarrow> HttpRoute list \<Rightarrow> HttpRoute option" where
  "find_get segs offset rs =
     find (\<lambda>r. route_method r = HTTP_METHOD_GET \<and> fst (segments_match_at (route_segments r) segs offset None)) rs"

definition search_routes ::
  "HttpRouteSegments \<Rightarrow> nat \<Rightarrow> HttpMethod \<Rightarrow> HttpRoute list \<Rightarrow> bool \<Rightarrow> bool \<times> HttpRoute option" where
  "search_routes segs offset method rs path_exists =
     (case find_route segs offset method rs path_exists of
        (ex, Some r) \<Rightarrow> (ex, Some r)
      | (ex, None) \<Rightarrow> (ex, if method = HTTP_METHOD_HEAD then find_get segs offset rs else None))"

text \<open>The mounts in order, until one has a handler; a mount whose router is gone is never reached in the code.\<close>

fun search_mounts ::
  "router_heap \<Rightarrow> HttpRouteSegments \<Rightarrow> HttpMethod \<Rightarrow> HttpRouterMount list \<Rightarrow> bool
     \<Rightarrow> bool \<times> (nat \<times> HttpRoute) option" where
  "search_mounts heap segs method [] path_exists = (path_exists, None)"
| "search_mounts heap segs method (m # ms) path_exists =
     (if \<not> prefix_segments_match (prefix_segments m) segs then search_mounts heap segs method ms path_exists
      else
        (case heap (mount_router m) of
           None \<Rightarrow> search_mounts heap segs method ms path_exists
         | Some rt \<Rightarrow>
             (case search_routes segs (length (segments (prefix_segments m))) method (routes (router_routes rt)) path_exists of
                (ex, Some r) \<Rightarrow> (ex, Some (length (segments (prefix_segments m)), r))
              | (ex, None) \<Rightarrow> search_mounts heap segs method ms ex)))"

definition search_server ::
  "HttpServer \<Rightarrow> HttpRouteSegments \<Rightarrow> HttpMethod \<Rightarrow> bool \<times> (nat \<times> HttpRoute) option" where
  "search_server srv segs method =
     (case search_routes segs 0 method (routes (srv_routes srv)) False of
        (ex, Some r) \<Rightarrow> (ex, Some (0, r))
      | (ex, None) \<Rightarrow> search_mounts (srv_heap srv) segs method (srv_mounts srv) ex)"

definition bind_params :: "HttpRouteSegments \<Rightarrow> nat \<Rightarrow> HttpRoute \<Rightarrow> HttpRequest \<Rightarrow> HttpRequest" where
  "bind_params segs offset r req =
     req\<lparr>req_params := the (snd (segments_match_at (route_segments r) segs offset (Some (req_params req))))\<rparr>"

definition execute_handler ::
  "allocator \<Rightarrow> fs_view \<Rightarrow> HttpServer \<Rightarrow> HttpRequest \<Rightarrow> HttpResponse \<Rightarrow> HttpRouteSegments
     \<Rightarrow> HandlerResult \<times> HttpRequest \<times> HttpResponse" where
  "execute_handler mem view srv req res segs =
     (case string_to_http_method (req_method req) of
        None \<Rightarrow> (HANDLER_NOT_IMPLEMENTED, req, res)
      | Some method \<Rightarrow>
          (case search_server srv segs method of
             (ex, Some (offset, r)) \<Rightarrow>
               let req' = bind_params segs offset r req
               in (HANDLER_OK, req', route_handler r req' res)
           | (ex, None) \<Rightarrow>
               let allow = collect_allow (srv_routes srv) (srv_mounts srv) (srv_heap srv) segs 128
               in if method = HTTP_METHOD_OPTIONS \<and> length allow > 0
                  then (HANDLER_OK, req, (put_header mem ''Allow'' allow res)\<lparr>res_status := 204\<rparr>)
                  else
                    (case http_static_dispatch mem view (srv_static srv) req res of
                       (HTTP_STATIC_SERVED, res') \<Rightarrow> (HANDLER_OK, req, res')
                     | (HTTP_STATIC_METHOD_NOT_ALLOWED, res') \<Rightarrow> (HANDLER_METHOD_NOT_ALLOWED, req, res')
                     | (HTTP_STATIC_NOT_MATCHED, res') \<Rightarrow>
                         (if ex then HANDLER_METHOD_NOT_ALLOWED else HANDLER_NOT_FOUND, req, res'))))"

definition set_allow_header :: "allocator \<Rightarrow> HttpServer \<Rightarrow> HttpRouteSegments \<Rightarrow> HttpResponse \<Rightarrow> HttpResponse" where
  "set_allow_header mem srv segs res =
     (let allow = collect_allow (srv_routes srv) (srv_mounts srv) (srv_heap srv) segs 128
      in if length allow > 0 then put_header mem ''Allow'' allow res else res)"

section \<open>One request\<close>

text \<open>
  From the received buffer to a parsed request. \<^const>\<open>Inl\<close> is a protocol error with the request as far as it was
  parsed; \<^const>\<open>Inr\<close> has the request and the bytes behind it.
\<close>

definition parse_client ::
  "allocator \<Rightarrow> char list \<Rightarrow> bool \<Rightarrow> HttpRequest \<Rightarrow> socket
     \<Rightarrow> (int \<times> HttpRequest + HttpRequest \<times> char list) \<times> socket" where
  "parse_client mem buf headers_complete req s =
     (if \<not> headers_complete then (Inl (431, req), s)
      else
        (case find_sub (cstr buf) EOH of
           None \<Rightarrow> (Inl (400, req), s)
         | Some sep \<Rightarrow>
             (case find_sub (cstr buf) CRLF of
                None \<Rightarrow> (Inl (400, req), s)
              | Some eol \<Rightarrow>
                  (case parse_request_line (take eol buf) req of
                     (line_status, req1) \<Rightarrow>
                       if line_status \<noteq> 0 then (Inl (line_status, req1), s)
                       else
                         (case parse_headers mem (drop (eol + 2) buf) (req_headers req1) of
                            (hdr_status, hs) \<Rightarrow>
                              if hdr_status \<noteq> 0 then (Inl (hdr_status, req1\<lparr>req_headers := hs\<rparr>), s)
                              else
                                (case read_body mem s buf (sep + 4) (req1\<lparr>req_headers := hs\<rparr>) of
                                   (body_status, req2, s1) \<Rightarrow>
                                     if body_status \<noteq> 0 then (Inl (body_status, req2), s1)
                                     else (Inr (req2, drop (sep + 4 + req_body_len req2) buf), s1)))))))"

definition parse_forms :: "(nat \<Rightarrow> char list \<times> char list) \<Rightarrow> HttpRequest \<Rightarrow> HttpRequest" where
  "parse_forms junk req =
     (case http_req_body_type req of
        HTTP_BODY_URLENCODED \<Rightarrow> req\<lparr>req_form := parse_query (map_option cstr (req_body req))\<rparr>
      | HTTP_BODY_MULTIPART \<Rightarrow> req\<lparr>req_multiparts := parse_multipart junk req\<rparr>
      | _ \<Rightarrow> req)"

text \<open>The part behind the label \<^verbatim>\<open>send\<close>.\<close>

definition respond :: "request_env \<Rightarrow> HttpServer \<Rightarrow> HttpRequest \<Rightarrow> HttpResponse \<Rightarrow> socket \<Rightarrow> socket" where
  "respond env srv req res s =
     (let res1 = (if res_status res = 0 then res\<lparr>res_status := 500\<rparr> else res);
          res2 = (case srv_error_handler srv of
                    None \<Rightarrow> res1
                  | Some handler \<Rightarrow>
                      if res_error res1 then
                        handler req res1 (res_status res1)
                          (if error_message res1 \<noteq> [] then error_message res1 else status_text (res_status res1))
                      else res1);
          res3 = snd (http_encode_body (env_mem env) (srv_encoders srv) req res2)
      in snd (send_res (env_files env) res3 s (req_method req = ''HEAD'')))"

text \<open>
  Routing after the middleware let the request pass. \<^const>\<open>Inl\<close>: the websocket layer took the connection. If the path
  cannot be parsed the segments are the zeroed struct.
\<close>

definition dispatch_request ::
  "request_env \<Rightarrow> HttpServer \<Rightarrow> HttpRequest \<Rightarrow> HttpResponse \<Rightarrow> socket \<Rightarrow> char list
     \<Rightarrow> (socket + HttpRequest \<times> HttpResponse)" where
  "dispatch_request env srv req res s leftover =
     (let parsed = http_parse_route_segments (env_mem env) (req_path req);
          segs = (case parsed of None \<Rightarrow> \<lparr>segments = [], segs_capacity = 0\<rparr> | Some x \<Rightarrow> x)
      in case http_ws_dispatch (env_mem env) (env_mutex env) (srv_ws srv) (srv_threads srv \<noteq> None) req segs s leftover of
           (WS_DISPATCH_NOT_WS, s1) \<Rightarrow>
             (case (if parsed \<noteq> None then execute_handler (env_mem env) (env_view env) srv req res segs
                    else (HANDLER_NOT_FOUND, req, res)) of
                (HANDLER_OK, req1, res1) \<Rightarrow> Inr (req1, res1)
              | (HANDLER_METHOD_NOT_ALLOWED, req1, res1) \<Rightarrow>
                  Inr (req1, set_allow_header (env_mem env) srv segs (set_protocol_error res1 405))
              | (HANDLER_NOT_FOUND, req1, res1) \<Rightarrow> Inr (req1, set_protocol_error res1 404)
              | (HANDLER_NOT_IMPLEMENTED, req1, res1) \<Rightarrow> Inr (req1, set_protocol_error res1 501))
         | (_, s1) \<Rightarrow> Inl s1)"

text \<open>The response every round starts from.\<close>

definition initial_response :: "request_env \<Rightarrow> HttpServer \<Rightarrow> HttpResponse" where
  "initial_response env srv =
     empty_response\<lparr>res_headers :=
       apply_default_headers (env_mem env) (env_now env) (the (srv_name srv)) no_headers False\<rparr>"

text \<open>A parsed request: forms, persistence, middleware, dispatch and the answer.\<close>

definition wants_persist :: "HttpServer \<Rightarrow> HttpRequest \<Rightarrow> bool" where
  "wants_persist srv req \<longleftrightarrow> srv_keep_alive srv \<and> request_wants_keep_alive req"

definition announced_response :: "request_env \<Rightarrow> HttpServer \<Rightarrow> bool \<Rightarrow> HttpResponse" where
  "announced_response env srv persist =
     (let res = initial_response env srv
      in res\<lparr>res_headers := snd (replace_header (env_mem env) (res_headers res) ''Connection''
                               (if persist then ''keep-alive'' else ''close''))\<rparr>)"

definition serve_request ::
  "request_env \<Rightarrow> HttpServer \<Rightarrow> HttpRequest \<Rightarrow> char list \<Rightarrow> socket \<Rightarrow> bool \<times> socket" where
  "serve_request env srv req0 leftover s =
     (let req = parse_forms (env_junk env) req0; persist = wants_persist srv req
      in case apply_middleware (srv_middlewares srv) req (announced_response env srv persist) of
           (False, res) \<Rightarrow> (persist, respond env srv req res s)
         | (True, res) \<Rightarrow>
             (case dispatch_request env srv req res s leftover of
                Inl s1 \<Rightarrow> (False, s1)
              | Inr (req1, res1) \<Rightarrow> (persist, respond env srv req1 res1 s)))"

text \<open>One iteration of the loop of \<^verbatim>\<open>handle_client\<close>; the flag says whether to read another request.\<close>

definition handle_request :: "request_env \<Rightarrow> HttpServer \<Rightarrow> string \<Rightarrow> nat \<Rightarrow> socket \<Rightarrow> bool \<times> socket" where
  "handle_request env srv ip port s =
     (case read_request s 4096 of
        (None, s1) \<Rightarrow> (False, s1)
      | (Some (buf, headers_complete), s1) \<Rightarrow>
          if buf = [] then (False, s1)
          else
            (case parse_client (env_mem env) buf headers_complete
                    (empty_request\<lparr>req_ip := snprint 46 ip, req_client_port := port\<rparr>) s1 of
               (Inl (status, req1), s2) \<Rightarrow>
                 (False, respond env srv req1 (set_protocol_error (initial_response env srv) status) s2)
             | (Inr (req1, leftover), s2) \<Rightarrow> serve_request env srv req1 leftover s2))"

section \<open>Reading and writing leave the other direction alone\<close>

definition only_read :: "socket \<Rightarrow> socket \<Rightarrow> bool" where
  "only_read s s' \<longleftrightarrow> outbox s' = outbox s \<and> sends s' = sends s \<and> script_size s' \<le> script_size s"

lemma only_read_refl [simp]: "only_read s s"
  by (simp add: only_read_def)

lemma only_read_trans: "only_read s s1 \<Longrightarrow> only_read s1 s2 \<Longrightarrow> only_read s s2"
  by (simp add: only_read_def)

lemma recv_only_read: "recv n s = (r, s') \<Longrightarrow> only_read s s'"
  by (cases "r = Eof") (auto simp: only_read_def dest: recv_frame recv_progress recv_Eof)

lemma read_loop_only_read: "read_request_loop n s buf = (r, s') \<Longrightarrow> only_read s s'"
proof (induction n s buf rule: read_request_loop.induct)
  case (1 n s buf)
  show ?case
  proof (cases "length buf < n - 1")
    case False
    then show ?thesis using "1.prems" by (simp add: read_request_loop.simps [of n s buf])
  next
    case True
    obtain e s1 where e: "recv (n - 1 - length buf) s = (e, s1)" by fastforce
    note r1 = recv_only_read [OF e]
    show ?thesis
      using "1.prems" "1.IH" [OF True e [symmetric]] True e r1
      by (cases e) (auto simp: read_request_loop.simps [of n s buf] Let_def split: if_splits intro: only_read_trans)
  qed
qed

lemma read_loop_consumes:
  "read_request_loop n s buf = (Some (b, c), s') \<Longrightarrow> b \<noteq> buf \<Longrightarrow> script_size s' < script_size s"
proof (cases "length buf < n - 1")
  case False
  then show "read_request_loop n s buf = (Some (b, c), s') \<Longrightarrow> b \<noteq> buf \<Longrightarrow> ?thesis"
    by (simp add: read_request_loop.simps [of n s buf])
next
  case True
  assume a: "read_request_loop n s buf = (Some (b, c), s')" "b \<noteq> buf"
  obtain e s1 where e: "recv (n - 1 - length buf) s = (e, s1)" by fastforce
  have "e \<noteq> Eof" using a True e by (auto simp: read_request_loop.simps [of n s buf])
  then have "script_size s1 < script_size s" using recv_progress [OF e] by simp
  moreover have "only_read s1 s'"
    using a True e read_loop_only_read by (cases e) (auto simp: read_request_loop.simps [of n s buf] Let_def split: if_splits)
  ultimately show ?thesis by (simp add: only_read_def)
qed

lemma recv_body_only_read: "recv_body s got n = (r, s') \<Longrightarrow> only_read s s'"
proof (induction s got n rule: recv_body.induct)
  case (1 s got n)
  show ?case
  proof (cases "length got < n")
    case False
    then show ?thesis using "1.prems" by (simp add: recv_body.simps [of s got n])
  next
    case True
    obtain e s1 where e: "recv (n - length got) s = (e, s1)" by fastforce
    note r1 = recv_only_read [OF e]
    show ?thesis
      using "1.prems" "1.IH" [OF True e [symmetric]] True e r1
      by (cases e) (auto simp: recv_body.simps [of s got n] intro: only_read_trans)
  qed
qed

lemma parse_client_only_read: "parse_client mem buf c req s = (r, s') \<Longrightarrow> only_read s s'"
  by (auto simp: parse_client_def read_body_def Let_def split: if_splits option.splits prod.splits sum.splits
      dest: recv_body_only_read)

lemma send_fd_loop_inbox: "inbox (snd (send_fd_loop s left n)) = inbox s"
proof (induction s left n rule: send_fd_loop.induct)
  case (1 s left n)
  show ?case
  proof (cases "n = 0")
    case True
    then show ?thesis by (simp add: send_fd_loop.simps)
  next
    case False
    note IH = "1.IH" [OF False refl]
    then show ?thesis
      using False by (subst send_fd_loop.simps) (auto simp: Let_def split: list.split send_event.split)
  qed
qed

lemma send_res_inbox: "inbox (snd (send_res fs res s suppress)) = inbox s"
proof -
  obtain rc s1 where p: "sock.send_chunks s (plan_head (range_plan (open_plan fs res))) = (rc, s1)" by fastforce
  have a: "inbox (snd (send_all t d)) = inbox t" for t d
    using send_all_rc [of t d] by (cases "send_all t d") auto
  show ?thesis
    using sock.send_chunks_inbox [OF p] p
    by (auto simp: send_res_def Let_def send_parts_chunks a send_fd_def send_fd_loop_inbox split: option.split prod.split)
qed

lemma respond_inbox: "inbox (respond env srv req res s) = inbox s"
  by (simp add: respond_def Let_def send_res_inbox)

lemma serve_request_inbox: "serve_request env srv req lo s = (True, s') \<Longrightarrow> inbox s' = inbox s"
  by (auto simp: serve_request_def Let_def respond_inbox split: prod.splits bool.splits sum.splits)

lemma handle_request_consumes:
  assumes "handle_request env srv ip port s = (True, s')"
  shows "script_size s' < script_size s"
proof -
  obtain buf c s1 where r: "read_request s 4096 = (Some (buf, c), s1)" "buf \<noteq> []"
    using assms by (auto simp: handle_request_def split: prod.splits option.splits if_splits)
  have 1: "script_size s1 < script_size s" using read_loop_consumes [of 4096 s "[]" buf c s1] r by (simp add: read_request_def)
  obtain x s2 where p: "parse_client (env_mem env) buf c (empty_request\<lparr>req_ip := snprint 46 ip, req_client_port := port\<rparr>) s1 = (x, s2)"
    by fastforce
  have "inbox s' = inbox s2"
    using assms r p serve_request_inbox by (auto simp: handle_request_def split: sum.splits prod.splits)
  then have "script_size s' = script_size s2" by (simp add: script_size_def)
  with 1 parse_client_only_read [OF p] show ?thesis by (simp add: only_read_def)
qed

section \<open>The connection\<close>

text \<open>Round \<open>n\<close> of the connection runs in the environment \<open>env n\<close>; every round that persists has consumed input.\<close>

function handle_client :: "(nat \<Rightarrow> request_env) \<Rightarrow> nat \<Rightarrow> HttpServer \<Rightarrow> string \<Rightarrow> nat \<Rightarrow> socket \<Rightarrow> socket" where
  "handle_client env n srv ip port s =
     (case handle_request (env n) srv ip port s of
        (persist, s') \<Rightarrow> if persist then handle_client env (n + 1) srv ip port s' else s')"
  by pat_completeness auto
termination
  by (relation "measure (\<lambda>(env, n, srv, ip, port, s). script_size s)")
    (auto dest!: sym [of _ "handle_request _ _ _ _ _"] handle_request_consumes)

declare handle_client.simps [simp del]

section \<open>Which handler runs\<close>

text \<open>
  The reference: the routes that match the path, in groups, the server's routes first and then those of each mounted
  router whose prefix matches. The first group that has the method decides; in a group HEAD may fall back to GET.
\<close>

definition route_matches :: "HttpRouteSegments \<Rightarrow> nat \<Rightarrow> HttpRoute \<Rightarrow> bool" where
  "route_matches segs offset r \<longleftrightarrow>
     offset \<le> length (segments segs) \<and> list_all2 seg_matches (segments (route_segments r)) (drop offset (segments segs))"

definition group_of :: "HttpRouteSegments \<Rightarrow> nat \<Rightarrow> HttpRoute list \<Rightarrow> (nat \<times> HttpRoute) list" where
  "group_of segs offset rs = map (Pair offset) (filter (route_matches segs offset) rs)"

definition mount_groups :: "router_heap \<Rightarrow> HttpRouteSegments \<Rightarrow> HttpRouterMount list \<Rightarrow> (nat \<times> HttpRoute) list list" where
  "mount_groups heap segs ms =
     concat (map (\<lambda>m. if prefix_segments_match (prefix_segments m) segs then
                        (case heap (mount_router m) of
                           None \<Rightarrow> []
                         | Some rt \<Rightarrow> [group_of segs (length (segments (prefix_segments m))) (routes (router_routes rt))])
                      else []) ms)"

definition route_groups :: "HttpServer \<Rightarrow> HttpRouteSegments \<Rightarrow> (nat \<times> HttpRoute) list list" where
  "route_groups srv segs =
     group_of segs 0 (routes (srv_routes srv)) # mount_groups (srv_heap srv) segs (srv_mounts srv)"

definition has_method :: "HttpMethod \<Rightarrow> nat \<times> HttpRoute \<Rightarrow> bool" where
  "has_method m x \<longleftrightarrow> route_method (snd x) = m"

definition pick_in :: "HttpMethod \<Rightarrow> (nat \<times> HttpRoute) list \<Rightarrow> (nat \<times> HttpRoute) option" where
  "pick_in m g =
     (case find (has_method m) g of
        Some x \<Rightarrow> Some x
      | None \<Rightarrow> if m = HTTP_METHOD_HEAD then find (has_method HTTP_METHOD_GET) g else None)"

fun first_pick :: "HttpMethod \<Rightarrow> (nat \<times> HttpRoute) list list \<Rightarrow> (nat \<times> HttpRoute) option" where
  "first_pick m [] = None"
| "first_pick m (g # gs) = (case pick_in m g of Some x \<Rightarrow> Some x | None \<Rightarrow> first_pick m gs)"

lemma match_at_route: "fst (segments_match_at (route_segments r) segs offset None) \<longleftrightarrow> route_matches segs offset r"
  by (simp add: segments_match_at_None route_matches_def)

lemma find_route_group:
  "map_option (Pair offset) (snd (find_route segs offset m rs ex)) = find (has_method m) (group_of segs offset rs) \<and>
   (snd (find_route segs offset m rs ex) = None \<longrightarrow>
      fst (find_route segs offset m rs ex) = (ex \<or> group_of segs offset rs \<noteq> []))"
  by (induction rs arbitrary: ex) (auto simp: match_at_route group_of_def has_method_def)

lemma find_get_group:
  "map_option (Pair offset) (find_get segs offset rs) = find (has_method HTTP_METHOD_GET) (group_of segs offset rs)"
  by (induction rs) (auto simp: find_get_def match_at_route group_of_def has_method_def)

lemma search_routes_group:
  "map_option (Pair offset) (snd (search_routes segs offset m rs ex)) = pick_in m (group_of segs offset rs) \<and>
   (snd (search_routes segs offset m rs ex) = None \<longrightarrow>
      fst (search_routes segs offset m rs ex) = (ex \<or> group_of segs offset rs \<noteq> []))"
  using find_route_group [of offset segs m rs ex] find_get_group [of offset segs rs]
  by (cases "find_route segs offset m rs ex"; cases "snd (find_route segs offset m rs ex)")
    (auto simp: search_routes_def pick_in_def split: option.splits)

lemma search_mounts_groups:
  "snd (search_mounts heap segs m ms ex) = first_pick m (mount_groups heap segs ms) \<and>
   (snd (search_mounts heap segs m ms ex) = None \<longrightarrow>
      fst (search_mounts heap segs m ms ex) = (ex \<or> (\<exists>g \<in> set (mount_groups heap segs ms). g \<noteq> [])))"
proof (induction ms arbitrary: ex)
  case Nil
  then show ?case by (simp add: mount_groups_def)
next
  case (Cons mt ms)
  show ?case
  proof (cases "prefix_segments_match (prefix_segments mt) segs \<and> heap (mount_router mt) \<noteq> None")
    case False
    then have g: "mount_groups heap segs (mt # ms) = mount_groups heap segs ms"
      and "search_mounts heap segs m (mt # ms) ex = search_mounts heap segs m ms ex"
      by (auto simp: mount_groups_def)
    then show ?thesis using Cons.IH [of ex] by metis
  next
    case True
    then obtain rt where rt: "heap (mount_router mt) = Some rt" by auto
    let ?o = "length (segments (prefix_segments mt))" and ?rs = "routes (router_routes rt)"
    obtain ex' r where s: "search_routes segs ?o m ?rs ex = (ex', r)" by fastforce
    have g: "mount_groups heap segs (mt # ms) = group_of segs ?o ?rs # mount_groups heap segs ms"
      using True rt by (simp add: mount_groups_def)
    note sg = search_routes_group [of ?o segs m ?rs ex, unfolded s]
    show ?thesis
    proof (cases r)
      case None
      then show ?thesis using True rt s sg Cons.IH [of ex'] unfolding g by auto
    next
      case (Some r')
      then show ?thesis using True rt s sg unfolding g by (auto split: option.splits)
    qed
  qed
qed

lemma search_server_groups:
  "snd (search_server srv segs m) = first_pick m (route_groups srv segs) \<and>
   (snd (search_server srv segs m) = None \<longrightarrow>
      fst (search_server srv segs m) = (\<exists>g \<in> set (route_groups srv segs). g \<noteq> []))"
proof -
  obtain ex r where s: "search_routes segs 0 m (routes (srv_routes srv)) False = (ex, r)" by fastforce
  note sg = search_routes_group [of 0 segs m "routes (srv_routes srv)" False, unfolded s]
  show ?thesis
    using s sg search_mounts_groups [of "srv_heap srv" segs m "srv_mounts srv" ex]
    by (cases r) (auto simp: search_server_def route_groups_def split: option.splits)
qed

section \<open>The Allow field\<close>

definition group_methods :: "(nat \<times> HttpRoute) list list \<Rightarrow> string list" where
  "group_methods gs = map (\<lambda>x. method_name (route_method (snd x))) (concat gs)"

lemma collect_routes_fold:
  "collect_routes n segs offset rs allow =
     foldl (allow_append n) allow (group_methods [group_of segs offset rs])"
  by (induction rs arbitrary: allow) (simp_all add: match_at_route group_of_def group_methods_def)

lemma collect_mounts_fold:
  "collect_mounts n segs heap ms allow = foldl (allow_append n) allow (group_methods (mount_groups heap segs ms))"
proof (induction ms arbitrary: allow)
  case Nil
  then show ?case by (simp add: mount_groups_def group_methods_def)
next
  case (Cons m ms)
  then show ?case
    by (cases "heap (mount_router m)")
      (auto simp: mount_groups_def group_methods_def collect_routes_fold)
qed

lemma collect_allow_fold:
  "collect_allow (srv_routes srv) (srv_mounts srv) (srv_heap srv) segs n =
     foldl (allow_append n) [] (group_methods (route_groups srv segs))"
  by (simp add: collect_allow_def collect_routes_fold collect_mounts_fold route_groups_def group_methods_def)

fun comma_join :: "string list \<Rightarrow> string" where
  "comma_join [] = []"
| "comma_join [x] = x"
| "comma_join (x # xs) = x @ '', '' @ comma_join xs"

lemma comma_join_Cons: "xs \<noteq> [] \<Longrightarrow> comma_join (x # xs) = x @ '', '' @ comma_join xs"
  by (cases xs) auto

lemma allow_fold_append:
  "allow \<noteq> [] \<Longrightarrow> xs \<noteq> [] \<Longrightarrow> length (allow @ '', '' @ comma_join xs) < n \<Longrightarrow>
     foldl (allow_append n) allow xs = allow @ '', '' @ comma_join xs"
proof (induction xs arbitrary: allow)
  case Nil
  then show ?case by simp
next
  case (Cons x xs)
  show ?case
  proof (cases "xs = []")
    case True
    then show ?thesis using Cons.prems by (simp add: allow_append_def)
  next
    case False
    have "allow_append n allow x = allow @ '', '' @ x"
      using Cons.prems False by (simp add: allow_append_def comma_join_Cons)
    then show ?thesis using Cons.IH [of "allow @ '', '' @ x"] Cons.prems False by (simp add: comma_join_Cons)
  qed
qed

lemma method_name_nonempty [simp]: "method_name m \<noteq> []"
  by (cases m) simp_all

lemma allow_fold:
  assumes "[] \<notin> set xs" and "length (comma_join xs) < n"
  shows "foldl (allow_append n) [] xs = comma_join xs"
proof (cases xs)
  case (Cons x ys)
  then show ?thesis
    using assms allow_fold_append [of x ys n]
    by (cases "ys = []") (auto simp: allow_append_def comma_join_Cons)
qed simp

lemma allow_fold_grows: "allow \<noteq> [] \<Longrightarrow> foldl (allow_append n) allow xs \<noteq> []"
  by (induction xs arbitrary: allow) (simp_all add: allow_append_def)

lemma allow_nonempty:
  assumes "\<forall>x \<in> set xs. x \<noteq> [] \<and> length x < n"
  shows "foldl (allow_append n) [] xs \<noteq> [] \<longleftrightarrow> xs \<noteq> []"
  using assms by (cases xs) (auto simp: allow_append_def dest: allow_fold_grows)

lemma allow_empty_iff:
  "collect_allow (srv_routes srv) (srv_mounts srv) (srv_heap srv) segs 128 \<noteq> [] \<longleftrightarrow>
     (\<exists>g \<in> set (route_groups srv segs). g \<noteq> [])"
proof -
  have "length (method_name m) < 128" for m by (cases m) simp_all
  then have "\<forall>x \<in> set (group_methods (route_groups srv segs)). x \<noteq> [] \<and> length x < 128"
    by (auto simp: group_methods_def)
  then show ?thesis unfolding collect_allow_fold by (subst allow_nonempty) (auto simp: group_methods_def)
qed

lemma method_of_name [simp]: "string_to_http_method (method_name m) = Some m"
  by (cases m) (simp_all add: string_to_http_method_def)

lemma execute_picked:
  assumes "req_method req = method_name m" and "first_pick m (route_groups srv segs) = Some (offset, r)"
  shows "execute_handler mem view srv req res segs =
    (HANDLER_OK, bind_params segs offset r req, route_handler r (bind_params segs offset r req) res)"
  using assms search_server_groups [of srv segs m]
  by (cases "search_server srv segs m") (simp add: execute_handler_def Let_def)

lemma execute_unrouted:
  assumes "req_method req = method_name m" and "first_pick m (route_groups srv segs) = None"
  shows "execute_handler mem view srv req res segs =
    (if m = HTTP_METHOD_OPTIONS \<and> (\<exists>g \<in> set (route_groups srv segs). g \<noteq> [])
     then (HANDLER_OK, req, (put_header mem ''Allow''
       (collect_allow (srv_routes srv) (srv_mounts srv) (srv_heap srv) segs 128) res)\<lparr>res_status := 204\<rparr>)
     else
       (case http_static_dispatch mem view (srv_static srv) req res of
          (HTTP_STATIC_SERVED, res') \<Rightarrow> (HANDLER_OK, req, res')
        | (HTTP_STATIC_METHOD_NOT_ALLOWED, res') \<Rightarrow> (HANDLER_METHOD_NOT_ALLOWED, req, res')
        | (HTTP_STATIC_NOT_MATCHED, res') \<Rightarrow>
            (if \<exists>g \<in> set (route_groups srv segs). g \<noteq> [] then HANDLER_METHOD_NOT_ALLOWED else HANDLER_NOT_FOUND, req, res')))"
proof -
  obtain ex where s: "search_server srv segs m = (ex, None)" "ex \<longleftrightarrow> (\<exists>g \<in> set (route_groups srv segs). g \<noteq> [])"
    using assms(2) search_server_groups [of srv segs m] by (cases "search_server srv segs m") auto
  have "0 < length (collect_allow (srv_routes srv) (srv_mounts srv) (srv_heap srv) segs 128) \<longleftrightarrow> ex"
    using allow_empty_iff [of srv segs] s(2) by simp
  then show ?thesis
    unfolding s(2) [symmetric] by (simp add: execute_handler_def assms(1) s(1) Let_def)
qed

section \<open>Dispatch of one request\<close>

definition registered_ok :: "HttpServer \<Rightarrow> bool" where
  "registered_ok srv \<longleftrightarrow>
     list_all route_inv (routes (srv_routes srv)) \<and>
     (\<forall>m \<in> set (srv_mounts srv). \<forall>rt. srv_heap srv (mount_router m) = Some rt \<longrightarrow>
        list_all route_inv (routes (router_routes rt)))"

lemma first_pick_in: "first_pick m gs = Some x \<Longrightarrow> \<exists>g \<in> set gs. x \<in> set g"
proof (induction gs)
  case (Cons g gs)
  then show ?case
    by (auto simp: pick_in_def find_Some_iff split: option.splits if_splits)
qed simp

lemma group_member:
  "(offset, r) \<in> set (group_of segs off rs) \<longleftrightarrow> offset = off \<and> r \<in> set rs \<and> route_matches segs off r"
  by (auto simp: group_of_def)

lemma picked_route:
  assumes "registered_ok srv" and "first_pick m (route_groups srv segs) = Some (offset, r)"
  shows "route_inv r \<and> route_matches segs offset r"
proof -
  obtain g where "g \<in> set (route_groups srv segs)" "(offset, r) \<in> set g" using first_pick_in [OF assms(2)] by blast
  then show ?thesis
    using assms(1)
    by (auto simp: route_groups_def mount_groups_def registered_ok_def group_member list_all_iff split: if_splits option.splits)
      metis
qed

lemma dispatch_without_ws:
  assumes "srv_ws srv = []" and "http_parse_route_segments (env_mem env) (req_path req) = Some segs"
  shows "dispatch_request env srv req res s lo =
    (case execute_handler (env_mem env) (env_view env) srv req res segs of
       (HANDLER_OK, req1, res1) \<Rightarrow> Inr (req1, res1)
     | (HANDLER_METHOD_NOT_ALLOWED, req1, res1) \<Rightarrow>
         Inr (req1, set_allow_header (env_mem env) srv segs (set_protocol_error res1 405))
     | (HANDLER_NOT_FOUND, req1, res1) \<Rightarrow> Inr (req1, set_protocol_error res1 404)
     | (HANDLER_NOT_IMPLEMENTED, req1, res1) \<Rightarrow> Inr (req1, set_protocol_error res1 501))"
  using assms by (simp add: dispatch_request_def http_ws_dispatch_def)

lemma bound_params:
  assumes "route_inv r" and "http_parse_route_segments mem path = Some segs" and "route_matches segs offset r"
    and "length (param_slots (req_params req)) = HTTP_MAX_PARAMS"
  shows "http_req_param (bind_params segs offset r req) (Some k) =
    map_of (bindings (segments (route_segments r)) (drop offset (segments segs))) k"
  using matched_route_binds [OF assms(1,2) _ assms(4), of offset] assms(3)
  by (auto simp: http_req_param_def bind_params_def lookup_first_eq_map_of match_at_route)

lemma put_header_fields:
  "res_status (put_header mem k v res) = res_status res" "res_error (put_header mem k v res) = res_error res"
proof -
  obtain r res' where "set_res_header mem res k v = (r, res')" by fastforce
  then show "res_status (put_header mem k v res) = res_status res" "res_error (put_header mem k v res) = res_error res"
    using set_res_header_cases [of mem res k v r res']
    by (auto simp: put_header_def) (metis HttpResponse.select_convs HttpResponse.surjective HttpResponse.update_convs(3))+
qed

lemma comma_join_chars: "set (comma_join xs) \<subseteq> {CHR '','', SP} \<union> \<Union> (set ` set xs)"
proof (induction xs)
  case (Cons x xs)
  then show ?case by (cases "xs = []") (auto simp: comma_join_Cons)
qed simp

lemma allow_field_ok: "field_ok (''Allow'', comma_join (group_methods gs))"
proof -
  have m: "CR \<notin> set (method_name m)" "LF \<notin> set (method_name m)" for m by (cases m; simp)+
  have "c \<notin> set (comma_join (group_methods gs))" if "c \<noteq> CHR '',''" "c \<noteq> SP" "\<And>m. c \<notin> set (method_name m)" for c
  proof
    assume "c \<in> set (comma_join (group_methods gs))"
    then have "\<exists>x \<in> set (group_methods gs). c \<in> set x" using comma_join_chars that(1,2) by blast
    then show False using that(3) by (auto simp: group_methods_def)
  qed
  from this [OF _ _ m(1)] this [OF _ _ m(2)]
  have "CR \<notin> set (comma_join (group_methods gs))" "LF \<notin> set (comma_join (group_methods gs))" by simp_all
  then show ?thesis by (simp add: field_ok_def header_value_has_injection_iff is_valid_header_name_def is_tchar_def)
qed

lemma put_allow:
  assumes "\<forall>n. mem n" and "length (comma_join (group_methods (route_groups srv segs))) < 128"
  shows "items (res_headers (put_header mem ''Allow''
      (collect_allow (srv_routes srv) (srv_mounts srv) (srv_heap srv) segs 128) res)) =
    items (res_headers res) @ [(''Allow'', comma_join (group_methods (route_groups srv segs)))]"
proof -
  have "[] \<notin> set (group_methods (route_groups srv segs))" by (auto simp: group_methods_def dest: sym)
  then have "collect_allow (srv_routes srv) (srv_mounts srv) (srv_heap srv) segs 128 = comma_join (group_methods (route_groups srv segs))"
    unfolding collect_allow_fold using assms(2) by (rule allow_fold)
  then show ?thesis
    using http_set_header_ok [OF _ allow_field_ok, of mem "res_headers res" "route_groups srv segs"] assms(1)
    by (simp add: put_header_def set_res_header_def split_def)
qed

section \<open>Properties\<close>

text \<open>C2: the handler that runs is the one of the first route with the request's method in the first group of
  matching routes that has one, the server's own routes before those of the mounted routers in mount order; within a
  group a HEAD request falls back to GET. The handler sees every parameter of its route with the text of the
  matching path segment.\<close>

theorem routing_order:
  assumes "registered_ok srv" and "srv_ws srv = []" and "req_method req = method_name m"
    and "http_parse_route_segments (env_mem env) (req_path req) = Some segs"
    and "first_pick m (route_groups srv segs) = Some (offset, r)"
    and "length (param_slots (req_params req)) = HTTP_MAX_PARAMS"
  shows "\<exists>req'. dispatch_request env srv req res s lo = Inr (req', route_handler r req' res) \<and>
    req_path req' = req_path req \<and>
    (\<forall>k. http_req_param req' (Some k) =
       map_of (bindings (segments (route_segments r)) (drop offset (segments segs))) k)"
proof -
  have "route_inv r" "route_matches segs offset r" using picked_route [OF assms(1,5)] by auto
  then have "http_req_param (bind_params segs offset r req) (Some k) =
      map_of (bindings (segments (route_segments r)) (drop offset (segments segs))) k" for k
    using bound_params assms(4,6) by blast
  then show ?thesis
    using execute_picked [OF assms(3,5)] dispatch_without_ws [OF assms(2,4)]
    by (intro exI [of _ "bind_params segs offset r req"]) (simp add: bind_params_def)
qed

definition user_handler :: HttpHandler where
  "user_handler req res = res\<lparr>res_status := 200, res_body := the (http_req_param req (Some ''id''))\<rparr>"

definition user_route :: HttpRoute where
  "user_route = \<lparr>route_path = ''/users/:id'', route_handler = user_handler, route_method = HTTP_METHOD_GET,
     route_segments = \<lparr>segments = [\<lparr>seg_text = ''users'', is_param = False\<rparr>, \<lparr>seg_text = ''id'', is_param = True\<rparr>],
       segs_capacity = 8\<rparr>\<rparr>"

definition sample_server :: HttpServer where
  "sample_server = \<lparr>srv_port = 8080, srv_bind_addr = ''127.0.0.1'', srv_fd = 3, srv_listening = True, srv_keep_alive = True,
     srv_routes = \<lparr>routes = [user_route], routes_capacity = 8\<rparr>, srv_middlewares = \<lparr>middlewares = [], middlewares_capacity = 0\<rparr>,
     srv_encoders = \<lparr>encoders = [], encoders_capacity = 0\<rparr>, srv_name = Some ''c-http'', srv_static = [], srv_error_handler = None,
     srv_mounts = [], srv_heap = (\<lambda>_. None), srv_threads = None, srv_ws = []\<rparr>"

definition sample_env :: request_env where
  "sample_env = \<lparr>env_mem = (\<lambda>_. True), env_mutex = True, env_files = (\<lambda>_. None),
     env_view = \<lparr>fs_stat = (\<lambda>_. None), fs_realpath = (\<lambda>_. None), gmtime = (\<lambda>_. \<lparr>tm_wday = 4, tm_mday = 1, tm_mon = 0, tm_year = 70,
       tm_hour = 0, tm_min = 0, tm_sec = 0\<rparr>)\<rparr>,
     env_now = \<lparr>tm_wday = 4, tm_mday = 1, tm_mon = 0, tm_year = 70, tm_hour = 0, tm_min = 0, tm_sec = 0\<rparr>,
     env_junk = (\<lambda>_. ([], []))\<rparr>"

abbreviation users_7 :: HttpRouteSegments where
  "users_7 \<equiv> \<lparr>segments = [\<lparr>seg_text = ''users'', is_param = False\<rparr>, \<lparr>seg_text = ''7'', is_param = False\<rparr>], segs_capacity = 8\<rparr>"

lemma users_7_parsed: "http_parse_route_segments (env_mem sample_env) ''/users/7'' = Some users_7"
  by (simp add: sample_env_def http_parse_route_segments_def parse_segments_loop.simps SEGMENT_TEXT_MAX_def)

lemma sample_groups: "route_groups sample_server users_7 = [[(0, user_route)]]"
  by (simp add: route_groups_def sample_server_def mount_groups_def group_of_def route_matches_def user_route_def seg_matches_def)

theorem routing_order_witness:
  "\<exists>req'. dispatch_request sample_env sample_server (empty_request\<lparr>req_method := ''HEAD'', req_path := ''/users/7''\<rparr>) empty_response
       \<lparr>inbox = [], sends = [], outbox = []\<rparr> [] =
     Inr (req', user_handler req' empty_response) \<and> http_req_param req' (Some ''id'') = Some ''7''"
proof -
  have ok: "registered_ok sample_server"
    by (simp add: registered_ok_def sample_server_def user_route_def route_inv_def raw_segments_def seg_ok_def mk_seg_def limit_defs)
  have pick: "first_pick HTTP_METHOD_HEAD (route_groups sample_server users_7) = Some (0, user_route)"
    by (simp add: sample_groups pick_in_def has_method_def user_route_def)
  show ?thesis
    using routing_order [OF ok _ _ _ pick, of "empty_request\<lparr>req_method := ''HEAD'', req_path := ''/users/7''\<rparr>" sample_env empty_response "\<lparr>inbox = [], sends = [], outbox = []\<rparr>" "[]"]
    by (auto simp: users_7_parsed sample_server_def user_route_def empty_request_def no_params_def)
qed

text \<open>C28: a request whose path no route and no static mount knows is answered 404; if some route matches
  the path but none has the method, the answer is 405 with an Allow field that lists the methods of all matching routes in
  order, as long as they fit the buffer of 128 bytes. An OPTIONS request without a route of its own
  gets that list with 204.\<close>

theorem unrouted_answer:
  assumes "srv_ws srv = []" and "req_method req = method_name m" and "\<forall>n. env_mem env n"
    and "http_parse_route_segments (env_mem env) (req_path req) = Some segs"
    and "first_pick m (route_groups srv segs) = None"
    and "http_static_dispatch (env_mem env) (env_view env) (srv_static srv) req res = (HTTP_STATIC_NOT_MATCHED, res)"
    and "length (comma_join (group_methods (route_groups srv segs))) < 128"
  shows "\<exists>res'. dispatch_request env srv req res s lo = Inr (req, res') \<and>
    (if concat (route_groups srv segs) = [] then res_status res' = 404 \<and> res_error res' \<and> res_headers res' = res_headers res
     else res_status res' = (if m = HTTP_METHOD_OPTIONS then 204 else 405) \<and>
       items (res_headers res') = items (res_headers res) @ [(''Allow'', comma_join (group_methods (route_groups srv segs)))])"
proof (cases "concat (route_groups srv segs) = []")
  case True
  then have "execute_handler (env_mem env) (env_view env) srv req res segs = (HANDLER_NOT_FOUND, req, res)"
    using assms(6) execute_unrouted [OF assms(2,5), of "env_mem env" "env_view env" res] by auto
  then show ?thesis using True dispatch_without_ws [OF assms(1,4)] by (simp add: set_protocol_error_def)
next
  case False
  then have g: "\<exists>g \<in> set (route_groups srv segs). g \<noteq> []" by auto
  have h: "items (res_headers (set_protocol_error res 405)) = items (res_headers res)" by (simp add: set_protocol_error_def)
  have a: "0 < length (collect_allow (srv_routes srv) (srv_mounts srv) (srv_heap srv) segs 128)"
    using allow_empty_iff [of srv segs] g by simp
  note put = put_allow [OF assms(3,7)]
  show ?thesis
    using g a h put False assms(6) execute_unrouted [OF assms(2,5), of "env_mem env" "env_view env" res]
      dispatch_without_ws [OF assms(1,4)]
    by (auto simp: set_allow_header_def put_header_fields Let_def set_protocol_error_def)
qed

theorem unrouted_answer_witness:
  "\<exists>res'. dispatch_request sample_env sample_server (empty_request\<lparr>req_method := ''POST'', req_path := ''/users/7''\<rparr>) empty_response
       \<lparr>inbox = [], sends = [], outbox = []\<rparr> [] =
     Inr (empty_request\<lparr>req_method := ''POST'', req_path := ''/users/7''\<rparr>, res') \<and> res_status res' = 405 \<and>
     items (res_headers res') = [(''Allow'', ''GET'')]"
proof -
  have pick: "first_pick HTTP_METHOD_POST (route_groups sample_server users_7) = None"
    by (simp add: sample_groups pick_in_def has_method_def user_route_def)
  have ws: "srv_ws sample_server = []" and mem: "\<forall>n. env_mem sample_env n"
    by (simp_all add: sample_server_def sample_env_def)
  have st: "http_static_dispatch (env_mem sample_env) (env_view sample_env) (srv_static sample_server)
      (empty_request\<lparr>req_method := ''POST'', req_path := ''/users/7''\<rparr>) empty_response = (HTTP_STATIC_NOT_MATCHED, empty_response)"
    by (simp add: sample_server_def)
  have names: "group_methods (route_groups sample_server users_7) = [''GET'']"
    by (simp add: group_methods_def sample_groups user_route_def)
  show ?thesis
    using unrouted_answer [OF ws _ mem _ pick st] names
    by (auto simp: users_7_parsed sample_groups empty_response_def no_headers_def)
qed

section \<open>Every request is answered\<close>

text \<open>Something has been sent over a connection that accepts everything.\<close>

definition only_sent :: "socket \<Rightarrow> char list \<Rightarrow> socket \<Rightarrow> bool" where
  "only_sent s Y s' \<longleftrightarrow> s' = s\<lparr>outbox := outbox s @ Y\<rparr>"

lemma only_sent_append: "only_sent s X s1 \<Longrightarrow> only_sent s1 Y s2 \<Longrightarrow> only_sent s (X @ Y) s2"
  by (simp add: only_sent_def)

lemma send_fd_loop_sent: "sends s = [] \<Longrightarrow> \<exists>Y. only_sent s Y (snd (send_fd_loop s left n))"
proof (induction s left n rule: send_fd_loop.induct)
  case (1 s left n)
  define avail where "avail = take (min n 0x7ffff000) left"
  show ?case
  proof (cases "n = 0 \<or> avail = []")
    case True
    then have "snd (send_fd_loop s left n) = s" by (auto simp: send_fd_loop.simps [of s left n] avail_def)
    then show ?thesis by (auto simp: only_sent_def intro: exI [of _ "[]"])
  next
    case False
    let ?s1 = "s\<lparr>outbox := outbox s @ avail\<rparr>"
    have step: "send_fd_loop s left n = send_fd_loop ?s1 (drop (length avail) left) (n - length avail)"
      using False "1.prems" by (simp add: send_fd_loop.simps [of s left n] avail_def [symmetric])
    have "\<exists>Y. only_sent ?s1 Y (snd (send_fd_loop ?s1 (drop (length avail) left) (n - length avail)))"
      using "1.IH"(1) [OF _ avail_def _ "1.prems"] False "1.prems" by simp
    moreover have "only_sent s avail ?s1" by (simp add: only_sent_def)
    ultimately show ?thesis using only_sent_append step by metis
  qed
qed

lemma send_res_sent:
  assumes "sends s = []"
  shows "\<exists>st rest. is_valid_status_code st \<and> only_sent s (status_line st @ rest) (snd (send_res fs res s suppress))"
proof -
  define p where "p = range_plan (open_plan fs res)"
  obtain hs where h: "plan_head p = status_line (res_status (plan_res p)) # hs" by (simp add: plan_head_def Let_def)
  let ?s1 = "s\<lparr>outbox := outbox s @ concat (plan_head p)\<rparr>"
  have s1: "only_sent s (concat (plan_head p)) ?s1" by (simp add: only_sent_def)
  obtain Y where "only_sent ?s1 Y (snd (send_res fs res s suppress))"
  proof (cases "plan_no_body p \<or> suppress")
    case True
    then have "only_sent ?s1 [] (snd (send_res fs res s suppress))"
      using assms by (auto simp: send_res_def p_def [symmetric] Let_def only_sent_def)
    then show ?thesis by (rule that)
  next
    case False
    show ?thesis
    proof (cases "plan_streaming p")
      case True
      have "\<exists>Y. only_sent ?s1 Y (snd (send_fd (plan_fd p) (plan_offset p) (plan_size p) ?s1))"
      proof (cases "plan_fd p")
        case None
        then have "only_sent ?s1 [] (snd (send_fd (plan_fd p) (plan_offset p) (plan_size p) ?s1))"
          by (simp add: send_fd_def only_sent_def)
        then show ?thesis ..
      next
        case (Some f)
        then show ?thesis using send_fd_loop_sent [of ?s1] assms by (simp add: send_fd_def)
      qed
      then show ?thesis using that False True assms by (auto simp: send_res_def p_def [symmetric] Let_def)
    next
      case st: False
      have "only_sent ?s1 (selected_body (plan_res p)) (snd (send_all ?s1 (selected_body (plan_res p))))"
        using assms by (simp add: sock.send_reliable only_sent_def)
      then show ?thesis using that False st assms by (auto simp: send_res_def p_def [symmetric] Let_def)
    qed
  qed
  from only_sent_append [OF s1 this]
  have "only_sent s (status_line (res_status (plan_res p)) @ concat hs @ Y) (snd (send_res fs res s suppress))"
    by (simp add: h)
  then show ?thesis using plan_facts(3) [of fs res] unfolding p_def by blast
qed

lemma respond_sent:
  assumes "sends s = []"
  shows "\<exists>st rest. is_valid_status_code st \<and> only_sent s (status_line st @ rest) (respond env srv req res s)"
  using send_res_sent [OF assms] by (simp add: respond_def Let_def)

lemma dispatch_no_ws: "srv_ws srv = [] \<Longrightarrow> \<exists>req' res'. dispatch_request env srv req res s lo = Inr (req', res')"
  by (auto simp: dispatch_request_def http_ws_dispatch_def Let_def split: prod.splits HandlerResult.splits)

lemma serve_request_responds:
  assumes "srv_ws srv = []"
  obtains req' res' where "snd (serve_request env srv req lo s) = respond env srv req' res' s"
proof -
  obtain go res where m: "apply_middleware (srv_middlewares srv) (parse_forms (env_junk env) req)
      (announced_response env srv (wants_persist srv (parse_forms (env_junk env) req))) = (go, res)" by fastforce
  obtain req1 res1 where "dispatch_request env srv (parse_forms (env_junk env) req) res s lo = Inr (req1, res1)"
    using dispatch_no_ws [OF assms] by blast
  then show ?thesis using that m by (cases go) (simp_all add: serve_request_def Let_def)
qed

lemma handle_request_answers:
  assumes "sends s = []" and "srv_ws srv = []" and "read_request s 4096 = (Some (buf, c), s1)" and "buf \<noteq> []"
  shows "\<exists>st rest. is_valid_status_code st \<and> sends (snd (handle_request env srv ip port s)) = [] \<and>
    outbox (snd (handle_request env srv ip port s)) = outbox s @ status_line st @ rest"
proof -
  obtain x s2 where p: "parse_client (env_mem env) buf c (empty_request\<lparr>req_ip := snprint 46 ip, req_client_port := port\<rparr>) s1 = (x, s2)"
    by fastforce
  have r: "only_read s s2"
    using read_loop_only_read [of 4096 s "[]"] assms(3) parse_client_only_read [OF p]
    by (auto simp: read_request_def intro: only_read_trans)
  obtain req' res' where h: "snd (handle_request env srv ip port s) = respond env srv req' res' s2"
  proof (cases x)
    case (Inl y)
    then show ?thesis using that assms(3,4) p by (cases y) (simp add: handle_request_def)
  next
    case (Inr y)
    obtain req1 lo where y: "y = (req1, lo)" by fastforce
    obtain req' res' where "snd (serve_request env srv req1 lo s2) = respond env srv req' res' s2"
      using serve_request_responds [OF assms(2)] by blast
    then show ?thesis using that assms(3,4) p Inr y by (simp add: handle_request_def)
  qed
  obtain st rest where "is_valid_status_code st" "only_sent s2 (status_line st @ rest) (respond env srv req' res' s2)"
    using respond_sent [of s2 env srv req' res'] r assms(1) by (auto simp: only_read_def)
  then show ?thesis using r assms(1) h by (auto simp: only_sent_def only_read_def)
qed


text \<open>A request that cannot be parsed reaches no application code: whatever middleware, routes, routers,
  mounts and websocket routes the server has, the answer is the same, and the connection is closed after it.\<close>

theorem protocol_error_isolated:
  assumes "read_request s 4096 = (Some (buf, c), s1)" and "buf \<noteq> []"
    and "parse_client (env_mem env) buf c (empty_request\<lparr>req_ip := snprint 46 ip, req_client_port := port\<rparr>) s1 = (Inl (st, req), s2)"
    and "srv_name srv' = srv_name srv" and "srv_error_handler srv' = srv_error_handler srv" and "srv_encoders srv' = srv_encoders srv"
  shows "handle_request env srv' ip port s = handle_request env srv ip port s \<and>
    fst (handle_request env srv ip port s) = False"
  using assms by (simp add: handle_request_def initial_response_def respond_def)

text \<open>When a middleware stops a request, no websocket route, route, router or static mount sees it; the
  response as the middleware left it is sent.\<close>

theorem middleware_stop_is_final:
  assumes "run_middlewares (middlewares (srv_middlewares srv)) (parse_forms (env_junk env) req)
      (announced_response env srv (wants_persist srv (parse_forms (env_junk env) req))) = (False, res)"
  shows "serve_request env (srv\<lparr>srv_routes := rs, srv_mounts := ms, srv_heap := hp, srv_static := sm, srv_ws := ws\<rparr>) req lo s =
      serve_request env srv req lo s \<and>
    snd (serve_request env srv req lo s) = respond env srv (parse_forms (env_junk env) req) res s"
  using assms
  by (simp add: serve_request_def apply_middleware_def announced_response_def initial_response_def wants_persist_def
      respond_def Let_def)

lemma parse_forms_head [simp]:
  "req_headers (parse_forms junk req) = req_headers req" "req_version (parse_forms junk req) = req_version req"
  "req_path (parse_forms junk req) = req_path req" "req_method (parse_forms junk req) = req_method req"
  by (simp_all add: parse_forms_def split: HttpBodyType.split)

lemma wants_keep_alive_cases:
  assumes "request_wants_keep_alive req"
  shows "(\<forall>v e. http_req_header req (Some ''Connection'') = Some v \<and> e \<in> set (split_on (CHR '','') v) \<longrightarrow>
      \<not> strcaseeq (trim_ows e) ''close'') \<and>
    (req_version req = ''HTTP/1.1'' \<or>
     (\<exists>v. http_req_header req (Some ''Connection'') = Some v \<and>
        (\<exists>e \<in> set (split_on (CHR '','') v). strcaseeq (trim_ows e) ''keep-alive'')))"
  using assms by (auto simp: request_wants_keep_alive_def conn.scan_iff split: option.splits if_splits)

lemma serve_request_persists: "fst (serve_request env srv req lo s) \<Longrightarrow> wants_persist srv (parse_forms (env_junk env) req)"
  by (auto simp: serve_request_def Let_def split: prod.splits bool.splits sum.splits)

text \<open>A connection is read again only if the server allows persistence, the request was well-formed, its
  Connection field does not list close, and the request is HTTP/1.1 or lists keep-alive.\<close>

theorem persistence_decided:
  assumes "handle_request env srv ip port s = (True, s')"
  shows "srv_keep_alive srv \<and>
    (\<exists>buf s1 req lo s2. read_request s 4096 = (Some (buf, True), s1) \<and>
       parse_client (env_mem env) buf True (empty_request\<lparr>req_ip := snprint 46 ip, req_client_port := port\<rparr>) s1 = (Inr (req, lo), s2) \<and>
       (\<forall>v e. http_req_header req (Some ''Connection'') = Some v \<and> e \<in> set (split_on (CHR '','') v) \<longrightarrow>
          \<not> strcaseeq (trim_ows e) ''close'') \<and>
       (req_version req = ''HTTP/1.1'' \<or>
        (\<exists>v. http_req_header req (Some ''Connection'') = Some v \<and>
           (\<exists>e \<in> set (split_on (CHR '','') v). strcaseeq (trim_ows e) ''keep-alive''))))"
proof -
  obtain buf c s1 where r: "read_request s 4096 = (Some (buf, c), s1)" "buf \<noteq> []"
    using assms by (auto simp: handle_request_def split: prod.splits option.splits if_splits)
  obtain x s2 where p: "parse_client (env_mem env) buf c (empty_request\<lparr>req_ip := snprint 46 ip, req_client_port := port\<rparr>) s1 = (x, s2)"
    by fastforce
  obtain req lo where x: "x = Inr (req, lo)" using assms r p by (cases x) (auto simp: handle_request_def)
  have c: "c" using p x by (auto simp: parse_client_def split: if_splits)
  have "wants_persist srv (parse_forms (env_junk env) req)"
    using assms r p x serve_request_persists [of env srv req lo s2] by (simp add: handle_request_def)
  then have k: "srv_keep_alive srv" "request_wants_keep_alive (parse_forms (env_junk env) req)" by (simp_all add: wants_persist_def)
  have h: "http_req_header (parse_forms (env_junk env) req) k = http_req_header req k" for k
    by (simp add: http_req_header_def cong: option.case_cong)
  have "read_request s 4096 = (Some (buf, True), s1)"
    "parse_client (env_mem env) buf True (empty_request\<lparr>req_ip := snprint 46 ip, req_client_port := port\<rparr>) s1 = (Inr (req, lo), s2)"
    using r p x c by simp_all
  then show ?thesis
    using k(1) wants_keep_alive_cases [OF k(2)] unfolding h parse_forms_head by blast
qed

lemma parse_client_ok:
  assumes "parse_client mem buf c req s = (Inr (req2, lo), s2)"
  shows "\<exists>sep req1. find_sub (cstr buf) EOH = Some sep \<and> read_body mem s buf (sep + 4) req1 = (0, req2, s2) \<and>
    lo = drop (sep + 4 + req_body_len req2) buf"
proof -
  have c: "c" using assms by (cases c) (simp_all add: parse_client_def)
  obtain sep where sep: "find_sub (cstr buf) EOH = Some sep"
    using assms c by (cases "find_sub (cstr buf) EOH") (simp_all add: parse_client_def)
  obtain eol where eol: "find_sub (cstr buf) CRLF = Some eol"
    using assms c sep by (cases "find_sub (cstr buf) CRLF") (simp_all add: parse_client_def)
  obtain l req1 where l: "parse_request_line (take eol buf) req = (l, req1)" by fastforce
  obtain h hs where h: "parse_headers mem (drop (eol + 2) buf) (req_headers req1) = (h, hs)" by fastforce
  obtain b req2' s2' where b: "read_body mem s buf (sep + 4) (req1\<lparr>req_headers := hs\<rparr>) = (b, req2', s2')"
    by (cases "read_body mem s buf (sep + 4) (req1\<lparr>req_headers := hs\<rparr>)") auto
  have "l = 0" "h = 0" "b = 0" "req2' = req2" "s2' = s2" "lo = drop (sep + 4 + req_body_len req2) buf"
    using assms c sep eol l h b by (auto simp: parse_client_def split: if_splits)
  then show ?thesis using sep b by blast
qed

text \<open>Bytes that arrive behind a request without being part of it are lost: they were taken from the
  connection with the request, and neither this round nor the next one sees them.\<close>

theorem pipelined_bytes_lost:
  assumes "read_request s 4096 = (Some (buf, c), s1)"
    and "parse_client (env_mem env) buf c (empty_request\<lparr>req_ip := snprint 46 ip, req_client_port := port\<rparr>) s1 = (Inr (req, lo), s2)"
    and "req_body req = None" and "srv_ws srv = []"
  shows "\<exists>used. pending s = used @ lo @ pending (snd (handle_request env srv ip port s))"
proof -
  obtain sep req1 where p: "find_sub (cstr buf) EOH = Some sep" "read_body (env_mem env) s1 buf (sep + 4) req1 = (0, req, s2)"
    "lo = drop (sep + 4 + req_body_len req) buf"
    using parse_client_ok [OF assms(2)] by blast
  have ne: "buf \<noteq> []" using p(1) by (auto simp: cstr_def EOH_def find_sub_Nil)
  have "s2 = s1" by (rule read_body_ok [OF p(2)]) (use assms(3) in \<open>auto simp: not_less [symmetric]\<close>)
  have i: "inbox (snd (handle_request env srv ip port s)) = inbox s1"
  proof -
    obtain req' res' where "snd (serve_request env srv req lo s2) = respond env srv req' res' s2"
      using serve_request_responds [OF assms(4)] by blast
    then show ?thesis using assms(1,2) ne \<open>s2 = s1\<close> by (simp add: handle_request_def respond_inbox)
  qed
  have "pending s = buf @ pending s1"
    using read_request_loop_spec [of 4096 s "[]" buf c s1] assms(1) by (simp add: read_request_def find_sub_Nil EOH_def)
  moreover have "pending (snd (handle_request env srv ip port s)) = pending s1" using i by (simp add: pending_def)
  ultimately have "pending s = take (sep + 4 + req_body_len req) buf @ lo @ pending (snd (handle_request env srv ip port s))"
    by (simp add: p(3))
  then show ?thesis ..
qed

definition get_root :: string where
  "get_root = ''GET / HTTP/1.1'' @ CRLF @ CRLF"

abbreviation root_socket :: "char list \<Rightarrow> socket" where
  "root_socket bs \<equiv> \<lparr>inbox = [RData bs], sends = [], outbox = []\<rparr>"

definition root_request :: HttpRequest where
  "root_request = empty_request\<lparr>req_ip := ''127.0.0.1'', req_client_port := 5, req_method := ''GET'', req_path := ''/'',
     req_version := ''HTTP/1.1''\<rparr>"

lemma root_read:
  "read_request (root_socket (get_root @ get_root)) 4096 = (Some (get_root @ get_root, True), \<lparr>inbox = [], sends = [], outbox = []\<rparr>)"
  by (simp add: get_root_def read_request_def read_request_loop.simps recv_def cstr_def EOH_def find_sub_Cons find_sub_Nil starts_with_def)

lemma root_parsed:
  "parse_client (env_mem sample_env) (get_root @ get_root) True
     (empty_request\<lparr>req_ip := snprint 46 ''127.0.0.1'', req_client_port := 5\<rparr>) s = (Inr (root_request, get_root), s)"
proof -
  have f: "find_sub (cstr (get_root @ get_root)) EOH = Some 14" "find_sub (cstr (get_root @ get_root)) CRLF = Some 14"
    by (simp_all add: get_root_def cstr_def EOH_def find_sub_Cons find_sub_Nil starts_with_def)
  have t: "take 14 (get_root @ get_root) = ''GET / HTTP/1.1''" "drop 18 (get_root @ get_root) = get_root"
    "drop 16 (get_root @ get_root) = CRLF @ get_root" by (simp_all add: get_root_def)
  have l: "parse_request_line ''GET / HTTP/1.1'' (empty_request\<lparr>req_ip := ''127.0.0.1'', req_client_port := 5\<rparr>) = (0, root_request)"
    by (simp add: root_request_def parse_request_line_def limit_defs is_valid_http_version_def strneq_def is_digit_def)
  have h: "parse_headers mem (CRLF @ get_root) no_headers = (0, no_headers)" for mem
    by (simp add: parse_headers.simps)
  have b: "read_body mem s buf n (root_request\<lparr>req_headers := no_headers\<rparr>) = (0, root_request, s)" for mem buf n
    by (simp add: root_request_def read_body_def no_headers_def empty_request_def)
  have i: "snprint 46 ''127.0.0.1'' = ''127.0.0.1''" by simp
  have e: "req_headers root_request = no_headers" "req_body_len root_request = 0" by (simp_all add: root_request_def empty_request_def)
  show ?thesis
    unfolding parse_client_def f option.case t l i
    by (simp only: prod.case e h b t simp_thms if_True if_False add_numeral_left numeral_plus_numeral arith_simps add_0_right refl sum.case)
qed

lemma root_nonempty [simp]: "get_root \<noteq> []"
  by (simp add: get_root_def)

lemma root_served: "handle_request sample_env sample_server ''127.0.0.1'' 5 (root_socket (get_root @ get_root)) =
    serve_request sample_env sample_server root_request get_root \<lparr>inbox = [], sends = [], outbox = []\<rparr>"
  using root_parsed by (simp add: handle_request_def root_read)

lemma root_persists: "fst (serve_request sample_env sample_server root_request get_root s)"
proof -
  have ws: "srv_ws sample_server = []" by (simp add: sample_server_def)
  have f: "parse_forms (env_junk sample_env) root_request = root_request"
    by (simp add: parse_forms_def http_req_body_type_def root_request_def empty_request_def)
  have w: "wants_persist sample_server root_request"
    by (simp add: wants_persist_def sample_server_def request_wants_keep_alive_def http_req_header_def root_request_def empty_request_def no_headers_def)
  have m: "apply_middleware (srv_middlewares sample_server) req res = (True, res)" for req res
    by (simp add: apply_middleware_def sample_server_def)
  obtain a b where d: "dispatch_request sample_env sample_server root_request (announced_response sample_env sample_server True) s get_root = Inr (a, b)"
    using dispatch_no_ws [OF ws] by blast
  show ?thesis by (simp add: serve_request_def f w m d)
qed


theorem protocol_error_isolated_witness:
  "handle_request sample_env (sample_server\<lparr>srv_routes := \<lparr>routes = [], routes_capacity = 0\<rparr>\<rparr>) ''127.0.0.1'' 5 (root_socket ''G'') =
     handle_request sample_env sample_server ''127.0.0.1'' 5 (root_socket ''G'')"
proof -
  have r: "read_request (root_socket ''G'') 4096 = (Some (''G'', False), \<lparr>inbox = [], sends = [], outbox = []\<rparr>)"
    by (simp add: read_request_def read_request_loop.simps recv_def cstr_def EOH_def find_sub_Cons find_sub_Nil starts_with_def)
  have p: "parse_client (env_mem sample_env) ''G'' False (empty_request\<lparr>req_ip := snprint 46 ''127.0.0.1'', req_client_port := 5\<rparr>) s =
      (Inl (431, empty_request\<lparr>req_ip := snprint 46 ''127.0.0.1'', req_client_port := 5\<rparr>), s)" for s
    by (simp add: parse_client_def)
  show ?thesis
    using protocol_error_isolated [OF r _ p, of "sample_server\<lparr>srv_routes := \<lparr>routes = [], routes_capacity = 0\<rparr>\<rparr>" sample_server] by simp
qed

text \<open>A middleware that refuses everything.\<close>

definition guard_server :: HttpServer where
  "guard_server = sample_server\<lparr>srv_middlewares := \<lparr>middlewares =
     [\<lparr>mid_path = None, mid_handler = (\<lambda>req res. (HTTP_MIDDLEWARE_STOP, http_error res 401 None))\<rparr>], middlewares_capacity = 8\<rparr>\<rparr>"

theorem middleware_stop_is_final_witness:
  "serve_request sample_env (guard_server\<lparr>srv_routes := \<lparr>routes = [], routes_capacity = 0\<rparr>\<rparr>) root_request [] \<lparr>inbox = [], sends = [], outbox = []\<rparr> =
     serve_request sample_env guard_server root_request [] \<lparr>inbox = [], sends = [], outbox = []\<rparr>"
proof -
  let ?res = "announced_response sample_env guard_server (wants_persist guard_server (parse_forms (env_junk sample_env) root_request))"
  have m: "run_middlewares (middlewares (srv_middlewares guard_server)) (parse_forms (env_junk sample_env) root_request) ?res =
      (False, http_error ?res 401 None)"
    by (simp add: guard_server_def)
  show ?thesis
    using middleware_stop_is_final [OF m, where rs = "\<lparr>routes = [], routes_capacity = 0\<rparr>" and ms = "srv_mounts guard_server"
        and hp = "srv_heap guard_server" and sm = "srv_static guard_server" and ws = "srv_ws guard_server"]
    by simp
qed

theorem persistence_decided_witness:
  "fst (handle_request sample_env sample_server ''127.0.0.1'' 5 (root_socket (get_root @ get_root))) \<and> srv_keep_alive sample_server"
proof -
  have k: "fst (handle_request sample_env sample_server ''127.0.0.1'' 5 (root_socket (get_root @ get_root)))"
    unfolding root_served by (rule root_persists)
  then obtain s' where "handle_request sample_env sample_server ''127.0.0.1'' 5 (root_socket (get_root @ get_root)) = (True, s')"
    by (metis prod.collapse)
  then show ?thesis using persistence_decided k by blast
qed

theorem pipelined_bytes_lost_witness:
  "\<exists>used. get_root @ get_root =
     used @ get_root @ pending (snd (handle_request sample_env sample_server ''127.0.0.1'' 5 (root_socket (get_root @ get_root))))"
proof -
  have "req_body root_request = None" "srv_ws sample_server = []" by (simp_all add: root_request_def empty_request_def sample_server_def)
  from pipelined_bytes_lost [OF root_read root_parsed this] show ?thesis by (simp add: pending_def)
qed

text \<open>The loop cut off after \<open>k\<close> rounds.\<close>

fun client_rounds :: "nat \<Rightarrow> (nat \<Rightarrow> request_env) \<Rightarrow> nat \<Rightarrow> HttpServer \<Rightarrow> string \<Rightarrow> nat \<Rightarrow> socket \<Rightarrow> socket option" where
  "client_rounds 0 env n srv ip port s = None"
| "client_rounds (Suc k) env n srv ip port s =
     (case handle_request (env n) srv ip port s of
        (persist, s') \<Rightarrow> if persist then client_rounds k env (n + 1) srv ip port s' else Some s')"

text \<open>C12: the keep-alive loop ends: whatever the handlers do, a connection that delivers finitely many bytes, signals and
  timeouts is over after at most one round more than there are of them.\<close>

theorem client_loop_ends:
  "client_rounds (Suc (length (pending s) + length (inbox s))) env n srv ip port s = Some (handle_client env n srv ip port s)"
proof -
  have size: "script_size s \<le> length (pending s) + length (inbox s)" for s :: socket
  proof -
    have e: "event_size e \<le> length (event_bytes e) + 1" for e by (cases e) simp_all
    have "sum_list (map event_size es) \<le> length (concat (map event_bytes es)) + length es" for es
    proof (induction es)
      case (Cons e es)
      then show ?case using add_mono [OF e [of e] Cons.IH] by simp
    qed simp
    then show ?thesis by (simp add: script_size_def pending_def)
  qed
  have "script_size s < k \<Longrightarrow> client_rounds k env n srv ip port s = Some (handle_client env n srv ip port s)" for k
  proof (induction k arbitrary: n s)
    case 0
    then show ?case by simp
  next
    case (Suc k)
    obtain persist s' where h: "handle_request (env n) srv ip port s = (persist, s')" by fastforce
    then show ?case
      using Suc handle_request_consumes [of "env n" srv ip port s s']
      by (cases persist) (auto simp: handle_client.simps [of env n])
  qed
  then show ?thesis using size [of s] by (simp add: less_Suc_eq_le del: client_rounds.simps)
qed

end
