(* ===== verification/Lifecycle.thy ===== *)
theory Lifecycle
  imports Server
begin

text \<open>
  The life of a server: \<^verbatim>\<open>http_create_server\<close> and \<^verbatim>\<open>http_close_server\<close> with the descriptors they hold, and the threads
  of \<^verbatim>\<open>http_listen\<close>: the accept loop, \<^verbatim>\<open>spawn_worker\<close>, \<^verbatim>\<open>worker_main\<close>, \<^verbatim>\<open>http_stop_server\<close> and the drain in
  \<^verbatim>\<open>worker_state_free\<close> as a step relation over all interleavings. The lemmas show the bound on the workers, that the server is not
  freed under a worker, that a connection is closed exactly once, and that draining ends.
\<close>

section \<open>Creating and closing\<close>

record ServerArgs =
  arg_port :: nat
  arg_bind_addr :: "string option"
  arg_server_name :: "string option"
  arg_worker_threads :: nat
  arg_keep_alive :: bool

text \<open>The outcomes of the system calls: the descriptor of \<^verbatim>\<open>socket\<close>, and whether the others succeed.\<close>

record os_outcome =
  os_socket :: "int option"
  os_getaddrinfo :: bool
  os_bind :: bool
  os_listen :: bool
  os_mutex :: bool
  os_cond :: bool

definition zero_server :: HttpServer where
  "zero_server =
     \<lparr>srv_port = 0, srv_bind_addr = [], srv_fd = - 1, srv_listening = False, srv_keep_alive = False,
      srv_routes = \<lparr>routes = [], routes_capacity = 0\<rparr>, srv_middlewares = \<lparr>middlewares = [], middlewares_capacity = 0\<rparr>,
      srv_encoders = \<lparr>encoders = [], encoders_capacity = 0\<rparr>, srv_name = None, srv_static = [], srv_error_handler = None,
      srv_mounts = [], srv_heap = (\<lambda>_. None), srv_threads = None, srv_ws = []\<rparr>"

definition http_ws_routes_free :: "HttpServer \<Rightarrow> HttpServer" where
  "http_ws_routes_free srv = srv\<lparr>srv_ws := []\<rparr>"

text \<open>\<open>fds\<close> is the set of open descriptors. The workers have been waited for (see below); mounted routers die with the server.\<close>

definition http_close_server :: "HttpServer \<Rightarrow> int set \<Rightarrow> HttpServer \<times> int set" where
  "http_close_server srv fds =
     (let fds1 = (if srv_fd srv \<ge> 0 then fds - {srv_fd srv} else fds);
          srv1 = srv\<lparr>srv_threads := None, srv_fd := (if srv_fd srv \<ge> 0 then - 1 else srv_fd srv),
            srv_routes := \<lparr>routes = [], routes_capacity = 0\<rparr>,
            srv_middlewares := \<lparr>middlewares = [], middlewares_capacity = 0\<rparr>,
            srv_encoders := \<lparr>encoders = [], encoders_capacity = 0\<rparr>,
            srv_static := http_static_mounts_free (srv_static srv)\<rparr>;
          srv2 = http_ws_routes_free srv1
      in (srv2\<lparr>srv_heap := (\<lambda>r. if r \<in> mount_router ` set (srv_mounts srv) then None else srv_heap srv r),
               srv_mounts := [], srv_name := None\<rparr>, fds1))"

text \<open>
  \<^verbatim>\<open>sizeof(WorkerState)\<close> is 104. \<open>gz\<close> and \<open>ident\<close> are the two built-in encoders; \<open>heap\<close> holds the routers the application has
  created before.
\<close>

definition http_create_server ::
  "allocator \<Rightarrow> os_outcome \<Rightarrow> HttpEncoder \<Rightarrow> HttpEncoder \<Rightarrow> router_heap \<Rightarrow> ServerArgs option \<Rightarrow> HttpServer \<Rightarrow> int set
     \<Rightarrow> HttpServerResult \<times> HttpServer \<times> int set" where
  "http_create_server mem os gz ident heap args out0 fds0 =
     (case args of
        None \<Rightarrow> (SERVER_ERROR, out0, fds0)
      | Some a \<Rightarrow>
          (case (arg_bind_addr a, arg_server_name a) of
             (Some addr, Some name) \<Rightarrow>
               let out = zero_server\<lparr>srv_heap := heap\<rparr>
               in case os_socket os of
                    None \<Rightarrow> (SERVER_ERROR, out, fds0)
                  | Some fd \<Rightarrow>
                      let fds = insert fd fds0
                      in if \<not> os_getaddrinfo os then (SERVER_ERROR, out, fds - {fd})
                         else if \<not> os_bind os then (SERVER_ERROR, out, fds - {fd})
                         else if \<not> os_listen os then (SERVER_ERROR, out, fds - {fd})
                         else if \<not> mem (8 * 48) then (SERVER_ERROR, out, fds - {fd})
                         else
                           let out1 = out\<lparr>srv_routes := \<lparr>routes = [], routes_capacity = 8\<rparr>\<rparr>
                           in if \<not> mem (length name + 1) then (SERVER_ERROR, out1, fds - {fd})
                              else
                                let es = snd (http_register_encoder mem
                                           (snd (http_register_encoder mem \<lparr>encoders = [], encoders_capacity = 0\<rparr> gz)) ident);
                                    out2 = out1\<lparr>srv_name := Some name, srv_encoders := es, srv_keep_alive := arg_keep_alive a\<rparr>
                                in if arg_worker_threads a > 0 \<and> (\<not> mem 104 \<or> \<not> os_mutex os \<or> \<not> os_cond os)
                                   then (case http_close_server out2 fds of (out3, fds3) \<Rightarrow> (SERVER_ERROR, out3, fds3))
                                   else
                                     (SERVER_OK,
                                      out2\<lparr>srv_threads := (if arg_worker_threads a > 0 then Some (arg_worker_threads a) else None),
                                           srv_port := arg_port a, srv_bind_addr := addr, srv_listening := False, srv_fd := fd\<rparr>,
                                      fds)
           | _ \<Rightarrow> (SERVER_ERROR, out0, fds0)))"

text \<open>The flag; the shutdown of the socket that goes with it makes the blocked \<^verbatim>\<open>accept\<close> fail.\<close>

definition http_stop_server :: "HttpServer \<Rightarrow> HttpServer" where
  "http_stop_server srv = srv\<lparr>srv_listening := False\<rparr>"

section \<open>Threads\<close>

text \<open>
  Where a worker stands in \<^verbatim>\<open>worker_main\<close>: in \<^verbatim>\<open>handle_client\<close>, before \<^verbatim>\<open>xclose_fd\<close>, before the locked count-down, before
  \<^verbatim>\<open>free(args)\<close>, or gone.
\<close>

datatype worker_pc = W_serve | W_close | W_count | W_free | W_gone

text \<open>
  Where the thread of \<^verbatim>\<open>http_listen\<close> stands: in the accept loop, in \<^verbatim>\<open>spawn_worker\<close> before the lock, between the count and
  \<^verbatim>\<open>pthread_create\<close>, handling a connection itself, back in the caller, waiting in \<^verbatim>\<open>worker_state_free\<close>, or after the
  server was freed.
\<close>

datatype main_pc = M_accept | M_spawn nat | M_create nat | M_inline nat | M_returned | M_drain | M_freed

text \<open>\<open>t_threads\<close>: \<^verbatim>\<open>thread_state != NULL\<close>. A worker that is gone keeps its place in the list.\<close>

record threads =
  t_main :: main_pc
  t_workers :: "(nat \<times> worker_pc) list"
  t_active :: nat
  t_limit :: nat
  t_threads :: bool
  t_listening :: bool
  t_open :: "nat set"

inductive thread_step :: "threads \<Rightarrow> threads \<Rightarrow> bool" where
  accept_connection: "t_main t = M_accept \<Longrightarrow> t_listening t \<Longrightarrow> fd \<notin> t_open t \<Longrightarrow>
    thread_step t (t\<lparr>t_main := M_spawn fd, t_open := insert fd (t_open t)\<rparr>)"
| accept_retry: "t_main t = M_accept \<Longrightarrow> t_listening t \<Longrightarrow> thread_step t t"
| accept_over: "t_main t = M_accept \<Longrightarrow> thread_step t (t\<lparr>t_main := M_returned\<rparr>)"
| spawn_iterative: "t_main t = M_spawn fd \<Longrightarrow> \<not> t_threads t \<Longrightarrow> thread_step t (t\<lparr>t_main := M_inline fd\<rparr>)"
| spawn_no_memory: "t_main t = M_spawn fd \<Longrightarrow> thread_step t (t\<lparr>t_main := M_inline fd\<rparr>)"
| spawn_full: "t_main t = M_spawn fd \<Longrightarrow> t_threads t \<Longrightarrow> t_active t \<ge> t_limit t \<Longrightarrow>
    thread_step t (t\<lparr>t_main := M_inline fd\<rparr>)"
| spawn_count: "t_main t = M_spawn fd \<Longrightarrow> t_threads t \<Longrightarrow> \<not> t_active t \<ge> t_limit t \<Longrightarrow>
    thread_step t (t\<lparr>t_main := M_create fd, t_active := t_active t + 1\<rparr>)"
| create_ok: "t_main t = M_create fd \<Longrightarrow>
    thread_step t (t\<lparr>t_main := M_accept, t_workers := t_workers t @ [(fd, W_serve)]\<rparr>)"
| create_failed: "t_main t = M_create fd \<Longrightarrow>
    thread_step t (t\<lparr>t_main := M_inline fd, t_active := t_active t - 1\<rparr>)"
| inline_done: "t_main t = M_inline fd \<Longrightarrow>
    thread_step t (t\<lparr>t_main := M_accept, t_open := t_open t - {fd}\<rparr>)"
| worker_served: "i < length (t_workers t) \<Longrightarrow> t_workers t ! i = (fd, W_serve) \<Longrightarrow>
    thread_step t (t\<lparr>t_workers := (t_workers t)[i := (fd, W_close)]\<rparr>)"
| worker_closes: "i < length (t_workers t) \<Longrightarrow> t_workers t ! i = (fd, W_close) \<Longrightarrow>
    thread_step t (t\<lparr>t_workers := (t_workers t)[i := (fd, W_count)], t_open := t_open t - {fd}\<rparr>)"
| worker_counts: "i < length (t_workers t) \<Longrightarrow> t_workers t ! i = (fd, W_count) \<Longrightarrow>
    thread_step t (t\<lparr>t_workers := (t_workers t)[i := (fd, W_free)],
      t_active := (if t_threads t \<and> t_active t > 0 then t_active t - 1 else t_active t)\<rparr>)"
| worker_exits: "i < length (t_workers t) \<Longrightarrow> t_workers t ! i = (fd, W_free) \<Longrightarrow>
    thread_step t (t\<lparr>t_workers := (t_workers t)[i := (fd, W_gone)]\<rparr>)"
| stop: "thread_step t (t\<lparr>t_listening := False\<rparr>)"
| close_called: "t_main t = M_returned \<Longrightarrow> thread_step t (t\<lparr>t_main := M_drain\<rparr>)"
| drained: "t_main t = M_drain \<Longrightarrow> t_active t = 0 \<or> \<not> t_threads t \<Longrightarrow>
    thread_step t (t\<lparr>t_main := M_freed, t_threads := False\<rparr>)"

inductive thread_run :: "threads \<Rightarrow> threads \<Rightarrow> bool" where
  run_start: "thread_run t t"
| run_next: "thread_run t t1 \<Longrightarrow> thread_step t1 t2 \<Longrightarrow> thread_run t t2"

definition start_threads :: "nat \<Rightarrow> threads" where
  "start_threads n =
     \<lparr>t_main = M_accept, t_workers = [], t_active = 0, t_limit = n, t_threads = (n > 0), t_listening = True, t_open = {}\<rparr>"

section \<open>The thread invariant\<close>

inductive_cases thread_step_cases: "thread_step t t'"

definition busy_pc :: "worker_pc \<Rightarrow> bool" where
  "busy_pc pc \<longleftrightarrow> pc \<in> {W_serve, W_close, W_count}"

definition holds_fd :: "worker_pc \<Rightarrow> bool" where
  "holds_fd pc \<longleftrightarrow> pc \<in> {W_serve, W_close}"

definition busy :: "threads \<Rightarrow> nat" where
  "busy t = length (filter (\<lambda>w. busy_pc (snd w)) (t_workers t))"

fun main_fds :: "main_pc \<Rightarrow> nat list" where
  "main_fds (M_spawn fd) = [fd]"
| "main_fds (M_create fd) = [fd]"
| "main_fds (M_inline fd) = [fd]"
| "main_fds _ = []"

definition owners :: "threads \<Rightarrow> nat list" where
  "owners t = main_fds (t_main t) @ map fst (filter (\<lambda>w. holds_fd (snd w)) (t_workers t))"

definition creating :: "main_pc \<Rightarrow> nat" where
  "creating pc = (case pc of M_create fd \<Rightarrow> 1 | _ \<Rightarrow> 0)"

definition thread_inv :: "threads \<Rightarrow> bool" where
  "thread_inv t \<longleftrightarrow>
     t_active t = busy t + creating (t_main t) \<and> t_active t \<le> t_limit t \<and>
     (t_main t = M_freed \<or> \<not> t_threads t \<longrightarrow> t_active t = 0) \<and>
     distinct (owners t) \<and> set (owners t) = t_open t"

lemma filter_update:
  assumes "i < length xs"
  shows "filter P (xs[i := x]) = filter P (take i xs) @ (if P x then [x] else []) @ filter P (drop (Suc i) xs)"
    and "filter P xs = filter P (take i xs) @ (if P (xs ! i) then [xs ! i] else []) @ filter P (drop (Suc i) xs)"
proof -
  show "filter P (xs[i := x]) = filter P (take i xs) @ (if P x then [x] else []) @ filter P (drop (Suc i) xs)"
    using assms by (simp add: upd_conv_take_nth_drop)
  show "filter P xs = filter P (take i xs) @ (if P (xs ! i) then [xs ! i] else []) @ filter P (drop (Suc i) xs)"
    by (subst id_take_nth_drop [OF assms]) simp
qed

text \<open>A worker moves on: what the step does to the count and to the owned descriptors.\<close>

lemma worker_moves:
  assumes "i < length (t_workers t)" and "t_workers t ! i = (fd, pc)"
  shows "busy (t\<lparr>t_workers := (t_workers t)[i := (fd, pc')]\<rparr>) + (if busy_pc pc then 1 else 0) = busy t + (if busy_pc pc' then 1 else 0)"
    and "holds_fd pc = holds_fd pc' \<Longrightarrow> owners (t\<lparr>t_workers := (t_workers t)[i := (fd, pc')]\<rparr>) = owners t"
    and "holds_fd pc \<Longrightarrow> \<not> holds_fd pc' \<Longrightarrow> distinct (owners t) \<Longrightarrow>
      distinct (owners (t\<lparr>t_workers := (t_workers t)[i := (fd, pc')]\<rparr>)) \<and>
      set (owners (t\<lparr>t_workers := (t_workers t)[i := (fd, pc')]\<rparr>)) = set (owners t) - {fd}"
proof -
  let ?ws = "t_workers t"
  note b = filter_update [OF assms(1), of "\<lambda>w. busy_pc (snd w)"] and h = filter_update [OF assms(1), of "\<lambda>w. holds_fd (snd w)"]
  show "busy (t\<lparr>t_workers := ?ws[i := (fd, pc')]\<rparr>) + (if busy_pc pc then 1 else 0) = busy t + (if busy_pc pc' then 1 else 0)"
    using b(1) [of "(fd, pc')"] b(2) assms(2) by (simp add: busy_def)
  show "holds_fd pc = holds_fd pc' \<Longrightarrow> owners (t\<lparr>t_workers := ?ws[i := (fd, pc')]\<rparr>) = owners t"
    using h(1) [of "(fd, pc')"] h(2) assms(2) by (simp add: owners_def)
  show "holds_fd pc \<Longrightarrow> \<not> holds_fd pc' \<Longrightarrow> distinct (owners t) \<Longrightarrow>
      distinct (owners (t\<lparr>t_workers := ?ws[i := (fd, pc')]\<rparr>)) \<and>
      set (owners (t\<lparr>t_workers := ?ws[i := (fd, pc')]\<rparr>)) = set (owners t) - {fd}"
    using h(1) [of "(fd, pc')"] h(2) assms(2) by (auto simp: owners_def)
qed

lemma busy_positive:
  "i < length (t_workers t) \<Longrightarrow> t_workers t ! i = (fd, pc) \<Longrightarrow> busy_pc pc \<Longrightarrow> 0 < busy t"
  by (auto simp: busy_def filter_empty_conv in_set_conv_nth intro!: bexI)

lemma busy_simps [simp]:
  "busy (t\<lparr>t_main := m\<rparr>) = busy t" "busy (t\<lparr>t_active := n\<rparr>) = busy t" "busy (t\<lparr>t_open := X\<rparr>) = busy t"
  "busy (t\<lparr>t_listening := b\<rparr>) = busy t" "busy (t\<lparr>t_threads := b\<rparr>) = busy t"
  "busy (t\<lparr>t_workers := ws @ [(fd, W_serve)]\<rparr>) = busy (t\<lparr>t_workers := ws\<rparr>) + 1"
  by (simp_all add: busy_def busy_pc_def)

lemma owners_simps [simp]:
  "owners (t\<lparr>t_active := n\<rparr>) = owners t" "owners (t\<lparr>t_open := X\<rparr>) = owners t"
  "owners (t\<lparr>t_listening := b\<rparr>) = owners t" "owners (t\<lparr>t_threads := b\<rparr>) = owners t"
  by (simp_all add: owners_def)

lemma owners_main: "owners (t\<lparr>t_main := m\<rparr>) = main_fds m @ map fst (filter (\<lambda>w. holds_fd (snd w)) (t_workers t))"
  by (simp add: owners_def)

lemmas pc_simps = busy_pc_def holds_fd_def

lemma thread_step_inv: "thread_step t t' \<Longrightarrow> thread_inv t \<Longrightarrow> thread_inv t'"
proof (induction rule: thread_step.induct)
  case (worker_served i t fd)
  note m = worker_moves [OF worker_served.hyps, of W_close]
  then show ?case using worker_served.prems by (auto simp: thread_inv_def pc_simps)
next
  case (worker_closes i t fd)
  note m = worker_moves [OF worker_closes.hyps, of W_count]
  then show ?case using worker_closes.prems by (auto simp: thread_inv_def pc_simps)
next
  case (worker_counts i t fd)
  note m = worker_moves [OF worker_counts.hyps, of W_free]
  have "0 < busy t" using busy_positive [OF worker_counts.hyps] by (simp add: pc_simps)
  then have "t_threads t" "0 < t_active t" "t_main t \<noteq> M_freed" using worker_counts.prems by (auto simp: thread_inv_def)
  then show ?case using m worker_counts.prems by (auto simp: thread_inv_def pc_simps)
next
  case (worker_exits i t fd)
  note m = worker_moves [OF worker_exits.hyps, of W_gone]
  then show ?case using worker_exits.prems by (auto simp: thread_inv_def pc_simps)
next
  case (create_ok t fd)
  then show ?case by (auto simp: thread_inv_def owners_def busy_def creating_def pc_simps)
next
  case (inline_done t fd)
  then show ?case by (auto simp: thread_inv_def owners_def creating_def)
qed (auto simp: thread_inv_def owners_def creating_def split: main_pc.splits)

lemma thread_run_inv: "thread_run (start_threads n) t \<Longrightarrow> thread_inv t"
proof (induction "start_threads n" t rule: thread_run.induct)
  case run_start
  show ?case by (simp add: thread_inv_def start_threads_def busy_def owners_def creating_def)
next
  case (run_next t1 t2)
  then show ?case by (blast intro: thread_step_inv)
qed

lemma thread_limit: "thread_run t t' \<Longrightarrow> t_limit t' = t_limit t"
  by (induction rule: thread_run.induct) (auto elim!: thread_step.cases)

section \<open>Draining\<close>

fun left_pc :: "worker_pc \<Rightarrow> nat" where
  "left_pc W_serve = 4"
| "left_pc W_close = 3"
| "left_pc W_count = 2"
| "left_pc W_free = 1"
| "left_pc W_gone = 0"

definition work :: "threads \<Rightarrow> nat" where
  "work t = sum_list (map (\<lambda>w. left_pc (snd w)) (t_workers t))"

lemma work_moves:
  assumes "i < length (t_workers t)" and "t_workers t ! i = (fd, pc)"
  shows "work (t\<lparr>t_workers := (t_workers t)[i := (fd, pc')]\<rparr>) + left_pc pc = work t + left_pc pc'"
proof -
  have "t_workers t = take i (t_workers t) @ (fd, pc) # drop (Suc i) (t_workers t)"
    using id_take_nth_drop [OF assms(1)] assms(2) by simp
  then have "work t = sum_list (map (\<lambda>w. left_pc (snd w)) (take i (t_workers t))) + left_pc pc +
      sum_list (map (\<lambda>w. left_pc (snd w)) (drop (Suc i) (t_workers t)))"
    unfolding work_def by (metis (no_types, lifting) add.assoc list.simps(9) map_append snd_conv sum_list.Cons sum_list.append)
  moreover have "work (t\<lparr>t_workers := (t_workers t)[i := (fd, pc')]\<rparr>) =
      sum_list (map (\<lambda>w. left_pc (snd w)) (take i (t_workers t))) + left_pc pc' +
      sum_list (map (\<lambda>w. left_pc (snd w)) (drop (Suc i) (t_workers t)))"
    using assms(1) by (simp add: work_def upd_conv_take_nth_drop)
  ultimately show ?thesis by simp
qed

lemma work_simps [simp]:
  "work (t\<lparr>t_main := m\<rparr>) = work t" "work (t\<lparr>t_active := n\<rparr>) = work t" "work (t\<lparr>t_open := X\<rparr>) = work t"
  "work (t\<lparr>t_listening := b\<rparr>) = work t" "work (t\<lparr>t_threads := b\<rparr>) = work t"
  by (simp_all add: work_def)

lemma busy_worker: "0 < busy t \<Longrightarrow> \<exists>i fd pc. i < length (t_workers t) \<and> t_workers t ! i = (fd, pc) \<and> busy_pc pc"
  by (auto simp: busy_def filter_empty_conv in_set_conv_nth) (metis surj_pair snd_conv)

lemma worker_can_move:
  assumes "i < length (t_workers t)" and "t_workers t ! i = (fd, pc)" and "busy_pc pc"
  shows "\<exists>t'. thread_step t t' \<and> t_main t' = t_main t \<and> work t' < work t"
proof -
  consider "pc = W_serve" | "pc = W_close" | "pc = W_count" using assms(3) by (auto simp: busy_pc_def)
  then show ?thesis
  proof cases
    case 1
    then show ?thesis using worker_served assms(1,2) work_moves [OF assms(1,2), of W_close] by fastforce
  next
    case 2
    then show ?thesis using worker_closes assms(1,2) work_moves [OF assms(1,2), of W_count] by fastforce
  next
    case 3
    then show ?thesis using worker_counts assms(1,2) work_moves [OF assms(1,2), of W_free] by fastforce
  qed
qed

lemma busy_none: "busy t = 0 \<longleftrightarrow> (\<forall>w \<in> set (t_workers t). snd w \<in> {W_free, W_gone})"
proof -
  have "\<not> busy_pc pc \<longleftrightarrow> pc \<in> {W_free, W_gone}" for pc by (cases pc) (simp_all add: busy_pc_def)
  then show ?thesis by (simp add: busy_def filter_empty_conv)
qed

lemma thread_run_first: "thread_run t1 t2 \<Longrightarrow> thread_step t t1 \<Longrightarrow> thread_run t t2"
  by (induction rule: thread_run.induct) (meson run_start run_next)+

lemma drain_reaches_freed:
  "thread_inv t \<Longrightarrow> t_main t = M_drain \<Longrightarrow> \<exists>t'. thread_run t t' \<and> t_main t' = M_freed"
proof (induction "work t" arbitrary: t rule: less_induct)
  case less
  show ?case
  proof (cases "busy t = 0")
    case True
    then have "t_active t = 0" using less.prems by (simp add: thread_inv_def creating_def)
    then have "thread_step t (t\<lparr>t_main := M_freed, t_threads := False\<rparr>)" using drained less.prems(2) by blast
    then show ?thesis using run_next [OF run_start] by fastforce
  next
    case False
    then obtain i fd pc where "i < length (t_workers t)" "t_workers t ! i = (fd, pc)" "busy_pc pc"
      using busy_worker by blast
    from worker_can_move [OF this] obtain t1 where t1: "thread_step t t1" "t_main t1 = M_drain" "work t1 < work t"
      using less.prems(2) by auto
    obtain t' where t': "thread_run t1 t'" "t_main t' = M_freed"
      using less.hyps [OF t1(3) thread_step_inv [OF t1(1) less.prems(1)] t1(2)] by blast
    then show ?thesis using thread_run_first [OF t'(1) t1(1)] by blast
  qed
qed

lemma drain_step_ranks:
  "thread_step t t' \<Longrightarrow> t_main t = M_drain \<Longrightarrow>
     t_main t' = M_freed \<or> t' = t\<lparr>t_listening := False\<rparr> \<or> (t_main t' = M_drain \<and> work t' < work t)"
proof (induction rule: thread_step.induct)
  case (worker_served i t fd)
  then show ?case using work_moves [OF worker_served.hyps, of W_close] by simp
next
  case (worker_closes i t fd)
  then show ?case using work_moves [OF worker_closes.hyps, of W_count] by simp
next
  case (worker_counts i t fd)
  then show ?case using work_moves [OF worker_counts.hyps, of W_free] by simp
next
  case (worker_exits i t fd)
  then show ?case using work_moves [OF worker_exits.hyps, of W_gone] by simp
qed auto

section \<open>Properties\<close>

text \<open>C10: in every interleaving of the accept loop and its workers, at most the configured number of workers run,
  every open connection belongs to exactly one thread, so that it is closed exactly once, and after the server has been freed no worker
  is left that still uses it.\<close>

theorem threads_safe:
  assumes "thread_run (start_threads n) t"
  shows "length (filter (\<lambda>w. snd w \<in> {W_serve, W_close, W_count}) (t_workers t)) \<le> n \<and>
    distinct (owners t) \<and> set (owners t) = t_open t \<and>
    (t_main t = M_freed \<longrightarrow> (\<forall>w \<in> set (t_workers t). snd w \<in> {W_free, W_gone}))"
proof -
  have inv: "thread_inv t" by (rule thread_run_inv [OF assms])
  have "t_limit t = n" using thread_limit [OF assms] by (simp add: start_threads_def)
  then have "busy t \<le> n" using inv by (simp add: thread_inv_def)
  moreover have "t_main t = M_freed \<longrightarrow> busy t = 0" using inv by (auto simp: thread_inv_def)
  ultimately show ?thesis using inv busy_none [of t] by (auto simp: thread_inv_def busy_def busy_pc_def)
qed

theorem threads_safe_witness:
  "\<exists>t. thread_run (start_threads 1) t \<and> t_main t = M_spawn 8 \<and> t_workers t = [(7, W_serve)] \<and> set (owners t) = {7, 8} \<and> t_open t = {7, 8}"
proof -
  define t0 where "t0 = start_threads 1"
  define t1 where "t1 = t0\<lparr>t_main := M_spawn 7, t_open := insert 7 (t_open t0)\<rparr>"
  define t2 where "t2 = t1\<lparr>t_main := M_create 7, t_active := t_active t1 + 1\<rparr>"
  define t3 where "t3 = t2\<lparr>t_main := M_accept, t_workers := t_workers t2 @ [(7, W_serve)]\<rparr>"
  define t4 where "t4 = t3\<lparr>t_main := M_spawn 8, t_open := insert 8 (t_open t3)\<rparr>"
  note ds = t4_def t3_def t2_def t1_def t0_def start_threads_def
  have "thread_step t0 t1" unfolding t1_def by (rule accept_connection) (simp_all add: ds)
  moreover have "thread_step t1 t2" unfolding t2_def by (rule spawn_count) (simp_all add: ds)
  moreover have "thread_step t2 t3" unfolding t3_def by (rule create_ok) (simp add: ds)
  moreover have "thread_step t3 t4" unfolding t4_def by (rule accept_connection) (simp_all add: ds)
  ultimately have r: "thread_run (start_threads 1) t4"
    unfolding t0_def by (meson run_start run_next)
  show ?thesis using threads_safe [OF r] r by (intro exI [of _ t4]) (auto simp: ds)
qed



text \<open>If the worker state cannot be set up, \<^verbatim>\<open>http_create_server\<close> reports an error but leaves the listening
  socket open: the server it closes does not know the descriptor yet. Every other failure leaves no descriptor
  behind, and success exactly the one of the server.\<close>

theorem create_server_descriptors:
  assumes "os_socket os = Some fd" and "fd \<notin> fds" and "0 \<le> fd"
    and "http_create_server mem os gz ident heap (Some a) out0 fds = (r, srv, fds')"
  shows "(r = SERVER_OK \<longrightarrow> fds' = insert fd fds \<and> srv_fd srv = fd \<and> snd (http_close_server srv fds') = fds) \<and>
    (r = SERVER_ERROR \<longrightarrow>
       fds' = (if arg_bind_addr a \<noteq> None \<and> arg_server_name a \<noteq> None \<and> os_getaddrinfo os \<and> os_bind os \<and> os_listen os \<and>
                  mem 384 \<and> mem (length (the (arg_server_name a)) + 1)
               then insert fd fds else fds))"
  using assms
  by (auto simp: http_create_server_def http_close_server_def http_ws_routes_free_def zero_server_def Let_def
      split: option.splits if_splits)

theorem create_server_descriptors_witness:
  "\<exists>srv. http_create_server (\<lambda>n. n \<noteq> 104)
      \<lparr>os_socket = Some 3, os_getaddrinfo = True, os_bind = True, os_listen = True, os_mutex = True, os_cond = True\<rparr>
      \<lparr>enc_name = ''gzip'', encode = (\<lambda>_. None)\<rparr> \<lparr>enc_name = ''identity'', encode = Some\<rparr> (\<lambda>_. None)
      (Some \<lparr>arg_port = 80, arg_bind_addr = Some ''localhost'', arg_server_name = Some ''s'', arg_worker_threads = 4, arg_keep_alive = True\<rparr>)
      zero_server {} = (SERVER_ERROR, srv, {3})"
proof -
  let ?c = "http_create_server (\<lambda>n. n \<noteq> 104)
      \<lparr>os_socket = Some 3, os_getaddrinfo = True, os_bind = True, os_listen = True, os_mutex = True, os_cond = True\<rparr>
      \<lparr>enc_name = ''gzip'', encode = (\<lambda>_. None)\<rparr> \<lparr>enc_name = ''identity'', encode = Some\<rparr> (\<lambda>_. None)
      (Some \<lparr>arg_port = 80, arg_bind_addr = Some ''localhost'', arg_server_name = Some ''s'', arg_worker_threads = 4, arg_keep_alive = True\<rparr>)
      zero_server {}"
  have "fst ?c = SERVER_ERROR" by (simp add: http_create_server_def http_close_server_def split_def Let_def)
  then obtain srv fds' where c: "?c = (SERVER_ERROR, srv, fds')" by (metis prod.collapse)
  from create_server_descriptors [OF _ _ _ c] have "fds' = {3}" by simp
  with c show ?thesis by blast
qed

end
