(* ===== verification/Tpl.thy ===== *)
theory Tpl
  imports Response "HOL-Library.Sublist"
begin

text \<open>
  The template runtime of \<^verbatim>\<open>c_http_tpl.c\<close>: the growable output buffer with its sticky failure flag, the
  scratch arena, HTML escaping, fragments, the once registry and the hand-over to the response. A component
  is a sequence of calls of these functions; the lemmas relate what it writes to the text it means.

  The \<^verbatim>\<open>TplOut\<close> is a live struct; the NULL guards of the functions for it return at once and are left out,
  those for strings, names and handles are options. The field \<^verbatim>\<open>ctx\<close> is never read or written here and is left out. \<^verbatim>\<open>data\<close> is NULL or the bytes written so far, whose
  length is the field \<^verbatim>\<open>len\<close>. The contents of an arena block are the strings handed out; the model keeps the bookkeeping
  of the blocks, newest first, and an allocation is a block number, oldest first, with an offset into the payload.
\<close>

section \<open>State\<close>

record TplArenaBlock =
  blk_used :: nat
  blk_cap :: nat

record TplOut =
  out_data :: "char list option"
  out_cap :: nat
  out_failed :: bool
  out_arena :: "TplArenaBlock list"
  frag_sel :: "string option"
  frag_depth :: int
  frag_match :: int
  once_at :: "(nat \<times> nat) option"
  once_fired :: "nat list"

definition empty_out :: TplOut where
  "empty_out = \<lparr>out_data = None, out_cap = 0, out_failed = False, out_arena = [], frag_sel = None,
     frag_depth = 0, frag_match = 0, once_at = None, once_fired = []\<rparr>"

definition out_bytes :: "TplOut \<Rightarrow> char list" where
  "out_bytes out = (case out_data out of None \<Rightarrow> [] | Some b \<Rightarrow> b)"

section \<open>Arena\<close>

text \<open>\<^verbatim>\<open>sizeof(TplArenaBlock)\<close> is 24.\<close>

definition TPL_ARENA_BLOCK_SIZE :: nat where "TPL_ARENA_BLOCK_SIZE = 512"

definition arena_alloc :: "allocator \<Rightarrow> TplOut \<Rightarrow> nat \<Rightarrow> (nat \<times> nat) option \<times> TplOut" where
  "arena_alloc mem out n =
     (let full = (case out_arena out of [] \<Rightarrow> True | b # bs \<Rightarrow> blk_cap b - blk_used b < n);
          cap = (if n > TPL_ARENA_BLOCK_SIZE then n else TPL_ARENA_BLOCK_SIZE)
      in if full \<and> \<not> mem (24 + cap) then (None, out\<lparr>out_failed := True\<rparr>)
         else
           (case (if full then \<lparr>blk_used = 0, blk_cap = cap\<rparr> # out_arena out else out_arena out) of
              [] \<Rightarrow> (None, out)
            | b # bs \<Rightarrow>
                (Some (length bs, blk_used b), out\<lparr>out_arena := b\<lparr>blk_used := blk_used b + n\<rparr> # bs\<rparr>)))"

definition tpl_out_free :: "TplOut \<Rightarrow> TplOut" where
  "tpl_out_free out = empty_out"

section \<open>Buffer writes\<close>

text \<open>The doubling loop; its capacity is never 0.\<close>

function double_cap :: "nat \<Rightarrow> nat \<Rightarrow> nat" where
  "double_cap new_cap need =
     (if new_cap = 0 \<or> \<not> new_cap < need then new_cap
      else if new_cap > SIZE_MAX div 2 then need
      else double_cap (new_cap * 2) need)"
  by pat_completeness auto
termination by (relation "measure (\<lambda>(c, n). n - c)") auto

declare double_cap.simps [simp del]

definition buf_reserve :: "allocator \<Rightarrow> TplOut \<Rightarrow> nat \<Rightarrow> bool \<times> TplOut" where
  "buf_reserve mem out n =
     (if out_failed out then (False, out)
      else if n > SIZE_MAX - length (out_bytes out) then (False, out\<lparr>out_failed := True\<rparr>)
      else
        let need = length (out_bytes out) + n
        in if need \<le> out_cap out then (True, out)
           else
             let new_cap = double_cap (if out_cap out = 0 then 256 else out_cap out) need
             in if \<not> mem new_cap then (False, out\<lparr>out_failed := True\<rparr>)
                else (True, out\<lparr>out_data := Some (out_bytes out), out_cap := new_cap\<rparr>))"

definition tpl_lit_n :: "allocator \<Rightarrow> TplOut \<Rightarrow> char list option \<Rightarrow> nat \<Rightarrow> TplOut" where
  "tpl_lit_n mem out s n =
     (case s of
        None \<Rightarrow> out
      | Some bs \<Rightarrow>
          if n = 0 then out
          else if frag_sel out \<noteq> None \<and> frag_match out \<le> 0 then out
          else
            (case buf_reserve mem out n of
               (False, out1) \<Rightarrow> out1
             | (True, out1) \<Rightarrow> out1\<lparr>out_data := Some (out_bytes out1 @ take n bs)\<rparr>))"

definition tpl_lit :: "allocator \<Rightarrow> TplOut \<Rightarrow> string option \<Rightarrow> TplOut" where
  "tpl_lit mem out s = (case s of None \<Rightarrow> out | Some t \<Rightarrow> tpl_lit_n mem out s (length t))"

definition tpl_raw :: "allocator \<Rightarrow> TplOut \<Rightarrow> string option \<Rightarrow> TplOut" where
  "tpl_raw mem out s = tpl_lit mem out s"

definition tpl_raw_n :: "allocator \<Rightarrow> TplOut \<Rightarrow> char list option \<Rightarrow> nat \<Rightarrow> TplOut" where
  "tpl_raw_n mem out s n = tpl_lit_n mem out s n"

section \<open>Escaping\<close>

definition TPL_ESCAPE_CHARS :: string where
  "TPL_ESCAPE_CHARS = [CHR ''&'', CHR ''<'', CHR ''>'', DQUOTE, CHR 0x27]"

definition tpl_entities :: "char \<Rightarrow> (string \<times> nat) option" where
  "tpl_entities c =
     (if c = CHR ''&'' then Some (''&amp;'', 5)
      else if c = CHR ''<'' then Some (''&lt;'', 4)
      else if c = CHR ''>'' then Some (''&gt;'', 4)
      else if c = DQUOTE then Some (''&#34;'', 5)
      else if c = CHR 0x27 then Some (''&#39;'', 5)
      else None)"

text \<open>A position without an entry in the table has the entity NULL with the length 0, which writes nothing.\<close>

definition write_entity :: "allocator \<Rightarrow> TplOut \<Rightarrow> char \<Rightarrow> TplOut" where
  "write_entity mem out c =
     (case tpl_entities c of
        None \<Rightarrow> tpl_lit_n mem out None 0
      | Some (e, n) \<Rightarrow> tpl_lit_n mem out (Some e) n)"

function write_escaped :: "allocator \<Rightarrow> TplOut \<Rightarrow> string \<Rightarrow> TplOut" where
  "write_escaped mem out p =
     (case dropWhile (\<lambda>c. c \<notin> set TPL_ESCAPE_CHARS) p of
        [] \<Rightarrow> tpl_lit_n mem out (Some p) (length p)
      | hit # q \<Rightarrow>
          write_escaped mem
            (write_entity mem
               (tpl_lit_n mem out (Some p) (length (takeWhile (\<lambda>c. c \<notin> set TPL_ESCAPE_CHARS) p))) hit) q)"
  by pat_completeness auto
termination
proof (relation "measure (\<lambda>(mem, out, p). length p)", goal_cases)
  case (2 mem out p hit q)
  then show ?case using length_dropWhile_le [of "\<lambda>c. c \<notin> set TPL_ESCAPE_CHARS" p] by simp
qed simp

declare write_escaped.simps [simp del]

definition tpl_esc :: "allocator \<Rightarrow> TplOut \<Rightarrow> string option \<Rightarrow> TplOut" where
  "tpl_esc mem out s = (case s of None \<Rightarrow> out | Some t \<Rightarrow> write_escaped mem out t)"

definition tpl_attr :: "allocator \<Rightarrow> TplOut \<Rightarrow> string option \<Rightarrow> TplOut" where
  "tpl_attr mem out s = (case s of None \<Rightarrow> out | Some t \<Rightarrow> write_escaped mem out t)"

section \<open>Formatted values\<close>

text \<open>
  The value helpers return an arena string, or the empty string without memory. The arguments of \<^verbatim>\<open>tpl_fmt\<close> are in
  \<open>render\<close>, which gives the text \<^verbatim>\<open>vsnprintf\<close> makes of the format, or \<^const>\<open>None\<close> for its negative result.
\<close>

definition tpl_int :: "allocator \<Rightarrow> TplOut \<Rightarrow> 64 word \<Rightarrow> string \<times> TplOut" where
  "tpl_int mem out i =
     (case arena_alloc mem out 21 of
        (None, out1) \<Rightarrow> ([], out1)
      | (Some at, out1) \<Rightarrow> (snprint 21 (show_int (sint i)), out1))"

definition tpl_fmt :: "allocator \<Rightarrow> TplOut \<Rightarrow> string option \<Rightarrow> (string \<Rightarrow> string option) \<Rightarrow> string \<times> TplOut" where
  "tpl_fmt mem out fmt render =
     (case fmt of
        None \<Rightarrow> ([], out)
      | Some f \<Rightarrow>
          (case render f of
             None \<Rightarrow> ([], out\<lparr>out_failed := True\<rparr>)
           | Some text \<Rightarrow>
               (case arena_alloc mem out (length text + 1) of
                  (None, out1) \<Rightarrow> ([], out1)
                | (Some at, out1) \<Rightarrow> (snprint (length text + 1) text, out1))))"

section \<open>Buffer access\<close>

definition tpl_ok :: "TplOut \<Rightarrow> bool" where
  "tpl_ok out \<longleftrightarrow> \<not> out_failed out"

text \<open>The view is the bytes of the buffer; the terminator is written behind them.\<close>

definition tpl_str :: "allocator \<Rightarrow> TplOut \<Rightarrow> char list \<times> TplOut" where
  "tpl_str mem out =
     (case out_data out of
        None \<Rightarrow> ([], out)
      | Some b \<Rightarrow>
          if length b = out_cap out then
            (case buf_reserve mem out 1 of
               (False, out1) \<Rightarrow> ([], out1)
             | (True, out1) \<Rightarrow> (out_bytes out1, out1))
          else (b, out))"

definition tpl_len :: "TplOut \<Rightarrow> nat" where
  "tpl_len out = length (out_bytes out)"

section \<open>Fragments and render-once blocks\<close>

definition tpl_frag_select :: "TplOut \<Rightarrow> string option \<Rightarrow> TplOut" where
  "tpl_frag_select out name = out\<lparr>frag_sel := name, frag_depth := 0, frag_match := 0\<rparr>"

definition tpl_frag_begin :: "TplOut \<Rightarrow> string option \<Rightarrow> TplOut" where
  "tpl_frag_begin out name =
     (if frag_sel out = None then out
      else
        let out1 = out\<lparr>frag_depth := frag_depth out + 1\<rparr>
        in if frag_match out1 > 0 then out1
           else if name \<noteq> None \<and> frag_sel out1 = name then out1\<lparr>frag_match := frag_depth out1\<rparr>
           else out1)"

definition tpl_frag_end :: "TplOut \<Rightarrow> TplOut" where
  "tpl_frag_end out =
     (if frag_sel out = None then out
      else
        let out1 = out\<lparr>frag_depth := frag_depth out - 1\<rparr>
        in if frag_match out1 > frag_depth out1 then out1\<lparr>frag_match := 0\<rparr> else out1)"

text \<open>A handle is its address; the registry is re-copied into the arena with each new handle.\<close>

definition tpl_once_begin :: "allocator \<Rightarrow> TplOut \<Rightarrow> nat option \<Rightarrow> bool \<times> TplOut" where
  "tpl_once_begin mem out handle =
     (case handle of
        None \<Rightarrow> (False, out)
      | Some h \<Rightarrow>
          if list_ex (\<lambda>f. f = h) (once_fired out) then (False, out)
          else
            (case arena_alloc mem out ((length (once_fired out) + 1) * 8) of
               (None, out1) \<Rightarrow> (False, out1)
             | (Some at, out1) \<Rightarrow> (True, out1\<lparr>once_at := Some at, once_fired := once_fired out1 @ [h]\<rparr>)))"

section \<open>The response\<close>

definition http_res_html :: "allocator \<Rightarrow> HttpResponse \<Rightarrow> int \<Rightarrow> TplOut \<Rightarrow> int \<times> HttpResponse" where
  "http_res_html mem res status out =
     (if \<not> tpl_ok out then (- 1, res)
      else http_res_body mem res status (Some ''text/html'') (out_data out) (length (out_bytes out)))"


section \<open>Bookkeeping invariant\<close>

text \<open>Facts about a \<^verbatim>\<open>TplOut\<close> that every function of the runtime keeps follow from what the five primitive steps do.\<close>

locale writer_property =
  fixes P :: "TplOut \<Rightarrow> bool"
  assumes lit: "P out \<Longrightarrow> P (tpl_lit_n mem out s n)"
    and arena: "P out \<Longrightarrow> P (snd (arena_alloc mem out n))"
    and fail: "P out \<Longrightarrow> P (out\<lparr>out_failed := True\<rparr>)"
    and frag_begin: "P out \<Longrightarrow> P (tpl_frag_begin out name)"
    and frag_end: "P out \<Longrightarrow> P (tpl_frag_end out)"
    and once: "P out \<Longrightarrow> P (snd (tpl_once_begin mem out h))"
begin

lemma escaped: "P out \<Longrightarrow> P (write_escaped mem out p)"
proof (induction mem out p rule: write_escaped.induct)
  case (1 mem out p)
  have e: "P (write_entity mem o1 c)" if "P o1" for o1 c
    using that by (simp add: write_entity_def lit split: option.split)
  show ?case
    using 1 by (subst write_escaped.simps) (simp add: lit e split: list.split)
qed

lemma calls:
  "P out \<Longrightarrow> P (tpl_lit mem out s)" "P out \<Longrightarrow> P (tpl_raw mem out s)" "P out \<Longrightarrow> P (tpl_raw_n mem out s n)"
  "P out \<Longrightarrow> P (tpl_esc mem out s)" "P out \<Longrightarrow> P (tpl_attr mem out s)"
  "P out \<Longrightarrow> P (snd (tpl_int mem out i))" "P out \<Longrightarrow> P (snd (tpl_fmt mem out fmt render))"
proof -
  have a: "P out \<Longrightarrow> arena_alloc mem out n = (x, out1) \<Longrightarrow> P out1" for n x out1
    using arena [of out mem n] by simp
  assume p: "P out"
  show "P (tpl_lit mem out s)" "P (tpl_raw mem out s)" "P (tpl_raw_n mem out s n)"
    "P (tpl_esc mem out s)" "P (tpl_attr mem out s)"
    using p by (simp_all add: tpl_lit_def tpl_raw_def tpl_raw_n_def tpl_esc_def tpl_attr_def lit escaped split: option.split)
  show "P (snd (tpl_int mem out i))" "P (snd (tpl_fmt mem out fmt render))"
    using p by (auto simp: tpl_int_def tpl_fmt_def fail dest: a split: option.split prod.split)
qed

end

text \<open>A buffer is allocated exactly if it has a capacity, holds what was written, and no block is over-full.\<close>

definition out_inv :: "TplOut \<Rightarrow> bool" where
  "out_inv out \<longleftrightarrow>
     (out_data out = None \<longleftrightarrow> out_cap out = 0) \<and> length (out_bytes out) \<le> out_cap out \<and>
     (\<forall>b \<in> set (out_arena out). blk_used b \<le> blk_cap b) \<and> distinct (once_fired out)"

lemma double_cap_ge: "c \<noteq> 0 \<Longrightarrow> need \<le> double_cap c need"
  by (induction c need rule: double_cap.induct) (subst double_cap.simps, auto)

lemma double_cap_pos: "c \<noteq> 0 \<Longrightarrow> double_cap c need \<noteq> 0"
  by (induction c need rule: double_cap.induct) (subst double_cap.simps, auto)

lemma reserve_frame:
  assumes "buf_reserve mem out n = (ok, out')"
  shows "out_bytes out' = out_bytes out" "frag_sel out' = frag_sel out" "frag_match out' = frag_match out"
    "frag_depth out' = frag_depth out" "once_fired out' = once_fired out" "out_arena out' = out_arena out"
    "once_at out' = once_at out" "out_failed out' = (\<not> ok)" "out_failed out \<Longrightarrow> \<not> ok"
  using assms by (auto simp: buf_reserve_def Let_def out_bytes_def split: if_splits option.split)

lemma reserve_room:
  assumes "out_inv out" and "buf_reserve mem out n = (ok, out')"
  shows "out_inv out'" and "ok \<Longrightarrow> length (out_bytes out') + n \<le> out_cap out'"
proof -
  let ?c = "double_cap (if out_cap out = 0 then 256 else out_cap out) (length (out_bytes out) + n)"
  have "length (out_bytes out) + n \<le> ?c" "?c \<noteq> 0" by (simp_all add: double_cap_ge double_cap_pos)
  then show "out_inv out'" "ok \<Longrightarrow> length (out_bytes out') + n \<le> out_cap out'"
    using assms by (auto simp: buf_reserve_def Let_def out_inv_def out_bytes_def split: if_splits option.splits)
qed

lemma lit_inv: "out_inv out \<Longrightarrow> out_inv (tpl_lit_n mem out s n)"
proof -
  assume inv: "out_inv out"
  have "out_inv (out1\<lparr>out_data := Some (out_bytes out1 @ take n bs)\<rparr>)"
    if "buf_reserve mem out n = (True, out1)" "n \<noteq> 0" for out1 bs
    using reserve_room [OF inv that(1)] that(2) by (auto simp: out_inv_def out_bytes_def split: option.splits)
  then show ?thesis
    using inv by (auto simp: tpl_lit_n_def dest: reserve_room split: option.split prod.split bool.split)
qed

lemma arena_inv: "out_inv out \<Longrightarrow> out_inv (snd (arena_alloc mem out n))"
  by (auto simp: arena_alloc_def Let_def out_inv_def out_bytes_def TPL_ARENA_BLOCK_SIZE_def split: list.split option.splits)

interpretation bookkeeping: writer_property out_inv
proof
  fix out mem h
  assume inv: "out_inv out"
  show "out_inv (snd (tpl_once_begin mem out h))"
  proof (cases h)
    case (Some a)
    obtain x out1 where a: "arena_alloc mem out ((length (once_fired out) + 1) * 8) = (x, out1)" by fastforce
    then have "out_inv out1" "once_fired out1 = once_fired out"
      using arena_inv [OF inv, of mem "(length (once_fired out) + 1) * 8"]
      by (auto simp: arena_alloc_def Let_def split: if_splits list.splits)
    then show ?thesis using inv Some a
      by (auto simp: tpl_once_begin_def out_inv_def out_bytes_def list_ex_iff split: option.splits)
  qed (simp add: tpl_once_begin_def inv)
qed (auto simp: lit_inv arena_inv, auto simp: out_inv_def out_bytes_def tpl_frag_begin_def tpl_frag_end_def Let_def)

section \<open>Arena strings\<close>

text \<open>The regions handed out so far lie below the used part of their blocks and do not overlap.\<close>

type_synonym region = "nat \<times> nat \<times> nat"

definition in_block :: "TplOut \<Rightarrow> region \<Rightarrow> bool" where
  "in_block out r \<longleftrightarrow>
     (case r of (b, off, n) \<Rightarrow> b < length (out_arena out) \<and> off + n \<le> blk_used (rev (out_arena out) ! b))"

definition apart :: "region \<Rightarrow> region \<Rightarrow> bool" where
  "apart r q \<longleftrightarrow>
     (case (r, q) of ((b, i, m), (c, j, n)) \<Rightarrow> b \<noteq> c \<or> i + m \<le> j \<or> j + n \<le> i)"

fun allocate :: "allocator \<Rightarrow> TplOut \<Rightarrow> nat list \<Rightarrow> region list" where
  "allocate mem out [] = []"
| "allocate mem out (n # ns) =
     (case arena_alloc mem out n of
        (None, out1) \<Rightarrow> allocate mem out1 ns
      | (Some (b, off), out1) \<Rightarrow> (b, off, n) # allocate mem out1 ns)"

lemma arena_cases:
  assumes "arena_alloc mem out n = (x, out1)"
  obtains (failed) "x = None" "out_arena out1 = out_arena out"
    | (fresh) c where "x = Some (length (out_arena out), 0)" "n \<le> c"
        "out_arena out1 = \<lparr>blk_used = n, blk_cap = c\<rparr> # out_arena out"
    | (room) b bs where "out_arena out = b # bs" "x = Some (length bs, blk_used b)"
        "n \<le> blk_cap b - blk_used b" "out_arena out1 = b\<lparr>blk_used := blk_used b + n\<rparr> # bs"
proof -
  let ?c = "if n > TPL_ARENA_BLOCK_SIZE then n else TPL_ARENA_BLOCK_SIZE"
  let ?full = "case out_arena out of [] \<Rightarrow> True | b # bs \<Rightarrow> blk_cap b - blk_used b < n"
  consider "?full" "\<not> mem (24 + ?c)" | "?full" "mem (24 + ?c)" | "\<not> ?full" by blast
  then show thesis
  proof cases
    case 1
    then show thesis using assms failed by (auto simp: arena_alloc_def)
  next
    case 2
    then show thesis using assms fresh [of ?c] by (auto simp: arena_alloc_def)
  next
    case 3
    then obtain b bs where "out_arena out = b # bs" by (cases "out_arena out") auto
    then show thesis using assms room [of b bs] 3 by (auto simp: arena_alloc_def not_less)
  qed
qed

lemma arena_step:
  assumes "out_inv out" and "arena_alloc mem out n = (x, out1)"
  shows "in_block out r \<Longrightarrow> in_block out1 r"
    and "x = Some (b, off) \<Longrightarrow> in_block out1 (b, off, n) \<and> (in_block out r \<longrightarrow> apart r (b, off, n))"
    and "x = Some (b, off) \<Longrightarrow> off + n \<le> blk_cap (rev (out_arena out1) ! b)"
proof -
  have len: "length (rev bs) = length bs" for bs :: "TplArenaBlock list" by simp
  have used: "out_arena out = b # bs \<Longrightarrow> blk_used b \<le> blk_cap b" for b bs
    using assms(1) by (simp add: out_inv_def)
  obtain c i m where r: "r = (c, i, m)" by (cases r)
  show "in_block out1 r" if "in_block out r"
    using assms(2)
  proof (cases rule: arena_cases)
    case (room b bs)
    then show ?thesis using that by (auto simp: in_block_def r nth_append not_less less_Suc_eq)
  qed (use that in \<open>auto simp: in_block_def r nth_append\<close>)
  show "in_block out1 (b, off, n) \<and> (in_block out r \<longrightarrow> apart r (b, off, n))" if "x = Some (b, off)"
    using assms(2)
  proof (cases rule: arena_cases)
    case (room b' bs)
    then show ?thesis using that by (auto simp: in_block_def apart_def r nth_append)
  qed (use that in \<open>auto simp: in_block_def apart_def r nth_append\<close>)
  show "off + n \<le> blk_cap (rev (out_arena out1) ! b)" if "x = Some (b, off)"
    using assms(2)
  proof (cases rule: arena_cases)
    case (room b' bs)
    then show ?thesis using that used [OF room(1)] by (auto simp: nth_append)
  qed (use that in \<open>auto simp: nth_append\<close>)
qed

text \<open>The strings that the value helpers and the once registry take from the arena never overlap, however many are
  taken and whichever allocations fail: every byte of a component's scratch memory belongs to one of them.\<close>

theorem arena_strings_disjoint:
  assumes "out_inv out" and "i < j" and "j < length (allocate mem out ns)"
  shows "apart (allocate mem out ns ! i) (allocate mem out ns ! j)"
proof -
  have later: "apart r q"
    if "out_inv out" "in_block out r" "q \<in> set (allocate mem out ns)" for mem out r q ns
    using that
  proof (induction mem out ns rule: allocate.induct)
    case (2 mem out n ns)
    obtain x out1 where a: "arena_alloc mem out n = (x, out1)" by fastforce
    have i: "out_inv out1" using bookkeeping.arena [OF 2(3), of mem n] a by simp
    note s = arena_step [OF 2(3) a]
    show ?case
    proof (cases x)
      case None
      then show ?thesis using 2(1) [OF a [symmetric]] 2(4,5) a i s(1) by simp
    next
      case (Some y)
      show ?thesis
      proof (cases y)
        case (Pair b off)
        then have "apart r (b, off, n)" using s(2) [of b off r] Some 2(4) by simp
        moreover have "q = (b, off, n) \<or> q \<in> set (allocate mem out1 ns)" using 2(5) a Some Pair by simp
        ultimately show ?thesis using 2(2) [OF a [symmetric] Some Pair [symmetric] i s(1) [OF 2(4)]] by blast
      qed
    qed
  qed simp
  show ?thesis
    using assms
  proof (induction mem out ns arbitrary: i j rule: allocate.induct)
    case (2 mem out n ns)
    obtain x out1 where a: "arena_alloc mem out n = (x, out1)" by fastforce
    have inv: "out_inv out1" using bookkeeping.arena [OF 2(3), of mem n] a by simp
    show ?case
    proof (cases x)
      case None
      then show ?thesis using 2(1) [OF a [symmetric]] 2(4,5) a inv by simp
    next
      case (Some y)
      obtain b off where y: "y = (b, off)" by fastforce
      have blk: "in_block out1 (b, off, n)" using arena_step(2) [OF 2(3) a] Some y by blast
      have rest: "k < length (allocate mem out1 ns)" if "j = Suc k" for k using 2(5) a Some y that by simp
      obtain k where k: "j = Suc k" using 2(4) by (cases j) auto
      show ?thesis
      proof (cases i)
        case 0
        then show ?thesis using later [OF inv blk nth_mem, of k mem ns] rest [OF k] a Some y k by simp
      next
        case (Suc i')
        then show ?thesis
          using 2(2) [OF a [symmetric] Some y [symmetric] inv, of i' k] rest [OF k] 2(4) k a Some y by simp
      qed
    qed
  qed simp
qed

theorem arena_strings_disjoint_witness:
  "allocate (\<lambda>n. n \<noteq> 24 + 600) empty_out [21, 600, 500, 8] = [(0, 0, 21), (1, 0, 500), (1, 500, 8)] \<and>
   apart (0, 0, 21) (1, 500, 8)"
proof -
  have a: "allocate (\<lambda>n. n \<noteq> 24 + 600) empty_out [21, 600, 500, 8] = [(0, 0, 21), (1, 0, 500), (1, 500, 8)]"
    by (simp add: arena_alloc_def empty_out_def TPL_ARENA_BLOCK_SIZE_def)
  have "out_inv empty_out" by (simp add: out_inv_def empty_out_def out_bytes_def)
  from arena_strings_disjoint [OF this, of 0 2 "\<lambda>n. n \<noteq> 24 + 600" "[21, 600, 500, 8]"]
  show ?thesis unfolding a by simp
qed

text \<open>
  The registry of the once blocks is an array of pointers, but the arena gives out byte offsets: behind a formatted number
  it starts at offset 21, which is not a multiple of the 8 bytes a pointer needs.
\<close>

theorem once_registry_misaligned:
  "\<exists>s out. tpl_int (\<lambda>_. True) empty_out 7 = (s, out) \<and>
     once_at (snd (tpl_once_begin (\<lambda>_. True) out (Some h))) = Some (0, 21)"
  by (simp add: tpl_int_def tpl_once_begin_def arena_alloc_def empty_out_def TPL_ARENA_BLOCK_SIZE_def)

section \<open>What a call writes\<close>

text \<open>
  A text is kept or discarded as a whole by the fragment selection. A call that means to write \<open>t\<close> changes neither the
  fragment state nor the registry, does nothing after a failure, never writes anything but a beginning of \<open>t\<close>, writes all
  of it unless it fails, and cannot fail with memory at hand and an output within the range of \<^verbatim>\<open>size_t\<close>.
\<close>

definition kept :: "TplOut \<Rightarrow> string \<Rightarrow> string" where
  "kept out t = (if frag_sel out \<noteq> None \<and> frag_match out \<le> 0 then [] else t)"

definition same_frame :: "TplOut \<Rightarrow> TplOut \<Rightarrow> bool" where
  "same_frame out out' \<longleftrightarrow>
     frag_sel out' = frag_sel out \<and> frag_match out' = frag_match out \<and> frag_depth out' = frag_depth out \<and>
     once_fired out' = once_fired out"

definition extends :: "allocator \<Rightarrow> TplOut \<Rightarrow> string \<Rightarrow> TplOut \<Rightarrow> bool" where
  "extends mem out t out' \<longleftrightarrow>
     (out_failed out \<longrightarrow> out_failed out' \<and> out_bytes out' = out_bytes out) \<and>
     prefix (out_bytes out) (out_bytes out') \<and> prefix (out_bytes out') (out_bytes out @ t) \<and>
     (\<not> out_failed out' \<longrightarrow> out_bytes out' = out_bytes out @ t) \<and>
     ((\<forall>n. mem n) \<and> \<not> out_failed out \<and> length (out_bytes out @ t) \<le> SIZE_MAX \<longrightarrow> \<not> out_failed out')"

definition wrote :: "allocator \<Rightarrow> TplOut \<Rightarrow> string \<Rightarrow> TplOut \<Rightarrow> bool" where
  "wrote mem out t out' \<longleftrightarrow> same_frame out out' \<and> extends mem out (kept out t) out'"

lemma extends_refl [simp]: "extends mem out [] out"
  by (simp add: extends_def)

lemma extends_trans [trans]:
  assumes "extends mem out t out1" and "extends mem out1 u out2"
  shows "extends mem out (t @ u) out2"
proof (cases "out_failed out1")
  case True
  then show ?thesis using assms by (auto simp: extends_def prefix_append)
next
  case False
  then have b: "out_bytes out1 = out_bytes out @ t" using assms by (simp add: extends_def)
  have "prefix (out_bytes out) (out_bytes out2)"
    using assms b unfolding extends_def by (meson prefix_order.trans)
  then show ?thesis using assms b False unfolding extends_def by auto
qed

lemma kept_append: "kept out (t @ u) = kept out t @ kept out u"
  by (simp add: kept_def)

lemma kept_frame: "same_frame out out' \<Longrightarrow> kept out' t = kept out t"
  by (simp add: kept_def same_frame_def)

lemma wrote_refl [simp]: "wrote mem out [] out"
  by (simp add: wrote_def same_frame_def kept_def)

lemma wrote_trans [trans]: "wrote mem out t out1 \<Longrightarrow> wrote mem out1 u out2 \<Longrightarrow> wrote mem out (t @ u) out2"
  by (auto simp: wrote_def kept_append kept_frame intro: extends_trans) (simp add: same_frame_def)

lemma wrote_lit: "n \<le> length bs \<Longrightarrow> wrote mem out (take n bs) (tpl_lit_n mem out (Some bs) n)"
proof -
  assume n: "n \<le> length bs"
  obtain ok out1 where r: "buf_reserve mem out n = (ok, out1)" by fastforce
  note f = reserve_frame [OF r]
  have room: "ok" if "\<forall>n. mem n" "\<not> out_failed out" "length (out_bytes out) + n \<le> SIZE_MAX"
    using that r by (auto simp: buf_reserve_def Let_def split: if_splits)
  show ?thesis
  proof (cases "n = 0 \<or> (frag_sel out \<noteq> None \<and> frag_match out \<le> 0)")
    case True
    then show ?thesis by (auto simp: tpl_lit_n_def wrote_def same_frame_def kept_def extends_def)
  next
    case False
    have "out_bytes (out1\<lparr>out_data := Some x\<rparr>) = x" for x by (simp add: out_bytes_def)
    then show ?thesis using False f room n r
      by (cases ok) (auto simp: tpl_lit_n_def wrote_def same_frame_def kept_def extends_def)
  qed
qed

lemma wrote_all: "wrote mem out s (tpl_lit_n mem out (Some s) (length s))"
  using wrote_lit [of "length s" s mem out] by simp

lemma wrote_arena: "arena_alloc mem out n = (Some at, out1) \<Longrightarrow> wrote mem out [] out1"
  by (auto simp: arena_alloc_def Let_def wrote_def same_frame_def extends_def kept_def out_bytes_def
      split: if_splits list.splits)

text \<open>Without memory the arena sets the flag, and nothing else of what matters for the output.\<close>

lemma arena_fails:
  assumes "arena_alloc mem out n = (None, out1)"
  shows "same_frame out out1" "out_bytes out1 = out_bytes out" "out_failed out1" "\<exists>n. \<not> mem n"
  using assms by (auto simp: arena_alloc_def Let_def same_frame_def out_bytes_def split: if_splits list.splits)

lemma wrote_failed:
  "same_frame out out1 \<Longrightarrow> out_bytes out1 = out_bytes out \<Longrightarrow> out_failed out1 \<Longrightarrow> \<exists>n. \<not> mem n \<Longrightarrow> wrote mem out t out1"
  by (auto simp: wrote_def extends_def)

lemma wrote_arena_any: "arena_alloc mem out n = (x, out1) \<Longrightarrow> wrote mem out [] out1"
  by (cases x) (auto intro: wrote_arena wrote_failed dest: arena_fails)

lemma wrote_nothing:
  assumes "wrote mem out [] out1" and "out_failed out1" and "wrote mem out1 u out2" and "\<exists>n. \<not> mem n"
  shows "wrote mem out t out2"
  using assms by (auto simp: wrote_def extends_def same_frame_def kept_def)

section \<open>Escaped text\<close>

definition escape_char :: "char \<Rightarrow> string" where
  "escape_char c = (case tpl_entities c of None \<Rightarrow> [c] | Some (e, n) \<Rightarrow> e)"

definition escape :: "string \<Rightarrow> string" where
  "escape s = concat (map escape_char s)"

lemma escape_simps [simp]:
  "escape [] = []" "escape (c # s) = escape_char c @ escape s" "escape (s @ t) = escape s @ escape t"
  by (simp_all add: escape_def)

lemma entities_iff: "tpl_entities c = None \<longleftrightarrow> c \<notin> set TPL_ESCAPE_CHARS"
  by (auto simp: tpl_entities_def TPL_ESCAPE_CHARS_def)

lemma escape_plain: "(\<And>c. c \<in> set s \<Longrightarrow> c \<notin> set TPL_ESCAPE_CHARS) \<Longrightarrow> escape s = s"
  by (induction s) (auto simp: escape_char_def entities_iff [symmetric])

lemma wrote_entity: "c \<in> set TPL_ESCAPE_CHARS \<Longrightarrow> wrote mem out (escape_char c) (write_entity mem out c)"
proof -
  assume c: "c \<in> set TPL_ESCAPE_CHARS"
  then obtain e where "tpl_entities c = Some (e, length e)"
    by (auto simp: TPL_ESCAPE_CHARS_def tpl_entities_def)
  then show ?thesis using wrote_all [of mem out e] by (simp add: write_entity_def escape_char_def)
qed

lemma wrote_escaped: "wrote mem out (escape p) (write_escaped mem out p)"
proof (induction mem out p rule: write_escaped.induct)
  case (1 mem out p)
  let ?P = "\<lambda>c. c \<notin> set TPL_ESCAPE_CHARS"
  have pre: "escape (takeWhile ?P p) = takeWhile ?P p"
    by (rule escape_plain) (drule set_takeWhileD, simp)
  show ?case
  proof (cases "dropWhile ?P p")
    case Nil
    then have "takeWhile ?P p = p" by (metis append_Nil2 takeWhile_dropWhile_id)
    then have "escape p = p" using pre by metis
    moreover have "write_escaped mem out p = tpl_lit_n mem out (Some p) (length p)"
      by (subst write_escaped.simps, subst Nil) simp
    ultimately show ?thesis by (simp add: wrote_all)
  next
    case (Cons hit q)
    have hit: "hit \<in> set TPL_ESCAPE_CHARS" using Cons by (metis dropWhile_eq_Cons_conv)
    have p: "p = takeWhile ?P p @ hit # q" using Cons by (metis takeWhile_dropWhile_id)
    let ?o1 = "tpl_lit_n mem out (Some p) (length (takeWhile ?P p))"
    have "wrote mem out (takeWhile ?P p) ?o1"
      using wrote_lit [of "length (takeWhile ?P p)" p mem out] by (simp add: length_takeWhile_le takeWhile_eq_take [symmetric])
    also have "wrote mem ?o1 (escape_char hit) (write_entity mem ?o1 hit)" using hit by (rule wrote_entity)
    also have "wrote mem (write_entity mem ?o1 hit) (escape q) (write_escaped mem (write_entity mem ?o1 hit) q)"
      using 1 Cons by simp
    finally have "wrote mem out (escape (takeWhile ?P p @ hit # q)) (write_escaped mem (write_entity mem ?o1 hit) q)"
      using pre by simp
    moreover have "write_escaped mem out p = write_escaped mem (write_entity mem ?o1 hit) q"
      using Cons by (subst write_escaped.simps) simp
    ultimately show ?thesis using p by simp
  qed
qed

text \<open>The reading of character references: what a browser makes of the five the runtime writes.\<close>

definition references :: "(string \<times> char) list" where
  "references = [(''&amp;'', CHR ''&''), (''&lt;'', CHR ''<''), (''&gt;'', CHR ''>''), (''&#34;'', DQUOTE), (''&#39;'', CHR 0x27)]"

function unescape :: "string \<Rightarrow> string" where
  "unescape [] = []"
| "unescape (c # s) =
     (case find (\<lambda>(e, d). starts_with (c # s) e) references of
        Some (e, d) \<Rightarrow> d # unescape (drop (length e - 1) s)
      | None \<Rightarrow> c # unescape s)"
  by pat_completeness auto
termination by (relation "measure length") auto

lemma unescape_char: "unescape (escape_char c @ s) = c # unescape s"
proof (cases "c \<in> set TPL_ESCAPE_CHARS")
  case True
  then consider "c = CHR ''&''" | "c = CHR ''<''" | "c = CHR ''>''" | "c = DQUOTE" | "c = CHR 0x27"
    by (auto simp: TPL_ESCAPE_CHARS_def)
  then show ?thesis
    by cases (simp_all add: escape_char_def tpl_entities_def references_def starts_with_def)
next
  case False
  then have "escape_char c = [c]" by (simp add: escape_char_def entities_iff [symmetric])
  moreover have "find (\<lambda>(e, d). starts_with (c # s) e) references = None"
    using False by (auto simp: references_def starts_with_def TPL_ESCAPE_CHARS_def)
  ultimately show ?thesis by simp
qed

lemma unescape_escape [simp]: "unescape (escape s) = s"
  by (induction s) (simp_all add: unescape_char)

definition markup :: "char set" where
  "markup = {CHR ''<'', CHR ''>'', DQUOTE, CHR 0x27}"

lemma escape_no_markup: "set (escape s) \<inter> markup = {}"
proof -
  have "set (escape_char c) \<inter> markup = {}" for c
    by (auto simp: escape_char_def tpl_entities_def markup_def split: if_splits)
  then show ?thesis by (auto simp: escape_def)
qed

text \<open>C16: what \<^verbatim>\<open>tpl_esc\<close> and \<^verbatim>\<open>tpl_attr\<close> add to the output for a string contains no angle bracket and no quote, so that it
  can neither open a tag nor leave an attribute, and it reads back as exactly that string; unless it fails, the call
  writes all of it.\<close>

theorem escaped_output_safe:
  assumes "frag_sel out = None" and "f \<in> {tpl_esc, tpl_attr}" and "\<not> out_failed (f mem out (Some s))"
  shows "\<exists>t. out_bytes (f mem out (Some s)) = out_bytes out @ t \<and> set t \<inter> markup = {} \<and> unescape t = s"
proof -
  have "wrote mem out (escape s) (f mem out (Some s))"
    using assms(2) wrote_escaped by (auto simp: tpl_esc_def tpl_attr_def)
  then have "out_bytes (f mem out (Some s)) = out_bytes out @ escape s"
    using assms(1,3) by (simp add: wrote_def extends_def kept_def)
  then show ?thesis using escape_no_markup by auto
qed

theorem escaped_output_safe_witness:
  "out_bytes (tpl_esc (\<lambda>_. True) empty_out (Some ''<b>'')) = ''&lt;b&gt;'' \<and> unescape ''&lt;b&gt;'' = ''<b>''"
proof -
  have "wrote (\<lambda>_. True) empty_out (escape ''<b>'') (tpl_esc (\<lambda>_. True) empty_out (Some ''<b>''))"
    using wrote_escaped by (simp add: tpl_esc_def del: escape_simps)
  then have ok: "\<not> out_failed (tpl_esc (\<lambda>_. True) empty_out (Some ''<b>''))"
    and "out_bytes (tpl_esc (\<lambda>_. True) empty_out (Some ''<b>'')) = escape ''<b>''"
    by (simp_all add: wrote_def extends_def kept_def empty_out_def out_bytes_def SIZE_MAX_def escape_char_def tpl_entities_def)
  moreover obtain t where "out_bytes (tpl_esc (\<lambda>_. True) empty_out (Some ''<b>'')) = out_bytes empty_out @ t" "unescape t = ''<b>''"
    using escaped_output_safe [of empty_out tpl_esc "\<lambda>_. True" "''<b>''"] ok by (auto simp: empty_out_def)
  ultimately show ?thesis by (simp add: escape_char_def tpl_entities_def empty_out_def out_bytes_def)
qed

end
