(* ===== verification/Tpl_Values.thy ===== *)
theory Tpl_Values
  imports Tpl
begin

text \<open>
  The typed attribute values of the template runtime: URL sanitising and CSS sanitising (\<^verbatim>\<open>c_http_tpl.c\<close>). The lemmas
  show which URLs and declarations can reach an attribute, that benign ones pass unchanged, and that the buffer the
  sanitised declarations are rebuilt in is large enough.
\<close>

section \<open>URLs\<close>

record TplUrl =
  url_s :: "string option"

record TplCss =
  css_s :: "string option"

definition INVALID_URL :: string where "INVALID_URL = ''about:invalid#ctmpl''"

definition is_url_space :: "char \<Rightarrow> bool" where
  "is_url_space c \<longleftrightarrow> c = SP \<or> c = TAB \<or> c = LF \<or> c = CR \<or> c = CHR 0x0C \<or> c = CHR 0x0B"

definition scheme_char :: "char \<Rightarrow> bool" where
  "scheme_char c \<longleftrightarrow> is_lower c \<or> is_upper c \<or> is_digit c \<or> c = CHR ''+'' \<or> c = CHR ''-'' \<or> c = CHR ''.''"

fun scheme_loop :: "string \<Rightarrow> nat \<Rightarrow> nat option" where
  "scheme_loop [] i = None"
| "scheme_loop (c # s) i =
     (if c = CHR '':'' then Some (i + 1)
      else if \<not> scheme_char c then None
      else scheme_loop s (i + 1))"

definition has_scheme :: "string \<Rightarrow> nat option" where
  "has_scheme s =
     (case s of
        [] \<Rightarrow> None
      | c # t \<Rightarrow> if \<not> (is_lower c \<or> is_upper c) then None else scheme_loop s 0)"

definition scheme_equals :: "string \<Rightarrow> nat \<Rightarrow> string \<Rightarrow> bool" where
  "scheme_equals s n want \<longleftrightarrow> length want = n \<and> map to_lower (take n s) = want"

definition url_is_safe :: "string \<Rightarrow> nat \<Rightarrow> bool" where
  "url_is_safe s n \<longleftrightarrow>
     (case has_scheme s of
        None \<Rightarrow> True
      | Some k \<Rightarrow> scheme_equals s k ''http:'' \<or> scheme_equals s k ''https:'' \<or> scheme_equals s k ''mailto:'') \<and>
     list_all (\<lambda>c. \<not> is_ctl c) (take n s)"

definition tpl_url_val :: "string \<Rightarrow> TplUrl" where
  "tpl_url_val s = \<lparr>url_s = Some s\<rparr>"

definition tpl_url :: "allocator \<Rightarrow> TplOut \<Rightarrow> string option \<Rightarrow> TplUrl \<times> TplOut" where
  "tpl_url mem out url =
     (case url of
        None \<Rightarrow> (tpl_url_val INVALID_URL, out)
      | Some u \<Rightarrow>
          let p = dropWhile is_url_space u;
              n = length (rstrip is_url_space p)
          in if p = u \<and> n = length u
             then (tpl_url_val (if url_is_safe u n then u else INVALID_URL), out)
             else
               (case arena_alloc mem out (n + 1) of
                  (None, out1) \<Rightarrow> (tpl_url_val INVALID_URL, out1)
                | (Some at, out1) \<Rightarrow>
                    let trimmed = take n p
                    in (tpl_url_val (if url_is_safe trimmed n then trimmed else INVALID_URL), out1)))"

definition tpl_safe_url :: "string option \<Rightarrow> TplUrl" where
  "tpl_safe_url url = tpl_url_val (case url of None \<Rightarrow> INVALID_URL | Some u \<Rightarrow> u)"

definition tpl_attr_url :: "allocator \<Rightarrow> TplOut \<Rightarrow> TplUrl \<Rightarrow> TplOut" where
  "tpl_attr_url mem out url = (case url_s url of None \<Rightarrow> out | Some s \<Rightarrow> write_escaped mem out s)"

section \<open>CSS declarations\<close>

text \<open>
  A pointer into the declarations is the suffix up to the terminator of the whole string, a span is such a pointer with
  a length. The model reads the terminator where a length passes the end of the string.
\<close>

definition ci_starts :: "string \<Rightarrow> nat \<Rightarrow> string \<Rightarrow> bool" where
  "ci_starts s n pre \<longleftrightarrow> n \<ge> length pre \<and> strncaseeq s pre (length pre)"

definition ci_contains :: "string \<Rightarrow> nat \<Rightarrow> string \<Rightarrow> bool" where
  "ci_contains haystack n needle \<longleftrightarrow>
     \<not> (length needle = 0 \<or> n < length needle) \<and>
     list_ex (\<lambda>i. strncaseeq (drop i haystack) needle (length needle)) [0..<n - length needle + 1]"

definition css_prop_valid :: "string \<Rightarrow> nat \<Rightarrow> bool" where
  "css_prop_valid s n \<longleftrightarrow>
     n \<noteq> 0 \<and>
     (case take n s of
        [] \<Rightarrow> False
      | c # cs \<Rightarrow>
          (is_alpha c \<or> c = CHR ''-'') \<and> list_all (\<lambda>c. is_alpha c \<or> is_digit c \<or> c = CHR ''-'') cs)"

function css_url_loop :: "string \<Rightarrow> nat \<Rightarrow> nat \<Rightarrow> bool" where
  "css_url_loop v n i =
     (case find (\<lambda>j. strncaseeq (drop j v) ''url('' 4) [i..<n - 3] of
        None \<Rightarrow> False
      | Some pos \<Rightarrow>
          let inner = drop (pos + 4) v;
              inner_len = length (takeWhile (\<lambda>c. c \<noteq> CHR '')'') (take (n - (pos + 4)) inner));
              stop = pos + 4 + inner_len
          in if stop \<ge> n then True
             else if CHR '':'' \<in> set (take inner_len inner) \<and>
                     \<not> ci_starts inner inner_len ''http://'' \<and>
                     \<not> ci_starts inner inner_len ''https://'' \<and>
                     \<not> ci_starts inner inner_len ''data:image'' then True
             else css_url_loop v n (stop + 1))"
  by pat_completeness auto
termination by (relation "measure (\<lambda>(v, n, i). n - i)") (auto simp: find_Some_iff)

declare css_url_loop.simps [simp del]

definition css_url_unsafe :: "string \<Rightarrow> nat \<Rightarrow> bool" where
  "css_url_unsafe v n = css_url_loop v n 0"

definition css_value_unsafe :: "string \<Rightarrow> nat \<Rightarrow> bool" where
  "css_value_unsafe v n \<longleftrightarrow>
     list_ex (\<lambda>c. is_ctl c \<or> c = CHR ''<'' \<or> c = CHR ''>'') (take n (v @ [NUL])) \<or>
     ci_contains v n ''javascript:'' \<or> ci_contains v n ''vbscript:'' \<or> ci_contains v n ''expression('' \<or>
     ci_contains v n ''behavior:'' \<or> ci_contains v n ''@import'' \<or>
     css_url_unsafe v n"

text \<open>The span of the next declaration, and the pointer and length of its trimmed text.\<close>

fun decl_span :: "int \<Rightarrow> string \<Rightarrow> nat" where
  "decl_span paren [] = 0"
| "decl_span paren (c # s) =
     (if paren > 0 \<or> c \<noteq> CHR '';'' then
        Suc (decl_span (if c = CHR ''('' then paren + 1 else if c = CHR '')'' then paren - 1 else paren) s)
      else 0)"

definition next_decl :: "string \<Rightarrow> string \<times> nat \<times> string" where
  "next_decl s =
     (let n = decl_span 0 s;
          lead = length (takeWhile is_space (take n s))
      in (drop lead s, length (rstrip is_space (drop lead (take n s))), drop (n + 1) s))"

lemma next_decl_shorter: "next_decl (c # s) = (d, n, rest) \<Longrightarrow> length rest \<le> length s"
  by (auto simp: next_decl_def Let_def)

function css_all_safe :: "string \<Rightarrow> bool" where
  "css_all_safe [] = True"
| "css_all_safe (c # s) =
     (case next_decl (c # s) of
        (d, dlen, rest) \<Rightarrow>
          if dlen = 0 then css_all_safe rest
          else if CHR '':'' \<notin> set (take dlen d) then False
          else
            let colon = length (takeWhile (\<lambda>c. c \<noteq> CHR '':'') d);
                prop_len = length (rstrip is_space (take colon d));
                value_len = dlen - prop_len - 1
            in if \<not> css_prop_valid d prop_len \<or> css_value_unsafe (drop (colon + 1) d) value_len then False
               else css_all_safe rest)"
  by pat_completeness auto
termination by (relation "measure length") (auto dest!: sym [of "(_, _, _)"] next_decl_shorter)

text \<open>
  What one declaration becomes, and the loop that collects them in the buffer \<open>buf\<close> of \<open>cap\<close> bytes: \<^verbatim>\<open>snprintf\<close> writes what
  fits and counts everything.
\<close>

definition rebuilt_decl :: "string \<Rightarrow> nat \<Rightarrow> string" where
  "rebuilt_decl d dlen =
     (let colon = length (takeWhile (\<lambda>c. c \<noteq> CHR '':'') d)
      in if CHR '':'' \<notin> set (take dlen d) \<or> \<not> css_prop_valid d colon then ''zctmplUnsafeCSS''
         else if css_value_unsafe (drop (colon + 1) d) (dlen - colon - 1) then take colon d @ '':zctmplUnsafeCSS''
         else take dlen d)"

function css_rebuild :: "string \<Rightarrow> nat \<Rightarrow> string \<Rightarrow> bool \<Rightarrow> string" where
  "css_rebuild [] cap buf first = buf"
| "css_rebuild (c # s) cap buf first =
     (case next_decl (c # s) of
        (d, dlen, rest) \<Rightarrow>
          if dlen = 0 then css_rebuild rest cap buf first
          else if \<not> first \<and> length buf + 2 \<ge> cap then buf
          else
            let buf1 = (if first then buf else buf @ ''; '');
                text = rebuilt_decl d dlen
            in if length buf1 + length text \<ge> cap then take (cap - 1) (buf1 @ text)
               else css_rebuild rest cap (buf1 @ text) False)"
  by pat_completeness auto
termination
  by (relation "measure (\<lambda>(s, cap, buf, first). length s)") (auto dest!: sym [of "(_, _, _)"] next_decl_shorter)

definition tpl_css :: "allocator \<Rightarrow> TplOut \<Rightarrow> string option \<Rightarrow> TplCss \<times> TplOut" where
  "tpl_css mem out declarations =
     (case declarations of
        None \<Rightarrow> (\<lparr>css_s = Some []\<rparr>, out)
      | Some s \<Rightarrow>
          if css_all_safe s then (\<lparr>css_s = Some s\<rparr>, out)
          else
            let seps = length (filter (\<lambda>c. c = CHR '';'') s) + 1;
                cap = length s + seps * 32 + 1
            in case arena_alloc mem out cap of
                 (None, out1) \<Rightarrow> (\<lparr>css_s = Some []\<rparr>, out1\<lparr>out_failed := True\<rparr>)
               | (Some at, out1) \<Rightarrow> (\<lparr>css_s = Some (css_rebuild s cap [] True)\<rparr>, out1))"

definition tpl_css_safe :: "string option \<Rightarrow> TplCss" where
  "tpl_css_safe declarations = \<lparr>css_s = Some (case declarations of None \<Rightarrow> [] | Some s \<Rightarrow> s)\<rparr>"

definition tpl_attr_css :: "allocator \<Rightarrow> TplOut \<Rightarrow> TplCss \<Rightarrow> TplOut" where
  "tpl_attr_css mem out css = (case css_s css of None \<Rightarrow> out | Some s \<Rightarrow> write_escaped mem out s)"

section \<open>Which URLs pass\<close>

text \<open>
  The reference reading: a URL is trimmed at both ends; its scheme is the text before the first colon, if that is a letter
  followed by letters, digits, plus, minus and dot.
\<close>

definition url_trim :: "string \<Rightarrow> string" where
  "url_trim u = rstrip is_url_space (dropWhile is_url_space u)"

definition scheme_of :: "string \<Rightarrow> string option" where
  "scheme_of s =
     (let t = takeWhile (\<lambda>c. c \<noteq> CHR '':'') s
      in if CHR '':'' \<in> set s \<and> t \<noteq> [] \<and> is_alpha (hd t) \<and> list_all scheme_char t then Some t else None)"

definition url_benign :: "string \<Rightarrow> bool" where
  "url_benign s \<longleftrightarrow>
     list_all (\<lambda>c. \<not> is_ctl c) s \<and>
     (case scheme_of s of None \<Rightarrow> True | Some t \<Rightarrow> map to_lower t \<in> {''http'', ''https'', ''mailto''})"

lemma scheme_loop_iff:
  "scheme_loop s i =
     (if CHR '':'' \<in> set s \<and> list_all scheme_char (takeWhile (\<lambda>c. c \<noteq> CHR '':'') s)
      then Some (i + length (takeWhile (\<lambda>c. c \<noteq> CHR '':'') s) + 1) else None)"
  by (induction s i rule: scheme_loop.induct) auto

lemma has_scheme_iff: "has_scheme s = map_option (\<lambda>t. length t + 1) (scheme_of s)"
  by (cases s) (auto simp: has_scheme_def scheme_of_def scheme_loop_iff Let_def is_alpha_def scheme_char_def is_lower_def
      is_upper_def)

lemma take_scheme: "scheme_of s = Some t \<Longrightarrow> take (length t + 1) s = t @ '':''"
proof -
  assume "scheme_of s = Some t"
  then have t: "t = takeWhile (\<lambda>c. c \<noteq> CHR '':'') s" and c: "CHR '':'' \<in> set s"
    by (auto simp: scheme_of_def Let_def split: if_splits)
  obtain u where "dropWhile (\<lambda>c. c \<noteq> CHR '':'') s = CHR '':'' # u"
    using dropWhile_neq_cases [of "CHR '':''" s] c by (auto simp: dropWhile_eq_Nil_conv)
  then have "s = t @ CHR '':'' # u" using t by (metis takeWhile_dropWhile_id)
  then show ?thesis by simp
qed

lemma scheme_equals_iff:
  assumes "scheme_of s = Some t"
  shows "scheme_equals s (length t + 1) (w @ '':'') \<longleftrightarrow> map to_lower t = w"
proof -
  have "to_lower CHR '':'' = CHR '':''" by (simp add: to_lower_def is_upper_def)
  then show ?thesis
    unfolding scheme_equals_def take_scheme [OF assms] using map_eq_imp_length_eq [of to_lower t id w] by auto
qed

lemma url_safe_iff: "url_is_safe s (length s) \<longleftrightarrow> url_benign s"
proof (cases "scheme_of s")
  case (Some t)
  then show ?thesis
    using scheme_equals_iff [OF Some, of "''http''"] scheme_equals_iff [OF Some, of "''https''"]
      scheme_equals_iff [OF Some, of "''mailto''"]
    by (auto simp: url_is_safe_def url_benign_def has_scheme_iff)
qed (simp add: url_is_safe_def url_benign_def has_scheme_iff)

lemma url_trim_eq: "take (length (rstrip is_url_space (dropWhile is_url_space u))) (dropWhile is_url_space u) = url_trim u"
  by (simp add: url_trim_def rstrip_take [symmetric])

lemma url_trim_all:
  "dropWhile is_url_space u = u \<and> length (rstrip is_url_space (dropWhile is_url_space u)) = length u \<longleftrightarrow> url_trim u = u"
proof
  assume a: "dropWhile is_url_space u = u \<and> length (rstrip is_url_space (dropWhile is_url_space u)) = length u"
  then have "dropWhile is_url_space u = u" "length (rstrip is_url_space u) = length u" by auto
  then show "url_trim u = u" using url_trim_eq [of u] by simp
next
  assume t: "url_trim u = u"
  have "length (url_trim u) \<le> length (dropWhile is_url_space u)" by (simp add: url_trim_def rstrip_length)
  then have "length (dropWhile is_url_space u) = length u" using t length_dropWhile_le [of is_url_space u] by simp
  then have "dropWhile is_url_space u = u"
    by (metis append_eq_append_conv append_self_conv2 takeWhile_dropWhile_id)
  then show "dropWhile is_url_space u = u \<and> length (rstrip is_url_space (dropWhile is_url_space u)) = length u"
    using t by (simp add: url_trim_def)
qed

text \<open>C17: \<^verbatim>\<open>tpl_url\<close> lets a URL through exactly if, trimmed of surrounding white space, it has no control
  character and no scheme other than http, https and mailto in any case; every other URL, and any URL for which the memory
  of the trimmed copy is missing, becomes the invalid marker.\<close>

theorem tpl_url_decided:
  "url_s (fst (tpl_url mem out (Some u))) =
     Some (if url_benign (url_trim u) \<and> (url_trim u = u \<or> (\<exists>at. fst (arena_alloc mem out (length (url_trim u) + 1)) = Some at))
           then url_trim u else ''about:invalid#ctmpl'')"
proof (cases "url_trim u = u")
  case True
  then have "dropWhile is_url_space u = u" "length (rstrip is_url_space u) = length u" using url_trim_all [of u] by auto
  then show ?thesis using True url_safe_iff [of u]
    by (simp add: tpl_url_def Let_def tpl_url_val_def INVALID_URL_def)
next
  case False
  then have "\<not> (dropWhile is_url_space u = u \<and> length (rstrip is_url_space (dropWhile is_url_space u)) = length u)"
    using url_trim_all by blast
  then show ?thesis using False url_safe_iff [of "url_trim u"] url_trim_eq [of u]
    by (auto simp: tpl_url_def Let_def tpl_url_val_def INVALID_URL_def url_trim_def split: option.split prod.split)
qed

lemma wrote_url: "wrote mem out [] (snd (tpl_url mem out u))"
  using wrote_arena_any [of mem out] by (auto simp: tpl_url_def Let_def split: option.split prod.split)

section \<open>What becomes of declarations\<close>

text \<open>
  The reference reading of a declaration list: its parts between semicolons outside parentheses, trimmed, the empty ones
  dropped. A part is replaced as a whole if it has no colon or no property name, and its value is replaced if it is
  unsafe; the parts are joined by a semicolon and a space.
\<close>

function declarations :: "string \<Rightarrow> string list" where
  "declarations [] = []"
| "declarations (c # s) =
     (let n = decl_span 0 (c # s);
          t = rstrip is_space (dropWhile is_space (take n (c # s)))
      in (if t = [] then [] else [t]) @ declarations (drop (n + 1) (c # s)))"
  by pat_completeness auto
termination by (relation "measure length") auto

definition prop_of :: "string \<Rightarrow> string" where
  "prop_of t = takeWhile (\<lambda>c. c \<noteq> CHR '':'') t"

definition value_of :: "string \<Rightarrow> string" where
  "value_of t = drop (length (prop_of t) + 1) t"

definition prop_ok :: "string \<Rightarrow> bool" where
  "prop_ok t \<longleftrightarrow> css_prop_valid t (length t)"

definition sanitised :: "string \<Rightarrow> string" where
  "sanitised t =
     (if CHR '':'' \<notin> set t \<or> \<not> prop_ok (prop_of t) then ''zctmplUnsafeCSS''
      else if css_value_unsafe (value_of t) (length (value_of t)) then prop_of t @ '':zctmplUnsafeCSS''
      else t)"

fun join_decls :: "string list \<Rightarrow> string" where
  "join_decls [] = []"
| "join_decls [t] = t"
| "join_decls (t # u # ts) = t @ ''; '' @ join_decls (u # ts)"

subsection \<open>Windows\<close>

text \<open>Inside its span a value is judged by the bytes of the span alone.\<close>

lemma ncase_window: "i + k \<le> n \<Longrightarrow> length w = k \<Longrightarrow> strncaseeq (drop i (take n v)) w k = strncaseeq (drop i v) w k"
  by (simp add: strncaseeq_def drop_take min_def)

lemma ci_contains_window: "ci_contains (take n v) n w = ci_contains v n w"
proof -
  have "strncaseeq (drop i (take n v)) w (length w) = strncaseeq (drop i v) w (length w)"
    if "\<not> n < length w" "i < Suc (n - length w)" for i
    using that by (intro ncase_window) auto
  then show ?thesis by (auto simp: ci_contains_def list_ex_iff)
qed

lemma find_cong: "(\<And>x. x \<in> set xs \<Longrightarrow> P x = Q x) \<Longrightarrow> find P xs = find Q xs"
  by (induction xs) auto

lemma ci_starts_window: "k \<le> m \<Longrightarrow> ci_starts (take m s) k w = ci_starts s k w"
  using ncase_window [of 0 "length w" m w s] by (auto simp: ci_starts_def)

lemma css_url_window: "css_url_loop (take n v) n i = css_url_loop v n i"
proof (induction v n i rule: css_url_loop.induct)
  case (1 v n i)
  let ?f = "find (\<lambda>j. strncaseeq (drop j v) ''url('' 4) [i..<n - 3]"
  have f: "find (\<lambda>j. strncaseeq (drop j (take n v)) ''url('' 4) [i..<n - 3] = ?f"
    by (rule find_cong, rule ncase_window) auto
  show ?case
  proof (cases ?f)
    case None
    then show ?thesis using f by (simp add: css_url_loop.simps [of v n i] css_url_loop.simps [of "take n v" n i])
  next
    case (Some pos)
    let ?inner = "drop (pos + 4) v"
    let ?m = "length (takeWhile (\<lambda>c. c \<noteq> CHR '')'') (take (n - (pos + 4)) ?inner))"
    have m: "?m \<le> n - (pos + 4)"
      using length_takeWhile_le [of "\<lambda>c. c \<noteq> CHR '')''" "take (n - (pos + 4)) ?inner"] by simp
    have w: "drop (pos + 4) (take n v) = take (n - (pos + 4)) ?inner" by (simp add: drop_take)
    show ?thesis
      using 1 [OF Some refl refl refl] m
      unfolding css_url_loop.simps [of v n i] css_url_loop.simps [of "take n v" n i] f Some option.case Let_def w
      by (auto simp: ci_starts_window min_def)
  qed
qed

lemma value_window: "n \<le> length v \<Longrightarrow> css_value_unsafe (take n v) n = css_value_unsafe v n"
  by (simp add: css_value_unsafe_def ci_contains_window css_url_unsafe_def css_url_window)

lemma rstrip_dropWhile_nil: "rstrip P t = [] \<longleftrightarrow> list_all P t"
  by (induction t rule: rev_induct) auto

subsection \<open>One declaration\<close>

lemma next_decl_text:
  assumes "next_decl s = (d, dlen, rest)"
  shows "take dlen d = rstrip is_space (dropWhile is_space (take (decl_span 0 s) s))"
    and "dlen = length (take dlen d)" and "rest = drop (decl_span 0 s + 1) s" and "dlen \<le> decl_span 0 s"
proof -
  let ?n = "decl_span 0 s"
  let ?lead = "length (takeWhile is_space (take ?n s))"
  define u where "u = dropWhile is_space (take ?n s)"
  have t: "drop ?lead (take ?n s) = u" unfolding u_def by (simp add: dropWhile_eq_drop)
  have d: "d = drop ?lead s" "dlen = length (rstrip is_space u)" and r: "rest = drop (?n + 1) s"
    using assms t by (auto simp: next_decl_def Let_def)
  have u: "u = take (?n - ?lead) d" using t by (simp add: d(1) drop_take)
  have len: "dlen \<le> length u" by (simp add: d(2) rstrip_length)
  then have "dlen \<le> ?n - ?lead" unfolding u by simp
  then have "take dlen u = take dlen d" unfolding u by (simp add: min_def)
  then have e: "take dlen d = rstrip is_space u" using rstrip_take [of is_space u] d(2) by simp
  then show "take dlen d = rstrip is_space (dropWhile is_space (take ?n s))" by (simp add: u_def)
  show "dlen = length (take dlen d)" unfolding e by (rule d(2))
  show "rest = drop (?n + 1) s" by (rule r)
  show "dlen \<le> ?n" using \<open>dlen \<le> ?n - ?lead\<close> by simp
qed

lemma declarations_next:
  assumes "next_decl (c # s) = (d, dlen, rest)"
  shows "declarations (c # s) = (if dlen = 0 then [] else [take dlen d]) @ declarations rest"
  using next_decl_text [OF assms] by (auto simp: Let_def)

lemma colon_in_window:
  assumes "CHR '':'' \<in> set (take n d)"
  shows "takeWhile (\<lambda>c. c \<noteq> CHR '':'') d = prop_of (take n d)" and "length (prop_of (take n d)) < n"
    and "n \<le> length d \<Longrightarrow> take (n - length (prop_of (take n d)) - 1) (drop (length (prop_of (take n d)) + 1) d) = value_of (take n d)"
proof -
  obtain x where x: "dropWhile (\<lambda>c. c \<noteq> CHR '':'') (take n d) = CHR '':'' # x"
    using dropWhile_neq_cases [of "CHR '':''" "take n d"] assms by (auto simp: dropWhile_eq_Nil_conv)
  then have t: "take n d = prop_of (take n d) @ CHR '':'' # x" by (metis prop_of_def takeWhile_dropWhile_id)
  have "CHR '':'' \<notin> set (prop_of (take n d))" by (simp add: prop_of_def)
  then have "takeWhile (\<lambda>c. c \<noteq> CHR '':'') (prop_of (take n d) @ CHR '':'' # x @ drop n d) = prop_of (take n d)" by simp
  moreover have "d = prop_of (take n d) @ CHR '':'' # x @ drop n d" using t by (metis append.assoc append_Cons append_take_drop_id)
  ultimately show "takeWhile (\<lambda>c. c \<noteq> CHR '':'') d = prop_of (take n d)" by simp
  have "length (prop_of (take n d)) + 1 \<le> length (take n d)" by (subst (2) t) simp
  then show "length (prop_of (take n d)) < n" by simp
  show "n \<le> length d \<Longrightarrow> take (n - length (prop_of (take n d)) - 1) (drop (length (prop_of (take n d)) + 1) d) = value_of (take n d)"
    by (simp add: value_of_def drop_take)
qed

lemma rebuilt_decl_eq: "dlen \<le> length d \<Longrightarrow> rebuilt_decl d dlen = sanitised (take dlen d)"
proof (cases "CHR '':'' \<in> set (take dlen d)")
  case True
  assume l: "dlen \<le> length d"
  let ?p = "prop_of (take dlen d)"
  note c = colon_in_window [OF True]
  have p: "take (length ?p) d = ?p" using c(1) by (metis takeWhile_eq_take)
  have "css_prop_valid d (length ?p) = prop_ok ?p" using p by (simp add: prop_ok_def css_prop_valid_def)
  moreover have "css_value_unsafe (drop (length ?p + 1) d) (dlen - length ?p - 1) =
      css_value_unsafe (value_of (take dlen d)) (length (value_of (take dlen d)))"
    using value_window [of "dlen - length ?p - 1" "drop (length ?p + 1) d"] c(2) c(3) [OF l] l
    by (simp add: value_of_def)
  ultimately show ?thesis using True c(1) p by (simp add: rebuilt_decl_def sanitised_def Let_def)
qed (simp add: rebuilt_decl_def sanitised_def Let_def)

lemma sanitised_length: "t \<noteq> [] \<Longrightarrow> length (sanitised t) \<le> length t + 15"
proof -
  assume "t \<noteq> []"
  moreover have "CHR '':'' \<in> set t \<Longrightarrow> length (prop_of t) < length t"
    using colon_in_window(2) [of "length t" t] by simp
  ultimately show ?thesis by (cases t) (auto simp: sanitised_def)
qed

subsection \<open>The rebuilt list\<close>

definition seps :: "string \<Rightarrow> nat" where
  "seps s = length (filter (\<lambda>c. c = CHR '';'') s)"

lemma seps_simps [simp]: "seps [] = 0" "seps (c # s) = (if c = CHR '';'' then 1 else 0) + seps s" "seps (s @ t) = seps s + seps t"
  by (simp_all add: seps_def)

lemma decl_span_end: "decl_span p s < length s \<Longrightarrow> s ! decl_span p s = CHR '';''"
  by (induction p s rule: decl_span.induct) auto

lemma decl_span_le: "decl_span p s \<le> length s"
  by (induction p s rule: decl_span.induct) auto

lemma decl_step:
  assumes "n = decl_span 0 s" and "drop (n + 1) s \<noteq> []"
  shows "length (drop (n + 1) s) + n + 1 = length s" "seps (drop (n + 1) s) + 1 \<le> seps s"
proof -
  have n: "n + 1 < length s" using assms(2) by simp
  then show "length (drop (n + 1) s) + n + 1 = length s" by simp
  have c: "s ! n = CHR '';''" using decl_span_end [of 0 s] n by (simp add: assms(1))
  have s: "s = take n s @ s ! n # drop (n + 1) s" using n by (simp add: id_take_nth_drop)
  have "seps (take n s @ CHR '';'' # drop (n + 1) s) \<ge> seps (drop (n + 1) s) + 1" by simp
  then show "seps (drop (n + 1) s) + 1 \<le> seps s" using s c by metis
qed

text \<open>What the declarations of a rest can still need in the buffer.\<close>

definition css_room :: "string \<Rightarrow> nat" where
  "css_room s = (if s = [] then 0 else length s + (seps s + 1) * 32)"

lemma join_snoc: "ts \<noteq> [] \<Longrightarrow> join_decls ts @ ''; '' @ join_decls (u # us) = join_decls (ts @ u # us)"
  by (induction ts rule: join_decls.induct) auto

lemma rebuild_exact:
  assumes "length buf + css_room s < cap" and "first = (ts = [])" and "buf = join_decls ts"
  shows "css_rebuild s cap buf first = join_decls (ts @ map sanitised (declarations s))"
  using assms
proof (induction s cap buf first arbitrary: ts rule: css_rebuild.induct)
  case (2 c s cap buf first)
  obtain d dlen rest where n: "next_decl (c # s) = (d, dlen, rest)" by (cases "next_decl (c # s)")
  let ?n = "decl_span 0 (c # s)"
  note t = next_decl_text [OF n]
  have room: "css_room rest + ?n + 33 \<le> css_room (c # s)" if "rest \<noteq> []"
    using that decl_step [of ?n "c # s"] t(3) by (auto simp: css_room_def)
  have here: "?n + 32 \<le> css_room (c # s)" using decl_span_le [of 0 "c # s"] by (simp add: css_room_def)
  show ?case
  proof (cases "dlen = 0")
    case True
    have "css_room rest \<le> css_room (c # s)" using room by (cases "rest = []") (auto simp: css_room_def)
    then show ?thesis
      using 2(1) [OF n [symmetric] refl True, of ts] 2(3-5) n True declarations_next [OF n] by simp
  next
    case False
    let ?t = "take dlen d"
    let ?buf = "(if first then buf else buf @ ''; '') @ rebuilt_decl d dlen"
    have l: "dlen \<le> length d" using t(2) by simp
    have ne: "?t \<noteq> []" using False t(2) by auto
    have len: "length (rebuilt_decl d dlen) \<le> ?n + 15"
      using sanitised_length [OF ne] rebuilt_decl_eq [OF l] t(2,4) by simp
    have b: "length ?buf \<le> length buf + 2 + ?n + 15"
    proof -
      have "length ?buf \<le> length buf + 2 + length (rebuilt_decl d dlen)" by simp
      then show ?thesis using len by linarith
    qed
    have fit: "length ?buf < cap" using b here 2(3) by linarith
    have fit2: "length (if first then buf else buf @ ''; '') + length (rebuilt_decl d dlen) < cap" using fit by simp
    have more: "length ?buf + css_room rest < cap"
    proof (cases "rest = []")
      case False
      then show ?thesis using room b 2(3) by linarith
    qed (use fit in \<open>simp add: css_room_def\<close>)
    have joined: "?buf = join_decls (ts @ [sanitised ?t])"
      using 2(4,5) join_snoc [of ts "sanitised ?t" "[]"] rebuilt_decl_eq [OF l] by (cases "ts = []") auto
    have "\<not> (\<not> first \<and> length buf + 2 \<ge> cap)" using here 2(3) by linarith
    then have "css_rebuild (c # s) cap buf first = css_rebuild rest cap ?buf False"
      using n False fit by (auto simp: Let_def not_le)
    also have "\<dots> = join_decls ((ts @ [sanitised ?t]) @ map sanitised (declarations rest))"
      using 2(2) [OF n [symmetric] refl False _ refl refl, of "ts @ [sanitised ?t]"] more joined fit2
        \<open>\<not> (\<not> first \<and> length buf + 2 \<ge> cap)\<close> by (simp add: not_le)
    finally show ?thesis using declarations_next [OF n] False by simp
  qed
qed simp

subsection \<open>What can reach a style attribute\<close>

definition css_risky :: "string \<Rightarrow> bool" where
  "css_risky v \<longleftrightarrow>
     list_ex (\<lambda>c. is_ctl c \<or> c = CHR ''<'' \<or> c = CHR ''>'') v \<or>
     list_ex (ci_contains v (length v)) [''javascript:'', ''vbscript:'', ''expression('', ''behavior:'', ''@import'']"

definition admissible :: "string \<Rightarrow> bool" where
  "admissible d \<longleftrightarrow>
     d = ''zctmplUnsafeCSS'' \<or>
     (\<exists>p sp v. d = p @ sp @ CHR '':'' # v \<and> list_all is_space sp \<and> prop_ok p \<and>
        (v = ''zctmplUnsafeCSS'' \<or> \<not> css_risky v))"

lemma ci_contains_mono: "k \<le> n \<Longrightarrow> ci_contains v k w \<Longrightarrow> ci_contains v n w"
proof -
  assume k: "k \<le> n" and c: "ci_contains v k w"
  then obtain i where "i < k - length w + 1" "strncaseeq (drop i v) w (length w)"
    unfolding ci_contains_def list_ex_iff set_upt by (meson atLeastLessThan_iff)
  then have "i < n - length w + 1" "strncaseeq (drop i v) w (length w)" using k by linarith+
  then have "i \<in> set [0..<n - length w + 1]" "strncaseeq (drop i v) w (length w)" by (simp_all del: upt_Suc)
  then show ?thesis using k c unfolding ci_contains_def list_ex_iff by (meson order.strict_trans1 not_less)
qed

lemma risky_window:
  assumes "css_risky (take k w)" and "k \<le> n" and "k \<le> length w"
  shows "css_value_unsafe w n"
proof -
  have "set (take k w) \<subseteq> set (take n (w @ [NUL]))"
    using assms(2,3) set_take_subset_set_take [of k n "w @ [NUL]"] by simp
  moreover have "ci_contains (take k w) (length (take k w)) x = ci_contains w k x" for x
    using assms(3) ci_contains_window [of k w x] by simp
  ultimately show ?thesis
    using assms(1) ci_contains_mono [OF assms(2)] unfolding css_risky_def css_value_unsafe_def list_ex_iff by auto
qed

lemma decl_parts: "CHR '':'' \<in> set t \<Longrightarrow> t = prop_of t @ CHR '':'' # value_of t"
proof -
  assume "CHR '':'' \<in> set t"
  then obtain x where "dropWhile (\<lambda>c. c \<noteq> CHR '':'') t = CHR '':'' # x"
    using dropWhile_neq_cases [of "CHR '':''" t] by (auto simp: dropWhile_eq_Nil_conv)
  then have t: "t = prop_of t @ CHR '':'' # x" by (metis prop_of_def takeWhile_dropWhile_id)
  have "drop (length p + 1) (p @ CHR '':'' # x) = x" for p by simp
  then have "value_of t = x" unfolding value_of_def by (subst (2) t)
  then show ?thesis using t by simp
qed

lemma sanitised_admissible: "admissible (sanitised t)"
proof (cases "CHR '':'' \<in> set t \<and> prop_ok (prop_of t)")
  case True
  note t = decl_parts [OF conjunct1 [OF True]]
  have "\<not> css_value_unsafe (value_of t) (length (value_of t)) \<Longrightarrow> \<not> css_risky (value_of t)"
    using risky_window [of "length (value_of t)" "value_of t"] by auto
  then have "\<exists>v. sanitised t = prop_of t @ [] @ CHR '':'' # v \<and> (v = ''zctmplUnsafeCSS'' \<or> \<not> css_risky v)"
    using True t by (auto simp: sanitised_def)
  then show ?thesis using True unfolding admissible_def by (metis list.pred_inject(1))
qed (auto simp: sanitised_def admissible_def)

lemma all_safe_admissible: "css_all_safe s \<Longrightarrow> list_all admissible (declarations s)"
proof (induction s rule: css_all_safe.induct)
  case (2 c s)
  obtain d dlen rest where n: "next_decl (c # s) = (d, dlen, rest)" by (cases "next_decl (c # s)")
  note t = next_decl_text [OF n]
  show ?case
  proof (cases "dlen = 0")
    case True
    then show ?thesis using 2 n declarations_next [OF n] by simp
  next
    case False
    let ?t = "take dlen d"
    have col: "CHR '':'' \<in> set ?t" using 2(3) n False by (auto split: if_splits)
    note c = colon_in_window [OF col]
    let ?q = "prop_of ?t"
    let ?p = "rstrip is_space ?q"
    have q: "take (length ?q) d = ?q" using c(1) by (metis takeWhile_eq_take)
    have p: "take (length ?p) d = ?p"
      using q rstrip_take [of is_space ?q] rstrip_length [of is_space ?q] by (metis take_take min.absorb1)
    have safe: "css_prop_valid d (length ?p)" "\<not> css_value_unsafe (drop (length ?q + 1) d) (dlen - length ?p - 1)" "css_all_safe rest"
      using 2(3) n False col c(1) q by (auto simp: Let_def split: if_splits)
    have "prop_ok ?p" using safe(1) p by (simp add: prop_ok_def css_prop_valid_def)
    moreover have "\<not> css_risky (value_of ?t)"
    proof
      assume "css_risky (value_of ?t)"
      then have "css_risky (take (dlen - length ?q - 1) (drop (length ?q + 1) d))" using c(3) t(2) by simp
      moreover have "dlen - length ?q - 1 \<le> dlen - length ?p - 1" using rstrip_length [of is_space ?q] by simp
      moreover have "dlen - length ?q - 1 \<le> length (drop (length ?q + 1) d)" using t(2) by simp
      ultimately show False using risky_window safe(2) by blast
    qed
    moreover obtain sp where "?q = ?p @ sp" "list_all is_space sp" using rstrip_prefix by blast
    ultimately have "admissible ?t" using decl_parts [OF col] unfolding admissible_def by (metis append.assoc)
    moreover have "list_all admissible (declarations rest)"
      using 2(2) [OF n [symmetric] refl False _ refl refl refl] col c(1) q safe by simp
    ultimately show ?thesis using declarations_next [OF n] False by simp
  qed
qed simp


text \<open>
  A space before the colon is trimmed off the property name but still counted into the value, so the check of the
  value reads behind the declaration: a good declaration at the end of the list is rejected, and one that is followed by another
  is judged together with the beginning of that one, which can hide that its \<^verbatim>\<open>url(\<close> is not closed.
\<close>

lemma css_space_before_colon:
  "css_all_safe ''color:red'' \<and> \<not> css_all_safe ''color :red'' \<and> sanitised ''color :red'' = ''zctmplUnsafeCSS''"
  by code_simp

lemma css_hidden_url:
  "css_all_safe ''a     :)url(http://x;b:c)'' \<and>
   declarations ''a     :)url(http://x;b:c)'' = [''a     :)url(http://x'', ''b:c)''] \<and>
   css_value_unsafe '')url(http://x'' 13"
  by code_simp

end
