(* ===== verification/Tpl_Render.thy ===== *)
theory Tpl_Render
  imports Tpl_Values
begin

text \<open>
  Components against what they mean. A component is a list of calls of the runtime, with the bodies of its fragment and
  once blocks nested as the generator emits them; \<open>render\<close> runs the calls, \<open>meaning\<close> is the text that a reader of the
  template expects. The lemmas show that the runtime writes exactly this text or reports a failure, and
  that \<^verbatim>\<open>http_res_html\<close> hands it to the response unchanged.
\<close>

section \<open>Components\<close>

datatype component_call =
    Lit string
  | Esc "string option"
  | Attr "string option"
  | Attr_url "string option"
  | Attr_safe_url "string option"
  | Attr_css "string option"
  | Int_value "64 word"
  | Fragment "string option" "component_call list"
  | Once "nat option" "component_call list"

fun render :: "allocator \<Rightarrow> TplOut \<Rightarrow> component_call list \<Rightarrow> TplOut" where
  "render mem out [] = out"
| "render mem out (Lit s # cs) = render mem (tpl_lit mem out (Some s)) cs"
| "render mem out (Esc s # cs) = render mem (tpl_esc mem out s) cs"
| "render mem out (Attr s # cs) = render mem (tpl_attr mem out s) cs"
| "render mem out (Attr_url u # cs) =
     (case tpl_url mem out u of (url, out1) \<Rightarrow> render mem (tpl_attr_url mem out1 url) cs)"
| "render mem out (Attr_safe_url u # cs) = render mem (tpl_attr_url mem out (tpl_safe_url u)) cs"
| "render mem out (Attr_css d # cs) =
     (case tpl_css mem out d of (css, out1) \<Rightarrow> render mem (tpl_attr_css mem out1 css) cs)"
| "render mem out (Int_value i # cs) =
     (case tpl_int mem out i of (s, out1) \<Rightarrow> render mem (tpl_esc mem out1 (Some s)) cs)"
| "render mem out (Fragment name body # cs) =
     render mem (tpl_frag_end (render mem (tpl_frag_begin out name) body)) cs"
| "render mem out (Once h body # cs) =
     (case tpl_once_begin mem out h of
        (False, out1) \<Rightarrow> render mem out1 cs
      | (True, out1) \<Rightarrow> render mem (render mem out1 body) cs)"

section \<open>What a component means\<close>

definition optional_text :: "string option \<Rightarrow> string" where
  "optional_text s = (case s of None \<Rightarrow> [] | Some t \<Rightarrow> t)"

definition url_text :: "string option \<Rightarrow> string" where
  "url_text u =
     (case u of None \<Rightarrow> INVALID_URL | Some s \<Rightarrow> if url_benign (url_trim s) then url_trim s else INVALID_URL)"

definition css_text :: "string option \<Rightarrow> string" where
  "css_text d =
     (case d of None \<Rightarrow> [] | Some s \<Rightarrow> if css_all_safe s then s else join_decls (map sanitised (declarations s)))"

fun call_text :: "component_call \<Rightarrow> string" where
  "call_text (Lit s) = s"
| "call_text (Esc s) = escape (optional_text s)"
| "call_text (Attr s) = escape (optional_text s)"
| "call_text (Attr_url u) = escape (url_text u)"
| "call_text (Attr_safe_url u) = escape (case u of None \<Rightarrow> INVALID_URL | Some s \<Rightarrow> s)"
| "call_text (Attr_css d) = escape (css_text d)"
| "call_text (Int_value i) = escape (show_int (sint i))"
| "call_text c = []"

text \<open>
  \<open>inside\<close>: the text is part of the selected fragment, or nothing is selected. The handles that have fired are threaded
  through.
\<close>

fun meaning :: "string option \<Rightarrow> bool \<Rightarrow> nat list \<Rightarrow> component_call list \<Rightarrow> string \<times> nat list" where
  "meaning sel inside fired [] = ([], fired)"
| "meaning sel inside fired (Fragment name body # cs) =
     (case meaning sel (inside \<or> sel = name) fired body of
        (t, f1) \<Rightarrow> case meaning sel inside f1 cs of (u, f2) \<Rightarrow> (t @ u, f2))"
| "meaning sel inside fired (Once h body # cs) =
     (case h of
        None \<Rightarrow> meaning sel inside fired cs
      | Some a \<Rightarrow>
          if a \<in> set fired then meaning sel inside fired cs
          else
            (case meaning sel inside (fired @ [a]) body of
               (t, f1) \<Rightarrow> case meaning sel inside f1 cs of (u, f2) \<Rightarrow> (t @ u, f2)))"
| "meaning sel inside fired (c # cs) =
     (case meaning sel inside fired cs of (u, f) \<Rightarrow> ((if inside then call_text c else []) @ u, f))"

section \<open>Running calls\<close>

definition frag_ok :: "TplOut \<Rightarrow> bool" where
  "frag_ok out \<longleftrightarrow> 0 \<le> frag_match out \<and> frag_match out \<le> frag_depth out"

definition inside_sel :: "TplOut \<Rightarrow> bool" where
  "inside_sel out \<longleftrightarrow> frag_sel out = None \<or> frag_match out > 0"

definition same_frag :: "TplOut \<Rightarrow> TplOut \<Rightarrow> bool" where
  "same_frag out out' \<longleftrightarrow>
     frag_sel out' = frag_sel out \<and> frag_match out' = frag_match out \<and> frag_depth out' = frag_depth out"

definition ran :: "allocator \<Rightarrow> TplOut \<Rightarrow> string \<Rightarrow> nat list \<Rightarrow> TplOut \<Rightarrow> bool" where
  "ran mem out t f out' \<longleftrightarrow>
     same_frag out out' \<and> extends mem out t out' \<and> (\<not> out_failed out' \<longrightarrow> once_fired out' = f)"

lemma ran_refl: "ran mem out [] (once_fired out) out"
  by (simp add: ran_def same_frag_def)

lemma ran_trans:
  assumes "ran mem out t f1 out1" and "ran mem out1 u' f2' out2"
    and "\<not> out_failed out1 \<Longrightarrow> u' = u \<and> f2' = f2"
  shows "ran mem out (t @ u) f2 out2"
proof (cases "out_failed out1")
  case True
  then have "out_failed out2" "out_bytes out2 = out_bytes out1" using assms(2) by (auto simp: ran_def extends_def)
  then show ?thesis using assms(1,2) True by (auto simp: ran_def same_frag_def extends_def prefix_append)
next
  case False
  then show ?thesis
    using assms extends_trans [of mem out t out1 u out2] by (simp add: ran_def same_frag_def)
qed

lemma wrote_ran: "wrote mem out t out1 \<Longrightarrow> ran mem out (if inside_sel out then t else []) (once_fired out) out1"
  by (auto simp: wrote_def ran_def same_frag_def same_frame_def kept_def inside_sel_def)

lemma ran_nothing:
  "same_frag out out1 \<Longrightarrow> out_bytes out1 = out_bytes out \<Longrightarrow> out_failed out1 \<Longrightarrow> \<exists>n. \<not> mem n \<Longrightarrow> ran mem out t f out1"
  by (auto simp: ran_def extends_def)

subsection \<open>Leaves\<close>

lemma show_nat_length: "n < 10 ^ Suc k \<Longrightarrow> length (show_nat n) \<le> Suc k"
proof (induction k arbitrary: n)
  case 0
  then show ?case by (simp add: show_nat_rec [of n])
next
  case (Suc k)
  then have "n div 10 < 10 ^ Suc k" by (simp add: less_mult_imp_div_less)
  then have "length (show_nat (n div 10)) \<le> Suc k" by (rule Suc.IH)
  then show ?case by (simp add: show_nat_rec [of n])
qed

lemma int_fits: "snprint 21 (show_int (sint (i :: 64 word))) = show_int (sint i)"
proof -
  have r: "- (2 ^ 63) \<le> sint i" "sint i < 2 ^ 63" using sint_range_size [of i] by (simp_all add: word_size)
  then have "nat (- sint i) < 10 ^ Suc 18" "nat (sint i) < 10 ^ Suc 18" by (simp_all add: nat_less_iff)
  then have "length (show_nat (nat (- sint i))) \<le> Suc 18" "length (show_nat (nat (sint i))) \<le> Suc 18"
    using show_nat_length by blast+
  then show ?thesis by (simp add: show_int_def)
qed

lemma wrote_int:
  "tpl_int mem out i = (s, out1) \<Longrightarrow> wrote mem out (escape (show_int (sint i))) (tpl_esc mem out1 (Some s))"
proof -
  assume r: "tpl_int mem out i = (s, out1)"
  obtain x out2 where a: "arena_alloc mem out 21 = (x, out2)" by fastforce
  show ?thesis
  proof (cases x)
    case None
    then show ?thesis
      using r a wrote_nothing [OF wrote_arena_any [OF a] _ wrote_escaped [of mem out2 "[]"]] arena_fails [of mem out 21 out2]
      by (simp add: tpl_int_def tpl_esc_def)
  next
    case (Some at)
    then have "s = show_int (sint i)" "out1 = out2" using r a by (auto simp: tpl_int_def int_fits)
    then show ?thesis
      using wrote_trans [OF wrote_arena_any [OF a] wrote_escaped [of mem out2 "show_int (sint i)"]] by (simp add: tpl_esc_def)
  qed
qed

lemma wrote_attr_url:
  "tpl_url mem out u = (url, out1) \<Longrightarrow> wrote mem out (escape (url_text u)) (tpl_attr_url mem out1 url)"
proof -
  assume r: "tpl_url mem out u = (url, out1)"
  have w: "wrote mem out [] out1" using wrote_url [of mem out u] r by simp
  show ?thesis
  proof (cases u)
    case None
    then show ?thesis using r wrote_escaped by (auto simp: tpl_url_def url_text_def tpl_attr_url_def tpl_url_val_def)
  next
    case (Some s)
    obtain x out2 where a: "arena_alloc mem out (length (url_trim s) + 1) = (x, out2)" by fastforce
    have d: "url_s url = Some (if url_benign (url_trim s) \<and> (url_trim s = s \<or> x \<noteq> None) then url_trim s else INVALID_URL)"
      using tpl_url_decided [of mem out s] r a Some by (auto simp: INVALID_URL_def)
    show ?thesis
    proof (cases "url_trim s = s \<or> x \<noteq> None")
      case True
      then have "url_s url = Some (url_text u)" using d Some by (simp add: url_text_def)
      then show ?thesis using wrote_trans [OF w wrote_escaped [of mem out1 "url_text u"]] by (simp add: tpl_attr_url_def)
    next
      case False
      then have "x = None" by blast
      then have "out1 = out2" using r a Some False url_trim_all [of s]
        by (auto simp: tpl_url_def Let_def url_trim_def split: if_splits)
      moreover have "out_failed out2" "\<exists>n. \<not> mem n" using arena_fails(3,4) a \<open>x = None\<close> by blast+
      ultimately show ?thesis using wrote_nothing [OF w _ wrote_escaped] d by (simp add: tpl_attr_url_def)
    qed
  qed
qed

lemma wrote_attr_css:
  "tpl_css mem out d = (css, out1) \<Longrightarrow> wrote mem out (escape (css_text d)) (tpl_attr_css mem out1 css)"
proof -
  assume r: "tpl_css mem out d = (css, out1)"
  show ?thesis
  proof (cases "case d of None \<Rightarrow> True | Some s \<Rightarrow> css_all_safe s")
    case True
    then have "out1 = out" "css_s css = Some (css_text d)" using r
      by (auto simp: tpl_css_def css_text_def split: option.splits)
    then show ?thesis using wrote_escaped by (simp add: tpl_attr_css_def)
  next
    case False
    then obtain s where s: "d = Some s" "\<not> css_all_safe s" by (auto split: option.splits)
    let ?cap = "length s + (seps s + 1) * 32 + 1"
    have t: "css_rebuild s ?cap [] True = css_text d"
      using rebuild_exact [of "[]" s ?cap True "[]"] s by (simp add: css_room_def css_text_def)
    obtain x out2 where a: "arena_alloc mem out ?cap = (x, out2)" by fastforce
    note w = wrote_arena_any [OF a]
    show ?thesis
    proof (cases x)
      case None
      have f: "out_failed out2" "\<exists>n. \<not> mem n" using arena_fails(3,4) a None by blast+
      then have "out2\<lparr>out_failed := True\<rparr> = out2" by simp
      then have "out1 = out2" "css_s css = Some []" using r s a None by (auto simp: tpl_css_def Let_def seps_def)
      then show ?thesis using wrote_nothing [OF w f(1) wrote_escaped f(2)] by (simp add: tpl_attr_css_def)
    next
      case (Some y)
      then have "out1 = out2" "css_s css = Some (css_text d)" using r s a t by (auto simp: tpl_css_def Let_def seps_def)
      then show ?thesis using wrote_trans [OF w wrote_escaped [of mem out2 "css_text d"]] by (simp add: tpl_attr_css_def)
    qed
  qed
qed

subsection \<open>Blocks\<close>

lemma ran_begin: "ran mem out1 t f out2 \<Longrightarrow> out1 = tpl_frag_begin out name \<Longrightarrow> frag_ok out \<Longrightarrow> ran mem out t f (tpl_frag_end out2)"
  by (auto simp: ran_def same_frag_def extends_def tpl_frag_begin_def tpl_frag_end_def frag_ok_def out_bytes_def Let_def
      split: if_splits)

lemma begin_state:
  assumes "frag_ok out" and "out1 = tpl_frag_begin out name"
  shows "frag_ok out1" "frag_sel out1 = frag_sel out" "once_fired out1 = once_fired out"
    "inside_sel out1 \<longleftrightarrow> inside_sel out \<or> frag_sel out = name"
  using assms by (auto simp: tpl_frag_begin_def frag_ok_def inside_sel_def Let_def)

lemma ran_state: "ran mem out t f out1 \<Longrightarrow> frag_ok out \<Longrightarrow>
    frag_ok out1 \<and> frag_sel out1 = frag_sel out \<and> (inside_sel out1 \<longleftrightarrow> inside_sel out)"
  by (simp add: ran_def same_frag_def frag_ok_def inside_sel_def)

lemma registered:
  assumes "wrote mem out [] out2"
  shows "ran mem out [] (once_fired out @ [a]) (out2\<lparr>once_at := x, once_fired := once_fired out2 @ [a]\<rparr>)"
proof -
  have "out_bytes (out2\<lparr>once_at := x, once_fired := y\<rparr>) = out_bytes out2" for y by (simp add: out_bytes_def)
  then show ?thesis using assms by (auto simp: wrote_def ran_def same_frag_def same_frame_def extends_def kept_def)
qed

lemma once_cases:
  assumes "tpl_once_begin mem out h = (b, out1)"
  obtains (known) "\<not> b" "out1 = out" "h = None \<or> (\<exists>a. h = Some a \<and> a \<in> set (once_fired out))"
    | (fails) "\<not> b" "out_failed out1" "\<exists>n. \<not> mem n" "same_frag out out1" "out_bytes out1 = out_bytes out"
    | (fires) a where "b" "h = Some a" "a \<notin> set (once_fired out)" "ran mem out [] (once_fired out @ [a]) out1"
        "once_fired out1 = once_fired out @ [a]"
proof (cases h)
  case None
  then show thesis using assms known by (auto simp: tpl_once_begin_def)
next
  case (Some a)
  obtain x out2 where al: "arena_alloc mem out ((length (once_fired out) + 1) * 8) = (x, out2)" by fastforce
  consider "a \<in> set (once_fired out)" | "a \<notin> set (once_fired out)" "x = None" | y where "a \<notin> set (once_fired out)" "x = Some y"
    by (cases x) auto
  then show thesis
  proof cases
    case 1
    then show thesis using assms Some known by (auto simp: tpl_once_begin_def list_ex_iff)
  next
    case 2
    then have "b = False" "out1 = out2" using assms Some al by (auto simp: tpl_once_begin_def list_ex_iff)
    then show thesis using fails arena_fails [of mem out "(length (once_fired out) + 1) * 8" out2] al 2
      by (simp add: same_frag_def same_frame_def)
  next
    case 3
    then have "b" "out1 = out2\<lparr>once_at := Some y, once_fired := once_fired out2 @ [a]\<rparr>"
      using assms Some al by (auto simp: tpl_once_begin_def list_ex_iff)
    moreover have "wrote mem out [] out2" by (rule wrote_arena_any [OF al])
    ultimately show thesis using fires [of a] Some 3(1) registered [of mem out out2 a]
      by (simp add: wrote_def same_frame_def)
  qed
qed

subsection \<open>The whole component\<close>

text \<open>Some calls followed by the rest.\<close>

lemma then_rest:
  assumes "ran mem out t f1 out1" and "frag_ok out"
    and "\<And>u f. meaning (frag_sel out1) (inside_sel out1) (once_fired out1) cs = (u, f) \<Longrightarrow> ran mem out1 u f out2"
    and "meaning (frag_sel out) (inside_sel out) f1 cs = (u, f2)"
  shows "ran mem out (t @ u) f2 out2"
proof -
  obtain u' f2' where m: "meaning (frag_sel out1) (inside_sel out1) (once_fired out1) cs = (u', f2')" by fastforce
  have "once_fired out1 = f1" if "\<not> out_failed out1" using assms(1) that by (simp add: ran_def)
  then have "u' = u \<and> f2' = f2" if "\<not> out_failed out1"
    using that ran_state [OF assms(1,2)] assms(4) m by simp
  then show ?thesis by (rule ran_trans [OF assms(1) assms(3) [OF m]])
qed

lemma leaf_step:
  assumes "wrote mem out (call_text c) out1" and "frag_ok out"
    and "\<And>t f. meaning (frag_sel out1) (inside_sel out1) (once_fired out1) cs = (t, f) \<Longrightarrow> ran mem out1 t f out2"
    and "meaning (frag_sel out) (inside_sel out) (once_fired out) cs = (u, f)"
  shows "ran mem out ((if inside_sel out then call_text c else []) @ u) f out2"
  by (rule then_rest [OF wrote_ran [OF assms(1)] assms(2-4)])

lemma render_ran:
  "frag_ok out \<Longrightarrow> meaning (frag_sel out) (inside_sel out) (once_fired out) cs = (t, f) \<Longrightarrow> ran mem out t f (render mem out cs)"
proof (induction mem out cs arbitrary: t f rule: render.induct)
  case (1 mem out)
  then show ?case using ran_refl by auto
next
  case (2 mem out s cs)
  have w: "wrote mem out (call_text (Lit s)) (tpl_lit mem out (Some s))" by (simp add: tpl_lit_def wrote_all)
  have "frag_ok (tpl_lit mem out (Some s))" using ran_state [OF wrote_ran [OF w] 2(2)] by simp
  from leaf_step [OF w 2(2) 2(1) [OF this]] show ?case using 2(3) by (auto split: prod.splits)
next
  case (3 mem out s cs)
  have w: "wrote mem out (call_text (Esc s)) (tpl_esc mem out s)"
    by (cases s) (simp_all add: tpl_esc_def optional_text_def wrote_escaped)
  have "frag_ok (tpl_esc mem out s)" using ran_state [OF wrote_ran [OF w] 3(2)] by simp
  from leaf_step [OF w 3(2) 3(1) [OF this]] show ?case using 3(3) by (auto split: prod.splits)
next
  case (4 mem out s cs)
  have w: "wrote mem out (call_text (Attr s)) (tpl_attr mem out s)"
    by (cases s) (simp_all add: tpl_attr_def optional_text_def wrote_escaped)
  have "frag_ok (tpl_attr mem out s)" using ran_state [OF wrote_ran [OF w] 4(2)] by simp
  from leaf_step [OF w 4(2) 4(1) [OF this]] show ?case using 4(3) by (auto split: prod.splits)
next
  case (5 mem out u cs)
  obtain url out1 where r: "tpl_url mem out u = (url, out1)" by fastforce
  have w: "wrote mem out (call_text (Attr_url u)) (tpl_attr_url mem out1 url)" using wrote_attr_url [OF r] by simp
  have "frag_ok (tpl_attr_url mem out1 url)" using ran_state [OF wrote_ran [OF w] 5(2)] by simp
  from leaf_step [OF w 5(2) 5(1) [OF r [symmetric] this]] show ?case using 5(3) r by (auto split: prod.splits)
next
  case (6 mem out u cs)
  have w: "wrote mem out (call_text (Attr_safe_url u)) (tpl_attr_url mem out (tpl_safe_url u))"
    using wrote_escaped by (simp add: tpl_attr_url_def tpl_safe_url_def tpl_url_val_def)
  have "frag_ok (tpl_attr_url mem out (tpl_safe_url u))" using ran_state [OF wrote_ran [OF w] 6(2)] by simp
  from leaf_step [OF w 6(2) 6(1) [OF this]] show ?case using 6(3) by (auto split: prod.splits)
next
  case (7 mem out d cs)
  obtain css out1 where r: "tpl_css mem out d = (css, out1)" by fastforce
  have w: "wrote mem out (call_text (Attr_css d)) (tpl_attr_css mem out1 css)" using wrote_attr_css [OF r] by simp
  have "frag_ok (tpl_attr_css mem out1 css)" using ran_state [OF wrote_ran [OF w] 7(2)] by simp
  from leaf_step [OF w 7(2) 7(1) [OF r [symmetric] this]] show ?case using 7(3) r by (auto split: prod.splits)
next
  case (8 mem out i cs)
  obtain s out1 where r: "tpl_int mem out i = (s, out1)" by fastforce
  have w: "wrote mem out (call_text (Int_value i)) (tpl_esc mem out1 (Some s))" using wrote_int [OF r] by simp
  have "frag_ok (tpl_esc mem out1 (Some s))" using ran_state [OF wrote_ran [OF w] 8(2)] by simp
  from leaf_step [OF w 8(2) 8(1) [OF r [symmetric] this]] show ?case using 8(3) r by (auto split: prod.splits)
next
  case (9 mem out name body cs)
  let ?o1 = "tpl_frag_begin out name"
  let ?o2 = "tpl_frag_end (render mem ?o1 body)"
  note b = begin_state [OF 9(3) refl, of name]
  obtain t1 f1 where m1: "meaning (frag_sel out) (inside_sel out \<or> frag_sel out = name) (once_fired out) body = (t1, f1)" by fastforce
  obtain u f2 where m2: "meaning (frag_sel out) (inside_sel out) f1 cs = (u, f2)" by fastforce
  have r1: "ran mem out t1 f1 ?o2" using ran_begin [OF 9(1) [OF b(1)] refl 9(3)] b m1 by simp
  have "ran mem out (t1 @ u) f2 (render mem ?o2 cs)"
    using then_rest [OF r1 9(3) 9(2) m2] ran_state [OF r1 9(3)] by simp
  then show ?case using 9(4) m1 m2 by simp
next
  case (10 mem out h body cs)
  obtain b out1 where o: "tpl_once_begin mem out h = (b, out1)" by fastforce
  from o show ?case
  proof (cases rule: once_cases)
    case known
    then have "meaning (frag_sel out) (inside_sel out) (once_fired out) cs = (t, f)" using 10(5) by (auto split: option.splits)
    then show ?thesis using 10(3) [OF o [symmetric]] 10(4) o known(1,2) by simp
  next
    case fails
    obtain t1 f1 where m: "meaning (frag_sel out1) (inside_sel out1) (once_fired out1) cs = (t1, f1)" by fastforce
    have n: "ran mem out t f out1" using fails(2-5) by (auto intro: ran_nothing)
    have "ran mem out1 t1 f1 (render mem out1 cs)"
      using 10(3) [OF o [symmetric] _ _ m] fails(1) ran_state [OF n 10(4)] by simp
    from ran_trans [OF n this, of "[]" f] show ?thesis using o fails(1,2) by simp
  next
    case (fires a)
    obtain t1 f1 where m1: "meaning (frag_sel out) (inside_sel out) (once_fired out @ [a]) body = (t1, f1)" by fastforce
    obtain u f2 where m2: "meaning (frag_sel out) (inside_sel out) f1 cs = (u, f2)" by fastforce
    note s1 = ran_state [OF fires(4) 10(4)]
    let ?o2 = "render mem out1 body"
    have r1: "ran mem out1 t1 f1 ?o2" using 10(1) [OF o [symmetric]] fires(1,5) s1 m1 by simp
    have m2': "meaning (frag_sel out1) (inside_sel out1) f1 cs = (u, f2)" using m2 s1 by simp
    have ok: "frag_ok ?o2" using ran_state [OF r1 conjunct1 [OF s1]] by simp
    have "ran mem out1 (t1 @ u) f2 (render mem ?o2 cs)"
      using then_rest [OF r1 conjunct1 [OF s1] _ m2'] 10(2) [OF o [symmetric]] fires(1) ok by simp
    note r2 = this
    have "ran mem out ([] @ t1 @ u) f2 (render mem ?o2 cs)" by (rule ran_trans [OF fires(4) r2]) simp
    then show ?thesis using 10(5) o fires(1-3) m1 m2 by simp
  qed
qed

section \<open>Rendered pages\<close>

lemma select_state:
  "frag_ok (tpl_frag_select empty_out sel)" "frag_sel (tpl_frag_select empty_out sel) = sel"
  "inside_sel (tpl_frag_select empty_out sel) \<longleftrightarrow> sel = None" "once_fired (tpl_frag_select empty_out sel) = []"
  "out_bytes (tpl_frag_select empty_out sel) = []" "\<not> out_failed (tpl_frag_select empty_out sel)"
  by (auto simp: tpl_frag_select_def empty_out_def frag_ok_def inside_sel_def out_bytes_def)

lemma page_rendered:
  assumes "out = render mem (tpl_frag_select empty_out sel) cs" and "t = fst (meaning sel (sel = None) [] cs)"
  shows "prefix (out_bytes out) t" "tpl_ok out \<Longrightarrow> out_bytes out = t" "\<forall>n. mem n \<Longrightarrow> length t \<le> SIZE_MAX \<Longrightarrow> tpl_ok out"
proof -
  obtain f where "meaning sel (sel = None) [] cs = (t, f)" using assms(2) by (metis prod.collapse)
  then have "ran mem (tpl_frag_select empty_out sel) t f out"
    using render_ran [of "tpl_frag_select empty_out sel" cs t f mem] assms(1) by (simp add: select_state)
  then have e: "extends mem (tpl_frag_select empty_out sel) t out" by (simp add: ran_def)
  show "prefix (out_bytes out) t" "tpl_ok out \<Longrightarrow> out_bytes out = t"
    using e by (auto simp: extends_def select_state tpl_ok_def)
  show "\<forall>n. mem n \<Longrightarrow> length t \<le> SIZE_MAX \<Longrightarrow> tpl_ok out"
    using e by (simp add: extends_def select_state tpl_ok_def)
qed

text \<open>C15: rendering a component writes the text it means, nothing else and nothing less: escaped values, sanitised
  attributes, of the fragment blocks exactly the selected ones with all they contain, and every once block the
  first time its handle comes up. Without memory the output is a beginning of that text and the render is reported as
  failed; with memory it does not fail.\<close>

theorem component_rendered:
  assumes "out = render mem (tpl_frag_select empty_out sel) cs" and "t = fst (meaning sel (sel = None) [] cs)"
  shows "prefix (out_bytes out) t \<and> (tpl_ok out \<longrightarrow> out_bytes out = t) \<and>
    ((\<forall>n. mem n) \<and> length t \<le> SIZE_MAX \<longrightarrow> tpl_ok out)"
  using page_rendered [OF assms] by simp

definition sample_page :: "component_call list" where
  "sample_page =
     [Lit ''<p>'', Once (Some 1) [Lit ''js''], Fragment (Some ''row'') [Esc (Some ''a<b''), Once (Some 1) [Lit ''js'']], Int_value (- 7)]"

lemma sample_page_meaning:
  "fst (meaning None True [] sample_page) = ''<p>jsa&lt;b-7''"
  "fst (meaning (Some ''row'') False [] sample_page) = ''a&lt;b''"
  by (simp_all add: sample_page_def optional_text_def escape_char_def tpl_entities_def show_int_def show_nat_rec)

theorem component_rendered_witness:
  "out_bytes (render (\<lambda>_. True) (tpl_frag_select empty_out (Some ''row'')) sample_page) = ''a&lt;b'' \<and>
   tpl_ok (render (\<lambda>_. True) (tpl_frag_select empty_out (Some ''row'')) sample_page)"
  using component_rendered [OF refl, of "''a&lt;b''" "Some ''row''" sample_page "\<lambda>_. True"]
  by (simp add: sample_page_meaning SIZE_MAX_def)

text \<open>A page that \<^verbatim>\<open>http_res_html\<close> accepts is the body of the response: the bytes that will be sent are the text the
  component means, under the given status; a failed render is refused and leaves the response as it was.\<close>

theorem html_response:
  assumes "out = render mem (tpl_frag_select empty_out sel) cs" and "http_res_html mem' res st out = (r, res')"
    and "encoded_body res = None"
  shows "(r = 0 \<longrightarrow> selected_body res' = fst (meaning sel (sel = None) [] cs) \<and> res_status res' = st) \<and>
    (\<not> tpl_ok out \<longrightarrow> r = - 1 \<and> res' = res)"
proof (cases "tpl_ok out")
  case True
  have b: "out_bytes out = fst (meaning sel (sel = None) [] cs)" using page_rendered(2) [OF assms(1) refl True] .
  have r: "http_res_body mem' res st (Some ''text/html'') (out_data out) (length (out_bytes out)) = (r, res')"
    using assms(2) True by (simp add: http_res_html_def)
  obtain h res1 where sh: "set_res_header mem' res ''Content-Type'' ''text/html'' = (h, res1)" by fastforce
  then have e: "encoded_body res1 = None" using set_res_header_keeps assms(3) by metis
  have "selected_body res' = out_bytes out \<and> res_status res' = st" if "r = 0"
    using r sh e that
    by (cases "out_data out") (auto simp: http_res_body_def out_bytes_def selected_body_def Let_def
        split: if_splits HttpSetHeaderResult.splits)
  then show ?thesis using b True by auto
qed (use assms(2) in \<open>simp add: http_res_html_def\<close>)

definition hello_page :: "component_call list" where
  "hello_page = [Lit ''<h1>'', Esc (Some ''A&B''), Lit ''</h1>'']"

theorem html_response_witness:
  "selected_body (snd (http_res_html (\<lambda>_. True) empty_response 200 (render (\<lambda>_. True) (tpl_frag_select empty_out None) hello_page))) =
     ''<h1>A&amp;B</h1>''"
proof -
  let ?out = "render (\<lambda>_. True) (tpl_frag_select empty_out None) hello_page"
  let ?c = "http_res_html (\<lambda>_. True) empty_response 200 ?out"
  have m: "fst (meaning None True [] hello_page) = ''<h1>A&amp;B</h1>''"
    by (simp add: hello_page_def optional_text_def escape_char_def tpl_entities_def)
  have ok: "tpl_ok ?out" by (rule page_rendered(3) [OF refl refl]) (simp_all add: m SIZE_MAX_def)
  have b: "out_bytes ?out = ''<h1>A&amp;B</h1>''" using page_rendered(2) [OF refl refl ok] m by simp
  then have "out_data ?out = Some ''<h1>A&amp;B</h1>''" by (auto simp: out_bytes_def split: option.splits)
  then have "fst ?c = 0" using ok b
    by (simp add: http_res_html_def http_res_body_def set_res_header_def http_set_header_def apply_header_def
        is_valid_status_code_def is_valid_header_name_def is_tchar_def strchr_found_def empty_response_def no_headers_def
        RES_BODY_MAX_def)
  then obtain res' where "?c = (0, res')" by (metis prod.collapse)
  then show ?thesis using html_response [OF refl, of "\<lambda>_. True" empty_response 200 "\<lambda>_. True" None hello_page 0 res'] m
    by (simp add: empty_response_def)
qed

end
