(* ===== verification/Ctmpl_Scan.thy ===== *)
theory Ctmpl_Scan
  imports Prelude
begin

text \<open>
  The lower half of the template compiler \<^verbatim>\<open>ctmpl.c\<close>: the cursor with its line count, error positions, the copies of source
  slices, identifiers and keywords, and the scanner that finds the end of a C expression without understanding
  it. The lemmas show that every error carries the true position of the cursor and that the scanner stops exactly behind a
  well-formed expression.

  The source is a buffer with a length and may contain NUL bytes; what the code handles as a C string is cut at the
  first one. Sources are below 2 GiB.
\<close>

section \<open>State\<close>

record CtmplError =
  err_message :: string
  err_line :: nat
  err_col :: nat

record TagFrame =
  tag_name :: string
  tag_pos :: nat
  tag_line :: nat

definition TAG_STACK_MAX :: nat where "TAG_STACK_MAX = 32"
definition TAG_NAME_MAX :: nat where "TAG_NAME_MAX = 31"

text \<open>\<open>al_n\<close> and \<open>al_cap\<close> are the fields of \<^verbatim>\<open>Allocs\<close>; the tag stack has its top first.\<close>

record Parser =
  p_src :: "char list"
  p_pos :: nat
  p_line :: nat
  p_line_start :: nat
  al_n :: nat
  al_cap :: nat
  p_tags :: "TagFrame list"

text \<open>A step of the parser is out of fuel, fails with an error, or gives a value and the new state.\<close>

datatype 'a outcome = Out_of_fuel | Error CtmplError | Done 'a Parser

fun and_then :: "'a outcome \<Rightarrow> ('a \<Rightarrow> Parser \<Rightarrow> 'b outcome) \<Rightarrow> 'b outcome" where
  "and_then Out_of_fuel k = Out_of_fuel"
| "and_then (Error e) k = Error e"
| "and_then (Done a p) k = k a p"

section \<open>Cursor\<close>

definition peek_at :: "Parser \<Rightarrow> nat \<Rightarrow> char" where
  "peek_at p off = (if p_pos p + off < length (p_src p) then p_src p ! (p_pos p + off) else NUL)"

definition peek :: "Parser \<Rightarrow> char" where
  "peek p = peek_at p 0"

definition advance :: "Parser \<Rightarrow> Parser" where
  "advance p =
     (if p_pos p \<ge> length (p_src p) then p
      else if p_src p ! p_pos p = LF
      then p\<lparr>p_line := p_line p + 1, p_line_start := p_pos p + 1, p_pos := p_pos p + 1\<rparr>
      else p\<lparr>p_pos := p_pos p + 1\<rparr>)"

fun advance_n :: "Parser \<Rightarrow> nat \<Rightarrow> Parser" where
  "advance_n p 0 = p"
| "advance_n p (Suc n) = advance_n (advance p) n"

lemma advance_pos: "p_pos (advance p) = (if p_pos p < length (p_src p) then p_pos p + 1 else p_pos p)"
  by (simp add: advance_def)

lemma advance_src [simp]: "p_src (advance p) = p_src p"
  by (simp add: advance_def)

lemma advance_n_src [simp]: "p_src (advance_n p n) = p_src p"
  by (induction n arbitrary: p) simp_all

lemma advance_mono: "p_pos p \<le> p_pos (advance p)"
  by (simp add: advance_pos)

lemma advance_n_mono: "p_pos p \<le> p_pos (advance_n p n)"
  by (induction n arbitrary: p) (auto intro: order_trans [OF advance_mono])

text \<open>The loops \<^verbatim>\<open>while (p->pos < p->len && c) advance(p)\<close>.\<close>

function skip_while :: "(Parser \<Rightarrow> bool) \<Rightarrow> Parser \<Rightarrow> Parser" where
  "skip_while c p = (if p_pos p < length (p_src p) \<and> c p then skip_while c (advance p) else p)"
  by pat_completeness auto
termination by (relation "measure (\<lambda>(c, p). length (p_src p) - p_pos p)") (auto simp: advance_pos)

declare skip_while.simps [simp del]

lemma skip_while_src [simp]: "p_src (skip_while c p) = p_src p"
  by (induction c p rule: skip_while.induct) (subst skip_while.simps, simp)

lemma skip_while_mono: "p_pos p \<le> p_pos (skip_while c p)"
  by (induction c p rule: skip_while.induct) (subst skip_while.simps, auto intro: order_trans [OF advance_mono])

lemma skip_while_progress: "p_pos p < length (p_src p) \<Longrightarrow> c p \<Longrightarrow> p_pos p < p_pos (skip_while c p)"
  using skip_while_mono [of "advance p" c] by (subst skip_while.simps) (simp add: advance_pos)

section \<open>Errors\<close>

text \<open>The dash of the messages, in UTF-8.\<close>

abbreviation DASH :: string where "DASH \<equiv> [SP, CHR 0xE2, CHR 0x80, CHR 0x94, SP]"

definition perr :: "Parser \<Rightarrow> string \<Rightarrow> CtmplError" where
  "perr p text = \<lparr>err_message = snprint 256 text, err_line = p_line p, err_col = p_pos p - p_line_start p + 1\<rparr>"

fun locate :: "char list \<Rightarrow> nat \<Rightarrow> nat \<Rightarrow> nat \<Rightarrow> nat \<times> nat" where
  "locate [] i line line_start = (line, line_start)"
| "locate (c # s) i line line_start =
     (if c = LF then locate s (i + 1) (line + 1) (i + 1) else locate s (i + 1) line line_start)"

definition perr_at :: "Parser \<Rightarrow> nat \<Rightarrow> string \<Rightarrow> CtmplError" where
  "perr_at p pos text =
     (case locate (take pos (p_src p)) 0 1 0 of
        (line, line_start) \<Rightarrow>
          \<lparr>err_message = snprint 256 text, err_line = line,
           err_col = (if pos < length (p_src p) then pos - line_start + 1 else 1)\<rparr>)"

section \<open>Copies of the source\<close>

definition allocs_add :: "allocator \<Rightarrow> Parser \<Rightarrow> Parser option" where
  "allocs_add mem p =
     (if al_n p = al_cap p then
        let cap = (if al_cap p = 0 then 32 else al_cap p * 2)
        in if \<not> mem (cap * 8) then None else Some (p\<lparr>al_cap := cap, al_n := al_n p + 1\<rparr>)
      else Some (p\<lparr>al_n := al_n p + 1\<rparr>))"

text \<open>
  If the list of allocations cannot grow, \<^verbatim>\<open>allocs_add\<close> has freed the copy and \<^verbatim>\<open>p_dup_raw\<close> frees it again; the model goes on
  with the error that is reported.
\<close>

definition p_dup_raw :: "allocator \<Rightarrow> Parser \<Rightarrow> char list \<Rightarrow> (char list) outcome" where
  "p_dup_raw mem p s =
     (if \<not> mem (length s + 1) then Error (perr p ''out of memory'')
      else
        (case allocs_add mem p of
           None \<Rightarrow> Error (perr p ''out of memory'')
         | Some p1 \<Rightarrow> Done s p1))"

definition trim :: "char list \<Rightarrow> char list" where
  "trim s = rstrip is_space (dropWhile is_space s)"

text \<open>The trimmed copies are only used as C strings.\<close>

definition p_dup_trim :: "allocator \<Rightarrow> Parser \<Rightarrow> char list \<Rightarrow> string outcome" where
  "p_dup_trim mem p s = and_then (p_dup_raw mem p (trim s)) (\<lambda>t p1. Done (cstr t) p1)"

definition slice :: "Parser \<Rightarrow> nat \<Rightarrow> nat \<Rightarrow> char list" where
  "slice p i j = take (j - i) (drop i (p_src p))"

section \<open>White space, identifiers and keywords\<close>

definition skip_ws :: "Parser \<Rightarrow> Parser" where
  "skip_ws p = skip_while (\<lambda>q. is_space (peek q)) p"

lemma peek_space: "is_space (peek p) \<Longrightarrow> p_pos p < length (p_src p)"
  by (auto simp: peek_def peek_at_def is_space_def split: if_splits)

definition at_comment_end :: "Parser \<Rightarrow> bool" where
  "at_comment_end p \<longleftrightarrow> peek p = CHR ''*'' \<and> peek_at p 1 = CHR ''/''"

lemma peek_slash: "peek p = CHR ''/'' \<Longrightarrow> p_pos p < length (p_src p)"
  by (auto simp: peek_def peek_at_def split: if_splits)

function skip_ws_comments :: "Parser \<Rightarrow> Parser" where
  "skip_ws_comments p =
     (if is_space (peek p) then skip_ws_comments (advance p)
      else if peek p = CHR ''/'' \<and> peek_at p 1 = CHR ''/'' then
        skip_ws_comments (skip_while (\<lambda>q. peek q \<noteq> LF) p)
      else if peek p = CHR ''/'' \<and> peek_at p 1 = CHR ''*'' then
        (let q = skip_while (\<lambda>q. \<not> at_comment_end q) (advance_n p 2)
         in skip_ws_comments (if p_pos q < length (p_src q) then advance_n q 2 else q))
      else p)"
  by pat_completeness auto
termination
proof (relation "measure (\<lambda>p. length (p_src p) - p_pos p)", goal_cases)
  case (2 p)
  then show ?case using peek_space [of p] by (simp add: advance_pos)
next
  case (3 p)
  then show ?case using peek_slash [of p] skip_while_progress [of p "\<lambda>q. peek q \<noteq> LF"] by auto
next
  case (4 p q)
  let ?p2 = "advance_n p 2"
  have "p_pos p < p_pos (advance p)" using 4 peek_slash [of p] by (simp add: advance_pos)
  also have "\<dots> \<le> p_pos ?p2" by (simp add: numeral_2_eq_2 advance_mono)
  also have "\<dots> \<le> p_pos q" using 4(4) by (simp add: skip_while_mono)
  also have "\<dots> \<le> p_pos (if p_pos q < length (p_src q) then advance_n q 2 else q)" by (simp add: advance_n_mono)
  finally show ?case using 4 peek_slash [of p] by auto
qed simp

declare skip_ws_comments.simps [simp del]

definition is_ident_start :: "char \<Rightarrow> bool" where
  "is_ident_start c \<longleftrightarrow> is_alpha c \<or> c = CHR ''_''"

definition is_ident_char :: "char \<Rightarrow> bool" where
  "is_ident_char c \<longleftrightarrow> is_alpha c \<or> is_digit c \<or> c = CHR ''_''"

definition read_ident :: "allocator \<Rightarrow> Parser \<Rightarrow> string outcome" where
  "read_ident mem p =
     (if \<not> is_ident_start (peek p) then Error (perr p ''expected an identifier'')
      else
        let q = skip_while (\<lambda>q. is_ident_char (peek q)) p
        in p_dup_raw mem q (slice p (p_pos p) (p_pos q)))"

definition eat_keyword :: "Parser \<Rightarrow> string \<Rightarrow> bool \<times> Parser" where
  "eat_keyword p kw =
     (let n = length kw
      in if p_pos p + n > length (p_src p) \<or> take n (drop (p_pos p) (p_src p)) \<noteq> kw then (False, p)
         else if is_ident_char (peek_at p n) then (False, p)
         else (True, advance_n p n))"

section \<open>The boundary of C code\<close>

datatype ScanMode = SCAN_TO_BRACE | SCAN_MATCH_BRACE | SCAN_MATCH_PAREN

text \<open>To the closing quote; a backslash takes the next character with it.\<close>

function scan_quoted :: "char \<Rightarrow> Parser \<Rightarrow> Parser" where
  "scan_quoted quote p =
     (if p_pos p < length (p_src p) \<and> peek p \<noteq> quote
      then scan_quoted quote (advance (if peek p = BACKSLASH then advance p else p))
      else p)"
  by pat_completeness auto
termination by (relation "measure (\<lambda>(q, p). length (p_src p) - p_pos p)") (auto simp: advance_pos)

declare scan_quoted.simps [simp del]

lemma scan_quoted_src [simp]: "p_src (scan_quoted quote p) = p_src p"
  by (induction quote p rule: scan_quoted.induct) (subst scan_quoted.simps, simp)

lemma scan_quoted_mono: "p_pos p \<le> p_pos (scan_quoted quote p)"
proof (induction quote p rule: scan_quoted.induct)
  case (1 quote p)
  have "p_pos p \<le> p_pos (advance (if peek p = BACKSLASH then advance p else p))"
    by (simp add: advance_pos)
  with 1 show ?case by (subst scan_quoted.simps) auto
qed

definition want_close :: "ScanMode \<Rightarrow> char" where
  "want_close mode = (if mode = SCAN_MATCH_PAREN then CHR '')'' else CHR ''}'')"

function scan_loop :: "ScanMode \<Rightarrow> int \<Rightarrow> Parser \<Rightarrow> nat outcome" where
  "scan_loop mode depth p =
     (if p_pos p \<ge> length (p_src p) then
        Error (perr p (if mode = SCAN_TO_BRACE then ''expected '' @ [CHR 0x27] @ ''{'' @ [CHR 0x27] @ '' before end of file''
                       else ''unterminated expression'' @ DASH @ ''missing '' @ [CHR 0x27, want_close mode, CHR 0x27]))
      else if peek p = CHR ''/'' \<and> peek_at p 1 = CHR ''/'' then
        scan_loop mode depth (skip_while (\<lambda>q. peek q \<noteq> LF) p)
      else if peek p = CHR ''/'' \<and> peek_at p 1 = CHR ''*'' then
        (let q = skip_while (\<lambda>q. \<not> at_comment_end q) (advance_n p 2)
         in if p_pos q \<ge> length (p_src q) then Error (perr q ''unterminated block comment'')
            else scan_loop mode depth (advance_n q 2))
      else if peek p = DQUOTE \<or> peek p = CHR 0x27 then
        (let q = scan_quoted (peek p) (advance p)
         in if p_pos q \<ge> length (p_src q) then Error (perr q ''unterminated string literal'')
            else scan_loop mode depth (advance q))
      else if peek p = CHR ''{'' \<or> peek p = CHR ''('' then
        (if mode = SCAN_TO_BRACE \<and> peek p = CHR ''{'' \<and> depth = 0 then Done (p_pos p) p
         else scan_loop mode (depth + 1) (advance p))
      else if peek p = CHR ''}'' \<or> peek p = CHR '')'' then
        (if depth - 1 = 0 \<and> mode \<noteq> SCAN_TO_BRACE then
           if peek p \<noteq> want_close mode then
             Error (perr p (''unbalanced '' @ [CHR 0x27, want_close mode, CHR 0x27] @ '' in expression''))
           else Done (p_pos p) (advance p)
         else if depth - 1 < 0 then
           Error (perr p (''unbalanced '' @ [CHR 0x27, peek p, CHR 0x27] @ '' in expression''))
         else scan_loop mode (depth - 1) (advance p))
      else scan_loop mode depth (advance p))"
  by pat_completeness auto
termination
proof (relation "measure (\<lambda>(m, d, p). length (p_src p) - p_pos p)", goal_cases)
  case (2 mode depth p)
  then show ?case using skip_while_progress [of p "\<lambda>q. peek q \<noteq> LF"] by auto
next
  case (3 mode depth p q)
  have "p_pos p < p_pos (advance p)" using 3 by (simp add: advance_pos)
  also have "\<dots> \<le> p_pos (advance_n p 2)" by (simp add: numeral_2_eq_2 advance_mono)
  also have "\<dots> \<le> p_pos q" using 3 by (simp add: skip_while_mono)
  also have "\<dots> \<le> p_pos (advance_n q 2)" by (rule advance_n_mono)
  finally show ?case using 3 by auto
next
  case (4 mode depth p q)
  have "p_pos p < p_pos (advance p)" using 4 by (simp add: advance_pos)
  also have "\<dots> \<le> p_pos q" using 4 by (simp add: scan_quoted_mono)
  also have "\<dots> \<le> p_pos (advance q)" by (rule advance_mono)
  finally show ?case using 4 by auto
qed (simp_all add: advance_pos)

declare scan_loop.simps [simp del]

text \<open>The start of the slice is the cursor; the result is its end, with the cursor behind the terminator.\<close>

definition scan_c :: "Parser \<Rightarrow> ScanMode \<Rightarrow> nat outcome" where
  "scan_c p mode = scan_loop mode (if mode = SCAN_TO_BRACE then 0 else 1) p"

section \<open>True positions\<close>

text \<open>
  \<open>well\<close>: the cursor is in the source, the line count is that of the text before it, and the tag stack is in its bounds.
  \<open>moved\<close>: the state was reached by going forward. \<open>fine\<close>: a step went forward, or failed with an error at a true position.
\<close>

definition frame_ok :: "char list \<Rightarrow> TagFrame \<Rightarrow> bool" where
  "frame_ok src f \<longleftrightarrow> tag_pos f < length src \<and> length (tag_name f) \<le> TAG_NAME_MAX"

definition well :: "Parser \<Rightarrow> bool" where
  "well p \<longleftrightarrow>
     p_pos p \<le> length (p_src p) \<and> locate (take (p_pos p) (p_src p)) 0 1 0 = (p_line p, p_line_start p) \<and>
     length (p_tags p) \<le> TAG_STACK_MAX \<and> list_all (frame_ok (p_src p)) (p_tags p)"

definition moved :: "Parser \<Rightarrow> Parser \<Rightarrow> bool" where
  "moved p q \<longleftrightarrow> p_src q = p_src p \<and> p_pos p \<le> p_pos q \<and> (well p \<longrightarrow> well q)"

definition true_position :: "char list \<Rightarrow> CtmplError \<Rightarrow> bool" where
  "true_position src e \<longleftrightarrow>
     (\<exists>pos line_start. pos \<le> length src \<and> locate (take pos src) 0 1 0 = (err_line e, line_start) \<and>
        err_col e = pos - line_start + 1)"

fun fine :: "Parser \<Rightarrow> 'a outcome \<Rightarrow> bool" where
  "fine p Out_of_fuel = True"
| "fine p (Error e) = (well p \<longrightarrow> true_position (p_src p) e)"
| "fine p (Done a q) = moved p q"

named_theorems fine_intros \<open>steps of the parser are fine\<close>

lemma locate_snoc:
  "locate (s @ [c]) i l ls =
     (case locate s i l ls of (l1, ls1) \<Rightarrow> if c = LF then (l1 + 1, i + length s + 1) else (l1, ls1))"
  by (induction s i l ls rule: locate.induct) (auto split: prod.split)

lemma moved_refl [simp, fine_intros]: "moved p p"
  by (simp add: moved_def)

lemma moved_trans: "moved p q \<Longrightarrow> moved q r \<Longrightarrow> moved p r"
  by (auto simp: moved_def)

lemma moved_src: "moved p q \<Longrightarrow> p_src q = p_src p"
  by (simp add: moved_def)

lemma moved_advance [fine_intros]: "moved p (advance p)"
proof (cases "p_pos p < length (p_src p)")
  case True
  have "well (advance p)" if "well p"
    using True that by (auto simp: well_def advance_def take_Suc_conv_app_nth locate_snoc)
  then show ?thesis using True by (simp add: moved_def advance_pos)
qed (simp add: advance_def)

lemma moved_advance_n [fine_intros]: "moved p (advance_n p n)"
  by (induction n arbitrary: p) (auto intro: moved_trans [OF moved_advance])

lemma moved_skip [fine_intros]: "moved p (skip_while c p)"
  by (induction c p rule: skip_while.induct) (subst skip_while.simps, auto intro: moved_trans [OF moved_advance])

lemma moved_skip_ws [fine_intros]: "moved p (skip_ws p)"
  by (simp add: skip_ws_def moved_skip)

lemma moved_quoted [fine_intros]: "moved p (scan_quoted c p)"
proof (induction c p rule: scan_quoted.induct)
  case (1 c p)
  have "moved p (advance (if peek p = BACKSLASH then advance p else p))"
    using moved_trans [OF moved_advance moved_advance] by (simp add: moved_advance)
  with 1 show ?case by (subst scan_quoted.simps) (auto intro: moved_trans)
qed

lemma moved_allocs: "allocs_add mem p = Some q \<Longrightarrow> moved p q \<and> p_pos q = p_pos p"
  by (auto simp: allocs_add_def moved_def well_def Let_def split: if_splits)

lemma true_perr: "well p \<Longrightarrow> true_position (p_src p) (perr p msg)"
  by (auto simp: true_position_def perr_def well_def)

lemma fine_perr [fine_intros]: "moved p q \<Longrightarrow> fine p (Error (perr q msg))"
  using true_perr [of q msg] by (auto simp: moved_def)

lemma fine_perr_at [fine_intros]: "pos < length (p_src q) \<Longrightarrow> p_src q = p_src p \<Longrightarrow> fine p (Error (perr_at q pos msg))"
proof -
  assume a: "pos < length (p_src q)" "p_src q = p_src p"
  obtain l ls where l: "locate (take pos (p_src q)) 0 1 0 = (l, ls)" by fastforce
  then have "true_position (p_src q) (perr_at q pos msg)"
    unfolding true_position_def using a(1) by (intro exI [of _ pos] exI [of _ ls]) (simp add: perr_at_def)
  then show ?thesis using a(2) by simp
qed

lemma fine_Done [fine_intros]: "moved p q \<Longrightarrow> fine p (Done a q)"
  by simp

lemma fine_from: "moved p q \<Longrightarrow> fine q x \<Longrightarrow> fine p x"
  by (cases x) (auto simp: moved_def)

lemma fine_then [fine_intros]:
  "fine p x \<Longrightarrow> (\<And>a q. x = Done a q \<Longrightarrow> moved p q \<Longrightarrow> fine p (k a q)) \<Longrightarrow> fine p (and_then x k)"
  by (cases x) auto

lemma fine_dup_raw [fine_intros]: "moved p q \<Longrightarrow> fine p (p_dup_raw mem q s)"
  by (rule fine_from) (auto simp: p_dup_raw_def moved_allocs intro: fine_perr split: option.split simp del: fine.simps(2))

lemma fine_dup_trim [fine_intros]: "moved p q \<Longrightarrow> fine p (p_dup_trim mem q s)"
  by (auto simp: p_dup_trim_def intro!: fine_intros)

lemma fine_ident [fine_intros]: "moved p q \<Longrightarrow> fine p (read_ident mem q)"
  by (rule fine_from) (auto simp: read_ident_def Let_def simp del: fine.simps(2) intro!: fine_intros)

lemma moved_keyword: "eat_keyword p kw = (b, q) \<Longrightarrow> moved p q"
  by (auto simp: eat_keyword_def Let_def moved_advance_n split: if_splits)

text \<open>One round of the scanner: an error, the end, or a round further on.\<close>

lemma scan_step:
  obtains (error) q msg where "moved p q" "scan_loop mode depth p = Error (perr q msg)"
    | (stop) "p_pos p < length (p_src p)" "scan_loop mode depth p = Done (p_pos p) (if mode = SCAN_TO_BRACE then p else advance p)"
        "mode = SCAN_TO_BRACE \<Longrightarrow> peek p = CHR ''{''"
    | (more) q d where "moved p q" "p_pos p < p_pos q" "scan_loop mode depth p = scan_loop mode d q"
proof (cases "p_pos p < length (p_src p)")
  case False
  then show thesis using error [OF moved_refl] by (subst (asm) scan_loop.simps) auto
next
  case True
  note unfold = scan_loop.simps [of mode depth p]
  have n: "\<not> length (p_src p) \<le> p_pos p" using True by simp
  have adv: "p_pos p < p_pos (advance p)" using True by (simp add: advance_pos)
  let ?q = "skip_while (\<lambda>q. \<not> at_comment_end q) (advance_n p 2)"
  let ?r = "scan_quoted (peek p) (advance p)"
  have "p_pos p < p_pos (advance_n p 2)" using adv advance_mono [of "advance p"] by (simp add: numeral_2_eq_2)
  then have q: "moved p ?q" "p_pos p < p_pos ?q"
    using moved_trans [OF moved_advance_n moved_skip] less_le_trans [OF _ skip_while_mono] by blast+
  have r: "moved p ?r" "p_pos p < p_pos ?r"
    using moved_trans [OF moved_advance moved_quoted] adv scan_quoted_mono [of "advance p" "peek p"] by auto
  consider "peek p = CHR ''/'' \<and> peek_at p 1 = CHR ''/''" | "peek p = CHR ''/'' \<and> peek_at p 1 = CHR ''*''"
    | "peek p = DQUOTE \<or> peek p = CHR 0x27" | "peek p = CHR ''{'' \<or> peek p = CHR ''(''" | "peek p = CHR ''}'' \<or> peek p = CHR '')''"
    | "\<not> (peek p = CHR ''/'' \<and> peek_at p 1 = CHR ''/'')" "\<not> (peek p = CHR ''/'' \<and> peek_at p 1 = CHR ''*'')"
      "\<not> (peek p = DQUOTE \<or> peek p = CHR 0x27)" "\<not> (peek p = CHR ''{'' \<or> peek p = CHR ''('')" "\<not> (peek p = CHR ''}'' \<or> peek p = CHR '')'')"
    by blast
  then show thesis
  proof cases
    case 1
    have "scan_loop mode depth p = scan_loop mode depth (skip_while (\<lambda>q. peek q \<noteq> LF) p)"
      by (subst scan_loop.simps) (simp only: n 1 if_False if_True simp_thms)
    moreover have "p_pos p < p_pos (skip_while (\<lambda>q. peek q \<noteq> LF) p)"
      using 1 by (intro skip_while_progress True) simp
    ultimately show thesis using more [OF moved_skip] by blast
  next
    case 2
    then have u: "scan_loop mode depth p = (if p_pos ?q \<ge> length (p_src ?q) then Error (perr ?q ''unterminated block comment'')
        else scan_loop mode depth (advance_n ?q 2))"
      using True unfold by (simp add: Let_def)
    show thesis
    proof (cases "p_pos ?q \<ge> length (p_src ?q)")
      case True
      then show thesis using error [OF q(1)] u by simp
    next
      case False
      then show thesis
        using more [OF moved_trans [OF q(1) moved_advance_n [of ?q 2]], of depth] u q(2) advance_n_mono [of ?q 2] by simp
    qed
  next
    case 3
    then have u: "scan_loop mode depth p = (if p_pos ?r \<ge> length (p_src ?r) then Error (perr ?r ''unterminated string literal'')
        else scan_loop mode depth (advance ?r))"
      using True unfold by (auto simp: Let_def)
    show thesis
    proof (cases "p_pos ?r \<ge> length (p_src ?r)")
      case True
      then show thesis using error [OF r(1)] u by simp
    next
      case False
      then show thesis
        using more [OF moved_trans [OF r(1) moved_advance], of depth] u r(2) advance_mono [of ?r] by simp
    qed
  next
    case 4
    then have "\<not> (peek p = CHR ''/'' \<and> peek_at p 1 = CHR ''/'')" "\<not> (peek p = CHR ''/'' \<and> peek_at p 1 = CHR ''*'')"
      "\<not> (peek p = DQUOTE \<or> peek p = CHR 0x27)"
      by auto
    then have u: "scan_loop mode depth p =
        (if mode = SCAN_TO_BRACE \<and> peek p = CHR ''{'' \<and> depth = 0 then Done (p_pos p) p
         else scan_loop mode (depth + 1) (advance p))"
      by (subst scan_loop.simps) (simp only: n 4 if_False if_True simp_thms)
    show thesis
    proof (cases "mode = SCAN_TO_BRACE \<and> peek p = CHR ''{'' \<and> depth = 0")
      case True
      then show thesis using stop u \<open>p_pos p < length (p_src p)\<close> by simp
    next
      case False
      then show thesis using more [OF moved_advance adv] u by (simp only: if_False)
    qed
  next
    case 5
    then have "\<not> (peek p = CHR ''/'' \<and> peek_at p 1 = CHR ''/'')" "\<not> (peek p = CHR ''/'' \<and> peek_at p 1 = CHR ''*'')"
      "\<not> (peek p = DQUOTE \<or> peek p = CHR 0x27)" "\<not> (peek p = CHR ''{'' \<or> peek p = CHR ''('')"
      by auto
    then have u: "scan_loop mode depth p =
        (if depth - 1 = 0 \<and> mode \<noteq> SCAN_TO_BRACE then
           if peek p \<noteq> want_close mode then
             Error (perr p (''unbalanced '' @ [CHR 0x27, want_close mode, CHR 0x27] @ '' in expression''))
           else Done (p_pos p) (advance p)
         else if depth - 1 < 0 then
           Error (perr p (''unbalanced '' @ [CHR 0x27, peek p, CHR 0x27] @ '' in expression''))
         else scan_loop mode (depth - 1) (advance p))"
      by (subst scan_loop.simps) (simp only: n 5 if_False if_True simp_thms)
    show thesis
    proof (cases "depth - 1 = 0 \<and> mode \<noteq> SCAN_TO_BRACE")
      case True
      then show thesis using stop u error [OF moved_refl] \<open>p_pos p < length (p_src p)\<close> by (cases "peek p = want_close mode") simp_all
    next
      case False
      then show thesis using u more [OF moved_advance adv] error [OF moved_refl] by (cases "depth - 1 < 0") (simp_all only: if_False if_True)
    qed
  next
    case 6
    have "scan_loop mode depth p = scan_loop mode depth (advance p)"
      by (subst scan_loop.simps) (simp only: n 6 if_False)
    then show thesis using more [OF moved_advance adv] by blast
  qed
qed

lemma fine_scan_loop: "fine p (scan_loop mode depth p)"
proof (induction "length (p_src p) - p_pos p" arbitrary: p depth rule: less_induct)
  case less
  show ?case
  proof (cases rule: scan_step [of p mode depth])
    case (error q msg)
    then show ?thesis using fine_perr by metis
  next
    case stop
    then show ?thesis using moved_advance by simp
  next
    case (more q d)
    show ?thesis
    proof (cases "p_pos p < length (p_src p)")
      case True
      then have "fine q (scan_loop mode d q)" using less [of q d] more(1,2) by (simp add: moved_def)
      then show ?thesis using fine_from more(1,3) by metis
    next
      case False
      then show ?thesis by (subst scan_loop.simps) (simp only: not_less if_True fine_perr moved_refl)
    qed
  qed
qed

lemma fine_scan [fine_intros]: "moved p q \<Longrightarrow> fine p (scan_c q mode)"
  by (rule fine_from, assumption) (simp only: scan_c_def fine_scan_loop)

text \<open>A scan for a closing bracket consumes at least that bracket, one for a brace stops at it.\<close>

lemma scan_progress:
  assumes "scan_loop mode depth p = Done stop q"
  shows "p_pos p \<le> stop \<and> stop < length (p_src p) \<and> p_pos q = (if mode = SCAN_TO_BRACE then stop else stop + 1) \<and>
    (mode = SCAN_TO_BRACE \<longrightarrow> peek q = CHR ''{'')"
  using assms
proof (induction "length (p_src p) - p_pos p" arbitrary: p depth rule: less_induct)
  case less
  show ?case
  proof (cases rule: scan_step [of p mode depth])
    case (more r d)
    have "p_pos p < length (p_src p)"
      using less(2) by (rule contrapos_pp) (subst scan_loop.simps, simp)
    then have "length (p_src r) - p_pos r < length (p_src p) - p_pos p" using more(1,2) by (simp add: moved_def)
    from less(1) [OF this, of d] show ?thesis using less(2) more by (auto simp: moved_def)
  qed (use less(2) in \<open>auto simp: advance_pos\<close>)
qed
section \<open>The scanner on well-formed code\<close>

text \<open>
  What the scanner is meant to see: plain characters, string and character literals, comments, and brackets. The spelling
  of a sequence of tokens is C code as far as the template compiler looks at it.
\<close>

datatype CToken =
    Plain char
  | Literal char "(char \<times> char option) list"
  | Line_comment "char list"
  | Block_comment "char list"
  | Open char
  | Close char

text \<open>A literal is a list of characters, each of them alone or a backslash with the character it escapes.\<close>

fun literal_body :: "(char \<times> char option) list \<Rightarrow> char list" where
  "literal_body [] = []"
| "literal_body ((c, None) # s) = c # literal_body s"
| "literal_body ((c, Some d) # s) = c # d # literal_body s"

fun literal_ok :: "char \<Rightarrow> (char \<times> char option) list \<Rightarrow> bool" where
  "literal_ok q [] = True"
| "literal_ok q ((c, None) # s) = (c \<noteq> q \<and> c \<noteq> BACKSLASH \<and> literal_ok q s)"
| "literal_ok q ((c, Some d) # s) = (c = BACKSLASH \<and> literal_ok q s)"

fun comment_ok :: "char list \<Rightarrow> bool" where
  "comment_ok (c # d # s) = (\<not> (c = CHR ''*'' \<and> d = CHR ''/'') \<and> comment_ok (d # s))"
| "comment_ok s = True"

fun spell :: "CToken \<Rightarrow> char list" where
  "spell (Plain c) = [c]"
| "spell (Literal q s) = q # literal_body s @ [q]"
| "spell (Line_comment s) = ''//'' @ s @ [LF]"
| "spell (Block_comment s) = ''/*'' @ s @ ''*/''"
| "spell (Open c) = [c]"
| "spell (Close c) = [c]"

text \<open>A token is what it looks like if the text behind it starts with \<open>next_c\<close>.\<close>

fun token_ok :: "char \<Rightarrow> CToken \<Rightarrow> bool" where
  "token_ok next_c (Plain c) =
     (c \<notin> set ''{}()'' \<and> c \<noteq> DQUOTE \<and> c \<noteq> CHR 0x27 \<and> \<not> (c = CHR ''/'' \<and> (next_c = CHR ''/'' \<or> next_c = CHR ''*'')))"
| "token_ok next_c (Literal q s) = ((q = DQUOTE \<or> q = CHR 0x27) \<and> literal_ok q s)"
| "token_ok next_c (Line_comment s) = (LF \<notin> set s)"
| "token_ok next_c (Block_comment s) = comment_ok s"
| "token_ok next_c (Open c) = (c \<in> set ''({'')"
| "token_ok next_c (Close c) = (c \<in> set '')}'')"

fun tokens_ok :: "CToken list \<Rightarrow> char list \<Rightarrow> bool" where
  "tokens_ok [] rest = True"
| "tokens_ok (t # ts) rest = (token_ok (hd (concat (map spell ts) @ rest)) t \<and> tokens_ok ts rest)"

text \<open>The nesting after a sequence of tokens, which never falls below \<open>low\<close> on the way.\<close>

fun token_depth :: "CToken \<Rightarrow> int" where
  "token_depth (Open c) = 1"
| "token_depth (Close c) = - 1"
| "token_depth t = 0"

fun nests :: "int \<Rightarrow> int \<Rightarrow> CToken list \<Rightarrow> int \<Rightarrow> bool" where
  "nests low d [] d' = (d = d')"
| "nests low d (t # ts) d' = (low \<le> d + token_depth t \<and> nests low (d + token_depth t) ts d')"

text \<open>What is left of the source at the cursor.\<close>

definition ahead :: "Parser \<Rightarrow> char list" where
  "ahead p = drop (p_pos p) (p_src p)"

lemma ahead_at_end: "ahead p = [] \<longleftrightarrow> length (p_src p) \<le> p_pos p"
  by (simp add: ahead_def)

lemma ahead_Cons:
  assumes "ahead p = c # s"
  shows "p_pos p < length (p_src p)" "peek p = c" "ahead (advance p) = s" "p_pos (advance p) = p_pos p + 1"
    "peek_at p 1 = (if s = [] then NUL else hd s)"
proof -
  show l: "p_pos p < length (p_src p)" using assms by (auto simp: ahead_def intro: ccontr)
  have d: "drop (p_pos p) (p_src p) = p_src p ! p_pos p # drop (Suc (p_pos p)) (p_src p)"
    using l by (rule Cons_nth_drop_Suc [symmetric])
  then show "peek p = c" "ahead (advance p) = s" "p_pos (advance p) = p_pos p + 1"
    using assms l by (auto simp: ahead_def peek_def peek_at_def advance_def)
  have s: "s = drop (Suc (p_pos p)) (p_src p)" using assms d by (simp add: ahead_def)
  show "peek_at p 1 = (if s = [] then NUL else hd s)"
    unfolding s by (simp add: peek_at_def hd_drop_conv_nth)
qed

lemma skip_while_prefix:
  assumes "ahead p = s @ c # r" "\<And>x q. x \<in> set s \<Longrightarrow> peek q = x \<Longrightarrow> P q" "\<And>q. peek q = c \<Longrightarrow> \<not> P q"
  shows "ahead (skip_while P p) = c # r \<and> p_pos (skip_while P p) = p_pos p + length s"
  using assms
proof (induction s arbitrary: p)
  case Nil
  then show ?case using ahead_Cons(2) [of p c r] by (subst (1 2) skip_while.simps) simp
next
  case (Cons x s)
  note a = ahead_Cons [OF Cons.prems(1) [simplified]]
  have "P p" using Cons.prems(2) [of x p] a(2) by simp
  then have "skip_while P p = skip_while P (advance p)" using a(1) by (subst skip_while.simps) simp
  moreover have "ahead (skip_while P (advance p)) = c # r \<and> p_pos (skip_while P (advance p)) = p_pos (advance p) + length s"
    by (rule Cons.IH [OF a(3)]) (metis Cons.prems(2) list.set_intros(2), rule Cons.prems(3))
  ultimately show ?case using a(4) by simp
qed

lemma skip_comment:
  assumes "ahead p = s @ ''*/'' @ r" "comment_ok s"
  shows "ahead (skip_while (\<lambda>q. \<not> at_comment_end q) p) = ''*/'' @ r \<and>
    p_pos (skip_while (\<lambda>q. \<not> at_comment_end q) p) = p_pos p + length s"
  using assms
proof (induction s arbitrary: p)
  case Nil
  then have "at_comment_end p" using ahead_Cons(2,5) [of p "CHR ''*''"] by (simp add: at_comment_end_def)
  then show ?case using Nil by (subst (1 2) skip_while.simps) simp
next
  case (Cons x s)
  note a = ahead_Cons [OF Cons.prems(1) [simplified]]
  have "\<not> at_comment_end p" "comment_ok s"
    using Cons.prems(2) a(2,5) by (cases s; simp add: at_comment_end_def)+
  then have "skip_while (\<lambda>q. \<not> at_comment_end q) p = skip_while (\<lambda>q. \<not> at_comment_end q) (advance p)"
    using a(1) by (subst skip_while.simps) simp
  then show ?case using Cons.IH [OF _ \<open>comment_ok s\<close>, of "advance p"] a(3,4) by simp
qed

lemma quoted_literal:
  assumes "ahead p = literal_body s @ q # r" "literal_ok q s" "q \<noteq> BACKSLASH"
  shows "ahead (scan_quoted q p) = q # r \<and> p_pos (scan_quoted q p) = p_pos p + length (literal_body s)"
  using assms
proof (induction q s arbitrary: p rule: literal_ok.induct)
  case (1 q)
  then show ?case using ahead_Cons(2) [of p q r] by (subst (1 2) scan_quoted.simps) simp
next
  case (2 q c s)
  note a = ahead_Cons [OF 2(2) [simplified]]
  have "scan_quoted q p = scan_quoted q (advance p)" using a(1,2) 2(3) by (subst scan_quoted.simps) simp
  then show ?case using 2(1) [OF a(3)] 2(3,4) a(4) by simp
next
  case (3 q c d s)
  note a = ahead_Cons [OF 3(2) [simplified]]
  note b = ahead_Cons [OF a(3)]
  have "scan_quoted q p = scan_quoted q (advance (advance p))" using a(1,2) 3(3,4) by (subst scan_quoted.simps) auto
  then show ?case using 3(1) [OF b(3)] 3(3,4) a(4) b(4) by simp
qed

text \<open>One token is one or more rounds of the scanner, without an effect but for the nesting.\<close>

lemma scan_token:
  assumes "ahead p = spell t @ r" "token_ok (if r = [] then NUL else hd r) t" "r \<noteq> []"
    and "(if mode = SCAN_TO_BRACE then 0 else 1) \<le> depth + token_depth t"
    and "mode = SCAN_TO_BRACE \<Longrightarrow> depth = 0 \<Longrightarrow> t \<noteq> Open (CHR ''{'')"
  shows "\<exists>q. scan_loop mode depth p = scan_loop mode (depth + token_depth t) q \<and> ahead q = r \<and>
    p_src q = p_src p \<and> p_pos q = p_pos p + length (spell t)"
proof (cases t)
  case (Plain c)
  note a = ahead_Cons [of p c r, OF assms(1) [unfolded Plain, simplified]]
  have "\<not> length (p_src p) \<le> p_pos p" "\<not> (peek p = CHR ''/'' \<and> peek_at p 1 = CHR ''/'')"
    "\<not> (peek p = CHR ''/'' \<and> peek_at p 1 = CHR ''*'')" "\<not> (peek p = DQUOTE \<or> peek p = CHR 0x27)"
    "\<not> (peek p = CHR ''{'' \<or> peek p = CHR ''('')" "\<not> (peek p = CHR ''}'' \<or> peek p = CHR '')'')"
    using assms(2,3) a(1,2,5) Plain by auto
  then have "scan_loop mode depth p = scan_loop mode depth (advance p)"
    by (subst scan_loop.simps) (simp only: if_False)
  then show ?thesis using a(3,4) Plain by (intro exI [of _ "advance p"]) simp
next
  case (Literal q s)
  have ahd: "ahead p = q # literal_body s @ q # r" using assms(1) Literal by simp
  note a = ahead_Cons [OF ahd]
  have q: "q = DQUOTE \<or> q = CHR 0x27" "literal_ok q s" using assms(2) Literal by auto
  then have "q \<noteq> BACKSLASH" by auto
  note b = quoted_literal [OF a(3) q(2) this]
  note c = ahead_Cons [OF b [THEN conjunct1]]
  have n: "\<not> length (p_src p) \<le> p_pos p" "\<not> (q = CHR ''/'' \<and> peek_at p 1 = CHR ''/'')"
    "\<not> (q = CHR ''/'' \<and> peek_at p 1 = CHR ''*'')"
    using a(1,2) q(1) by auto
  have "scan_loop mode depth p = scan_loop mode depth (advance (scan_quoted q (advance p)))"
    by (subst scan_loop.simps) (use c(1) in \<open>simp only: n q(1) if_False if_True Let_def a(2) not_le [symmetric]\<close>)
  then show ?thesis using a(4) b c(3,4) Literal by (intro exI [of _ "advance (scan_quoted q (advance p))"]) simp
next
  case (Line_comment s)
  have ahd: "ahead p = CHR ''/'' # CHR ''/'' # s @ LF # r" using assms(1) Line_comment by simp
  note a = ahead_Cons [OF ahd]
  have b: "ahead (skip_while (\<lambda>q. peek q \<noteq> LF) p) = LF # r \<and> p_pos (skip_while (\<lambda>q. peek q \<noteq> LF) p) = p_pos p + length (''//'' @ s)"
    by (rule skip_while_prefix) (use ahd assms(2) Line_comment in auto)
  note c = ahead_Cons [OF b [THEN conjunct1]]
  let ?q = "skip_while (\<lambda>q. peek q \<noteq> LF) p"
  have n: "\<not> length (p_src p) \<le> p_pos p" "peek p = CHR ''/'' \<and> peek_at p 1 = CHR ''/''" using a(1,2,5) by auto
  have m: "\<not> length (p_src ?q) \<le> p_pos ?q" "\<not> (peek ?q = CHR ''/'' \<and> peek_at ?q 1 = CHR ''/'')"
    "\<not> (peek ?q = CHR ''/'' \<and> peek_at ?q 1 = CHR ''*'')" "\<not> (peek ?q = DQUOTE \<or> peek ?q = CHR 0x27)"
    "\<not> (peek ?q = CHR ''{'' \<or> peek ?q = CHR ''('')" "\<not> (peek ?q = CHR ''}'' \<or> peek ?q = CHR '')'')"
    using c(1,2) by auto
  have "scan_loop mode depth p = scan_loop mode depth ?q" by (subst scan_loop.simps) (simp only: n if_False if_True simp_thms)
  also have "\<dots> = scan_loop mode depth (advance ?q)" by (subst scan_loop.simps) (simp only: m if_False)
  finally show ?thesis using b c(3,4) Line_comment by (intro exI [of _ "advance ?q"]) simp
next
  case (Block_comment s)
  let ?p = "advance (advance p)" and ?q = "skip_while (\<lambda>q. \<not> at_comment_end q) (advance_n p 2)"
  have ahd: "ahead p = CHR ''/'' # CHR ''*'' # s @ ''*/'' @ r" using assms(1) Block_comment by simp
  note a = ahead_Cons [OF ahd]
  note b = ahead_Cons [OF a(3)]
  have p2: "advance_n p 2 = ?p" by (simp add: numeral_2_eq_2)
  have c: "ahead ?q = ''*/'' @ r \<and> p_pos ?q = p_pos ?p + length s"
    unfolding p2 using assms(2) Block_comment b(3) by (intro skip_comment) simp_all
  note d = ahead_Cons [of ?q "CHR ''*''", OF c [THEN conjunct1, simplified]]
  note e = ahead_Cons [OF d(3)]
  have n: "\<not> length (p_src p) \<le> p_pos p" "\<not> (peek p = CHR ''/'' \<and> peek_at p 1 = CHR ''/'')" "peek p = CHR ''/'' \<and> peek_at p 1 = CHR ''*''"
    "\<not> length (p_src ?q) \<le> p_pos ?q" "CHR ''*'' \<noteq> CHR ''/''"
    using a(1,2,5) d(1) by auto
  have "scan_loop mode depth p = scan_loop mode depth (advance_n ?q 2)"
    by (subst scan_loop.simps) (simp only: n if_False if_True Let_def simp_thms)
  then show ?thesis
    using a(4) b(4) c d(4) e(3,4) Block_comment by (intro exI [of _ "advance_n ?q 2"]) (simp add: numeral_2_eq_2)
next
  case (Open c)
  note a = ahead_Cons [of p c r, OF assms(1) [unfolded Open, simplified]]
  have "\<not> length (p_src p) \<le> p_pos p" "\<not> (peek p = CHR ''/'' \<and> peek_at p 1 = CHR ''/'')"
    "\<not> (peek p = CHR ''/'' \<and> peek_at p 1 = CHR ''*'')" "\<not> (peek p = DQUOTE \<or> peek p = CHR 0x27)"
    "peek p = CHR ''{'' \<or> peek p = CHR ''(''" "\<not> (mode = SCAN_TO_BRACE \<and> peek p = CHR ''{'' \<and> depth = 0)"
    using assms(2,5) a(1,2) Open by auto
  then have "scan_loop mode depth p = scan_loop mode (depth + 1) (advance p)"
    by (subst scan_loop.simps) (simp only: if_False if_True simp_thms)
  then show ?thesis using a(3,4) Open by (intro exI [of _ "advance p"]) simp
next
  case (Close c)
  note a = ahead_Cons [of p c r, OF assms(1) [unfolded Close, simplified]]
  have "\<not> length (p_src p) \<le> p_pos p" "\<not> (peek p = CHR ''/'' \<and> peek_at p 1 = CHR ''/'')"
    "\<not> (peek p = CHR ''/'' \<and> peek_at p 1 = CHR ''*'')" "\<not> (peek p = DQUOTE \<or> peek p = CHR 0x27)"
    "\<not> (peek p = CHR ''{'' \<or> peek p = CHR ''('')" "peek p = CHR ''}'' \<or> peek p = CHR '')''"
    "\<not> (depth - 1 = 0 \<and> mode \<noteq> SCAN_TO_BRACE)" "\<not> depth - 1 < 0"
    using assms(2,4) a(1,2) Close by (auto split: if_splits)
  then have "scan_loop mode depth p = scan_loop mode (depth - 1) (advance p)"
    by (subst scan_loop.simps) (simp only: if_False if_True simp_thms)
  then show ?thesis using a(3,4) Close by (intro exI [of _ "advance p"]) simp
qed

lemma spell_nonempty [simp]: "spell t \<noteq> []"
  by (cases t) auto

lemma scan_tokens:
  assumes "ahead p = concat (map spell ts) @ r" "tokens_ok ts r" "r \<noteq> []"
    and "nests (if mode = SCAN_TO_BRACE then 0 else 1) depth ts d'"
    and "mode = SCAN_TO_BRACE \<Longrightarrow> (\<forall>us vs. ts = us @ Open (CHR ''{'') # vs \<longrightarrow> \<not> nests 0 depth us 0)"
  shows "\<exists>q. scan_loop mode depth p = scan_loop mode d' q \<and> ahead q = r \<and>
    p_src q = p_src p \<and> p_pos q = p_pos p + length (concat (map spell ts))"
  using assms
proof (induction ts arbitrary: p depth)
  case Nil
  then show ?case by (intro exI [of _ p]) simp
next
  case (Cons t ts)
  let ?r = "concat (map spell ts) @ r"
  have t: "ahead p = spell t @ ?r" "token_ok (if ?r = [] then NUL else hd ?r) t" "?r \<noteq> []"
    "(if mode = SCAN_TO_BRACE then 0 else 1) \<le> depth + token_depth t"
    using Cons.prems by auto
  have "t \<noteq> Open (CHR ''{'')" if "mode = SCAN_TO_BRACE" "depth = 0"
    using Cons.prems(5) that by (metis append_Nil nests.simps(1))
  from scan_token [OF t this] obtain q where q: "scan_loop mode depth p = scan_loop mode (depth + token_depth t) q"
    "ahead q = ?r" "p_src q = p_src p" "p_pos q = p_pos p + length (spell t)"
    by blast
  have n: "nests (if mode = SCAN_TO_BRACE then 0 else 1) (depth + token_depth t) ts d'" using Cons.prems(4) by simp
  have "\<forall>us vs. ts = us @ Open (CHR ''{'') # vs \<longrightarrow> \<not> nests 0 (depth + token_depth t) us 0" if "mode = SCAN_TO_BRACE"
  proof (intro allI impI notI)
    fix us vs
    assume u: "ts = us @ Open (CHR ''{'') # vs" "nests 0 (depth + token_depth t) us 0"
    have "nests 0 depth (t # us) 0" using u(2) Cons.prems(4) that by simp
    then show False using Cons.prems(5) [OF that] u(1) by (metis append_Cons)
  qed
  from Cons.IH [OF q(2) _ Cons.prems(3) n this] Cons.prems(2) q show ?case by (auto simp: add.assoc)
qed

text \<open>C25: the scanner finds the end of C code. Behind an opening brace or parenthesis it takes any sequence of plain characters,
  literals, comments and nested brackets and stops behind the bracket that closes it; before a block it stops at the
  first brace that is not inside brackets. What looks like a bracket in a literal or a comment is not one.
\<close>

theorem scan_finds_the_end:
  assumes "ahead p = concat (map spell ts) @ close # rest" "tokens_ok ts (close # rest)"
    and "mode \<noteq> SCAN_TO_BRACE \<Longrightarrow> close = want_close mode \<and> nests 1 1 ts 1"
    and "mode = SCAN_TO_BRACE \<Longrightarrow> close = CHR ''{'' \<and> nests 0 0 ts 0 \<and>
      (\<forall>us vs. ts = us @ Open (CHR ''{'') # vs \<longrightarrow> \<not> nests 0 0 us 0)"
  shows "\<exists>q. scan_c p mode = Done (p_pos p + length (concat (map spell ts))) q \<and>
    slice q (p_pos p) (p_pos p + length (concat (map spell ts))) = concat (map spell ts) \<and>
    ahead q = (if mode = SCAN_TO_BRACE then close # rest else rest)"
proof -
  let ?d = "(if mode = SCAN_TO_BRACE then 0 else 1) :: int" and ?s = "concat (map spell ts)"
  have n: "nests (if mode = SCAN_TO_BRACE then 0 else 1) ?d ts ?d" using assms(3,4) by auto
  have o: "\<forall>us vs. ts = us @ Open (CHR ''{'') # vs \<longrightarrow> \<not> nests 0 ?d us 0" if "mode = SCAN_TO_BRACE"
    using assms(4) [OF that] that by simp
  obtain q where q: "scan_loop mode ?d p = scan_loop mode ?d q" "ahead q = close # rest" "p_src q = p_src p"
    "p_pos q = p_pos p + length ?s"
    using scan_tokens [OF assms(1,2) _ n o] by blast
  note a = ahead_Cons [OF q(2)]
  have "scan_loop mode ?d q = Done (p_pos q) (if mode = SCAN_TO_BRACE then q else advance q)"
    using a(1,2) assms(3,4) by (cases mode; subst scan_loop.simps; simp add: want_close_def)
  moreover have "slice q (p_pos p) (p_pos q) = ?s"
    using assms(1) q(3,4) by (simp add: slice_def ahead_def)
  ultimately show ?thesis using q a(3)
    by (intro exI [of _ "if mode = SCAN_TO_BRACE then q else advance q"]) (auto simp: scan_c_def slice_def split: if_splits)
qed

theorem scan_finds_the_end_witness:
  "\<exists>q. scan_c \<lparr>p_src = ''{f('' @ [DQUOTE, CHR ''}'', BACKSLASH, DQUOTE, DQUOTE] @ '', x)/*}*/}!'', p_pos = 1, p_line = 1, p_line_start = 0, al_n = 0, al_cap = 0, p_tags = []\<rparr> SCAN_MATCH_BRACE =
     Done 17 q \<and> ahead q = ''!''"
proof -
  let ?p = "\<lparr>p_src = ''{f('' @ [DQUOTE, CHR ''}'', BACKSLASH, DQUOTE, DQUOTE] @ '', x)/*}*/}!'', p_pos = 1, p_line = 1, p_line_start = 0, al_n = 0, al_cap = 0, p_tags = []\<rparr>"
  let ?ts = "[Plain (CHR ''f''), Open (CHR ''(''), Literal DQUOTE [(CHR ''}'', None), (BACKSLASH, Some DQUOTE)],
    Plain (CHR '',''), Plain SP, Plain (CHR ''x''), Close (CHR '')''), Block_comment ''}'']"
  have a: "ahead ?p = concat (map spell ?ts) @ CHR ''}'' # ''!''" by (simp add: ahead_def)
  have b: "tokens_ok ?ts ''}!''" by simp
  have c: "close = want_close SCAN_MATCH_BRACE \<and> nests 1 1 ?ts 1" if "close = CHR ''}''" for close
    using that by (simp add: want_close_def)
  have d: "p_pos ?p + length (concat (map spell ?ts)) = 17" by simp
  show ?thesis using scan_finds_the_end [OF a b c [OF refl]] unfolding d by simp blast
qed

end
