(* ===== verification/Ctmpl_Parse.thy ===== *)
theory Ctmpl_Parse
  imports Ctmpl_Scan
begin

text \<open>
  The upper half of the template compiler's parser: the syntax tree, interpolations, component calls with child blocks,
  statements, tags with their attributes and the stack of open tags, and the bodies that hold them all.

  A function that appends to a list of nodes returns the nodes it appends; an empty list is the NULL of the code, so
  that a block without nodes counts as absent, as it does there. The functions of the mutual recursion take fuel.
\<close>

section \<open>Syntax tree\<close>

datatype NodeCtx = CTX_TEXT | CTX_ATTR | CTX_URL | CTX_CSS

text \<open>The component a call remembers is represented by its parameter list, which is all that is read of it.\<close>

datatype Node =
    N_TEXT nat "char list"
  | N_INTERP nat string NodeCtx bool
  | N_CALL nat string "string option" "string option" "Node list" "string option" "string option"
  | N_IF nat string "Node list" "Node list"
  | N_FOR nat string "Node list"

definition is_void_tag :: "string \<Rightarrow> bool" where
  "is_void_tag name \<longleftrightarrow>
     \<not> length name > 8 \<and>
     list_ex (\<lambda>v. length v = length name \<and> strncaseeq name v (length name))
       [''area'', ''base'', ''br'', ''col'', ''embed'', ''hr'', ''img'', ''input'', ''link'', ''meta'', ''param'', ''source'',
        ''track'', ''wbr'']"

text \<open>\<^verbatim>\<open>sizeof(Node)\<close> is 120.\<close>

definition new_node :: "allocator \<Rightarrow> Parser \<Rightarrow> unit outcome" where
  "new_node mem p =
     (if \<not> mem 120 then Error (perr p ''out of memory'')
      else
        (case allocs_add mem p of
           None \<Rightarrow> Error (perr p ''out of memory'')
         | Some p1 \<Rightarrow> Done () p1))"

text \<open>
  A slice that would end before it starts has a length near the end of \<^verbatim>\<open>size_t\<close>, for which \<^verbatim>\<open>malloc\<close> always fails (the
  length that makes it ask for 0 bytes would need adjacent positions, which do not occur).
\<close>

definition append_copy :: "allocator \<Rightarrow> Parser \<Rightarrow> char list \<Rightarrow> nat \<Rightarrow> Node list outcome" where
  "append_copy mem p s line =
     and_then (new_node mem p) (\<lambda>_ p1. and_then (p_dup_raw mem p1 s) (\<lambda>t p2. Done [N_TEXT line t] p2))"

definition append_text :: "allocator \<Rightarrow> Parser \<Rightarrow> nat \<Rightarrow> nat \<Rightarrow> nat \<Rightarrow> Node list outcome" where
  "append_text mem p i j line =
     (if i = j then Done [] p
      else if j < i then and_then (new_node mem p) (\<lambda>_ p1. Error (perr p1 ''out of memory''))
      else append_copy mem p (slice p i j) line)"

section \<open>Interpolations\<close>

definition parse_interp :: "allocator \<Rightarrow> Parser \<Rightarrow> NodeCtx \<Rightarrow> Node list outcome" where
  "parse_interp mem p ctx =
     (let p1 = advance p
      in and_then (scan_c p1 SCAN_MATCH_BRACE) (\<lambda>stop p2.
         and_then (p_dup_trim mem p2 (slice p2 (p_pos p1) stop)) (\<lambda>expr p3.
         and_then (new_node mem p3) (\<lambda>_ p4.
           if expr = ''children...'' then
             if ctx \<noteq> CTX_TEXT then Error (perr p4 ''{ children... } is not valid in an attribute'')
             else Done [N_INTERP (p_line p4) expr ctx True] p4
           else if expr = [] then Error (perr p4 ''empty { } interpolation'')
           else Done [N_INTERP (p_line p4) expr ctx False] p4))))"

definition is_builtin_callee :: "string \<Rightarrow> bool" where
  "is_builtin_callee name \<longleftrightarrow> name = ''raw'' \<or> name = ''fragment'' \<or> name = ''once''"

text \<open>
  The length is a \<^verbatim>\<open>size_t\<close> difference and wraps if the last equals sign is before the name; as the precision of \<^verbatim>\<open>%.*s\<close>
  such a length is negative and the text is printed to its end.
\<close>

definition classify_attr :: "Parser \<Rightarrow> nat \<Rightarrow> nat \<Rightarrow> CtmplError + NodeCtx" where
  "classify_attr p name_start name_end =
     (let n = nat ((int name_end - int name_start) mod 2 ^ 64);
          s = drop name_start (p_src p);
          shown = (if name_end < name_start then cstr s else cstr (take n s))
      in if n = 0 then Inr CTX_ATTR
         else if (n \<ge> 3 \<and> strncaseeq s ''on'' 2) \<or> (n \<ge> 6 \<and> strncaseeq s ''hx-on:'' 6) then
           Inl (perr p (''expressions in '' @ [CHR 0x27] @ shown @ [CHR 0x27] @ '' attributes are not supported'' @ DASH @
             ''pass data via a data-* attribute and wire it up in a <script> block''))
         else if list_ex (\<lambda>a. length a = n \<and> strncaseeq s a n)
             [''href'', ''src'', ''action'', ''formaction'', ''poster'', ''cite'', ''background''] then Inr CTX_URL
         else if n = 5 \<and> strncaseeq s ''style'' 5 then Inr CTX_CSS
         else Inr CTX_ATTR)"

section \<open>Tags\<close>

text \<open>Attribute text up to the cursor, then the interpolation in the context of the attribute.\<close>

definition attr_interp :: "allocator \<Rightarrow> Parser \<Rightarrow> nat \<Rightarrow> nat \<Rightarrow> nat \<Rightarrow> nat \<Rightarrow> Node list outcome" where
  "attr_interp mem p flush_to tline name_start name_end =
     (case classify_attr p name_start name_end of
        Inl e \<Rightarrow> Error e
      | Inr ctx \<Rightarrow>
          and_then (append_text mem p flush_to (p_pos p) tline) (\<lambda>t p1.
          and_then (parse_interp mem p1 ctx) (\<lambda>i p2. Done (t @ i) p2)))"

text \<open>\<^verbatim>\<open>href={ expr }\<close>: the quotes are added as texts of their own.\<close>

definition attr_quoted_interp :: "allocator \<Rightarrow> Parser \<Rightarrow> nat \<Rightarrow> nat \<Rightarrow> nat \<Rightarrow> nat \<Rightarrow> Node list outcome" where
  "attr_quoted_interp mem p flush_to tline name_start name_end =
     (case classify_attr p name_start name_end of
        Inl e \<Rightarrow> Error e
      | Inr ctx \<Rightarrow>
          and_then (append_text mem p flush_to (p_pos p) tline) (\<lambda>t p1.
          and_then (append_copy mem p1 [DQUOTE] (p_line p1)) (\<lambda>q1 p2.
          and_then (parse_interp mem p2 ctx) (\<lambda>i p3.
          and_then (append_copy mem p3 [DQUOTE] (p_line p3)) (\<lambda>q2 p4. Done (t @ q1 @ i @ q2) p4)))))"

text \<open>\<^verbatim>\<open>name?={ cond }\<close>: the name is rendered if the condition holds.\<close>

definition boolean_attr :: "allocator \<Rightarrow> Parser \<Rightarrow> nat \<Rightarrow> nat \<Rightarrow> nat \<Rightarrow> Node list outcome" where
  "boolean_attr mem p flush_to tline name_start =
     (if name_start \<ge> p_pos p then Error (perr p (''missing attribute name before '' @ [CHR 0x27] @ ''?='' @ [CHR 0x27]))
      else
        and_then (append_text mem p flush_to name_start tline) (\<lambda>t p1.
          let p2 = advance_n p1 2
          in if peek p2 \<noteq> CHR ''{'' then
               Error (perr p2 (''expected '' @ [CHR 0x27] @ ''{'' @ [CHR 0x27] @ '' after '' @ [CHR 0x27] @ ''?='' @ [CHR 0x27] @
                 '' (boolean attributes use name?={ cond })''))
             else
               and_then (new_node mem p2) (\<lambda>_ p3.
               let p4 = advance p3
               in and_then (scan_c p4 SCAN_MATCH_BRACE) (\<lambda>stop p5.
               and_then (p_dup_trim mem p5 (slice p5 (p_pos p4) stop)) (\<lambda>cond p6.
                 if cond = [] then Error (perr p6 ''missing condition in name?={ cond }'')
                 else
                   and_then (new_node mem p6) (\<lambda>_ p7.
                   and_then (p_dup_raw mem p7 (SP # slice p7 name_start (p_pos p))) (\<lambda>a p8.
                     Done (t @ [N_IF (p_line p1) cond [N_TEXT (p_line p6) a] []]) p8)))))))"

lemma and_then_Done: "and_then x k = Done b q \<longleftrightarrow> (\<exists>a p. x = Done a p \<and> k a p = Done b q)"
  by (cases x) auto

lemma and_then_Fuel: "and_then x k = Out_of_fuel \<longleftrightarrow> x = Out_of_fuel \<or> (\<exists>a p. x = Done a p \<and> k a p = Out_of_fuel)"
  by (cases x) auto

text \<open>The loop over a tag keeps where text is flushed up to and where the current attribute's name is.\<close>

record TagScan =
  ts_quote :: char
  flush_to :: nat
  attr_name_start :: nat
  attr_name_end :: nat

lemma and_then_cong [fundef_cong]:
  "x = y \<Longrightarrow> (\<And>a p. y = Done a p \<Longrightarrow> k a p = l a p) \<Longrightarrow> and_then x k = and_then y l"
  by (cases y) auto

lemma moved_new_node: "new_node mem p = Done u q \<Longrightarrow> moved p q \<and> p_pos q = p_pos p"
  using moved_allocs [of mem p] by (auto simp: new_node_def split: if_splits option.splits)

lemma fine_new_node [fine_intros]: "moved p q \<Longrightarrow> fine p (new_node mem q)"
  by (rule fine_from) (auto simp: new_node_def moved_allocs intro: fine_perr split: option.split simp del: fine.simps(2))

lemma fine_append_copy [fine_intros]: "moved p q \<Longrightarrow> fine p (append_copy mem q s line)"
  by (auto simp: append_copy_def simp del: fine.simps intro!: fine_intros intro: moved_trans)

lemma fine_append_text [fine_intros]: "moved p q \<Longrightarrow> fine p (append_text mem q i j line)"
  by (auto simp: append_text_def simp del: fine.simps intro!: fine_intros intro: moved_trans)

text \<open>Where the cursor is after a step that succeeds.\<close>

lemma dup_raw_Done: "p_dup_raw mem p s = Done t q \<Longrightarrow> t = s \<and> moved p q \<and> p_pos q = p_pos p"
  using moved_allocs [of mem p] by (auto simp: p_dup_raw_def split: if_splits option.splits)

lemma dup_trim_Done: "p_dup_trim mem p s = Done t q \<Longrightarrow> t = cstr (trim s) \<and> moved p q \<and> p_pos q = p_pos p"
  by (auto simp: p_dup_trim_def and_then_Done dest: dup_raw_Done)

lemma append_text_pos: "append_text mem p i j line = Done ns q \<Longrightarrow> p_pos q = p_pos p"
  by (auto simp: append_text_def append_copy_def and_then_Done dest!: dup_raw_Done moved_new_node split: if_splits)

lemma append_copy_pos: "append_copy mem p s line = Done ns q \<Longrightarrow> p_pos q = p_pos p"
  by (auto simp: append_copy_def and_then_Done dest!: dup_raw_Done moved_new_node)

lemma scan_c_pos:
  assumes "scan_c p mode = Done stop q"
  shows "p_pos p \<le> stop" "stop < length (p_src p)" "p_pos q = (if mode = SCAN_TO_BRACE then stop else stop + 1)"
    "mode = SCAN_TO_BRACE \<Longrightarrow> peek q = CHR ''{''"
  using scan_progress [OF assms [unfolded scan_c_def]] by auto

lemma scan_c_Done:
  "scan_c p mode = Done stop q \<Longrightarrow>
     p_pos p \<le> stop \<and> stop < length (p_src p) \<and> p_pos q = (if mode = SCAN_TO_BRACE then stop else stop + 1)"
  using scan_c_pos by metis

lemma parse_interp_pos: "parse_interp mem p ctx = Done ns q \<Longrightarrow> p_pos p < p_pos q"
  using advance_mono [of p]
  by (auto simp: parse_interp_def Let_def and_then_Done dest!: scan_c_Done dup_trim_Done moved_new_node split: if_splits)

lemma attr_interp_pos: "attr_interp mem p i l s e = Done ns q \<Longrightarrow> p_pos p < p_pos q"
  by (auto simp: attr_interp_def and_then_Done dest!: append_text_pos parse_interp_pos split: sum.splits)

lemma attr_quoted_interp_pos: "attr_quoted_interp mem p i l s e = Done ns q \<Longrightarrow> p_pos p < p_pos q"
  by (auto simp: attr_quoted_interp_def and_then_Done dest!: append_text_pos append_copy_pos parse_interp_pos split: sum.splits)

lemma boolean_attr_pos: "boolean_attr mem p i l s = Done ns q \<Longrightarrow> p_pos p < p_pos q"
proof -
  assume "boolean_attr mem p i l s = Done ns q"
  then show ?thesis
    using advance_n_mono [of _ 2] advance_mono
    by (auto simp: boolean_attr_def Let_def and_then_Done split: if_splits dest!: append_text_pos dup_trim_Done dup_raw_Done moved_new_node scan_c_Done)
      (metis less_Suc_eq_le order_trans)+
qed

lemma fine_parse_interp [fine_intros]: "moved p q \<Longrightarrow> fine p (parse_interp mem q ctx)"
  by (auto simp: parse_interp_def Let_def simp del: fine.simps intro!: fine_intros intro: moved_trans moved_advance)

lemma fine_classify: "well p \<Longrightarrow> classify_attr p s e = Inl err \<Longrightarrow> true_position (p_src p) err"
  by (auto simp: classify_attr_def Let_def true_perr split: if_splits)

lemma fine_classify_from: "moved p q \<Longrightarrow> classify_attr q s e = Inl err \<Longrightarrow> fine p (Error err)"
  using fine_classify [of q s e err] by (auto simp: moved_def)

lemma fine_attr_interp [fine_intros]: "moved p q \<Longrightarrow> fine p (attr_interp mem q i l s e)"
  by (auto simp: attr_interp_def simp del: fine.simps intro!: fine_intros fine_classify_from intro: moved_trans split: sum.split)

lemma fine_attr_quoted_interp [fine_intros]: "moved p q \<Longrightarrow> fine p (attr_quoted_interp mem q i l s e)"
  by (auto simp: attr_quoted_interp_def simp del: fine.simps intro!: fine_intros fine_classify_from intro: moved_trans split: sum.split)

lemma fine_boolean_attr [fine_intros]: "moved p q \<Longrightarrow> fine p (boolean_attr mem q i l s)"
  by (auto simp: boolean_attr_def Let_def simp del: fine.simps intro!: fine_intros intro: moved_trans moved_advance moved_advance_n)

lemma fine_Done_moved: "fine p x \<Longrightarrow> x = Done a q \<Longrightarrow> moved p q"
  by simp

lemma attr_Done:
  "attr_interp mem p i l s e = Done ns q \<Longrightarrow> p_src q = p_src p \<and> p_pos p < p_pos q"
  "attr_quoted_interp mem p i l s e = Done ns q \<Longrightarrow> p_src q = p_src p \<and> p_pos p < p_pos q"
  "boolean_attr mem p i l s = Done ns q \<Longrightarrow> p_src q = p_src p \<and> p_pos p < p_pos q"
  using fine_Done_moved [OF fine_attr_interp [OF moved_refl]] fine_Done_moved [OF fine_attr_quoted_interp [OF moved_refl]]
    fine_Done_moved [OF fine_boolean_attr [OF moved_refl]] attr_interp_pos attr_quoted_interp_pos boolean_attr_pos
  by (metis moved_src)+

function tag_loop :: "allocator \<Rightarrow> nat \<Rightarrow> nat \<Rightarrow> TagScan \<Rightarrow> Node list \<Rightarrow> Parser \<Rightarrow> Node list outcome" where
  "tag_loop mem tstart tline t nodes p =
     (if p_pos p \<ge> length (p_src p) then
        Error (perr p (''unterminated tag'' @ DASH @ ''missing '' @ [CHR 0x27] @ ''>'' @ [CHR 0x27]))
      else
        (let c = peek p
         in if ts_quote t \<noteq> NUL then
              if c = CHR ''{'' then
                and_then (attr_interp mem p (flush_to t) tline (attr_name_start t) (attr_name_end t)) (\<lambda>ns p1.
                  tag_loop mem tstart tline (t\<lparr>flush_to := p_pos p1\<rparr>) (nodes @ ns) p1)
              else tag_loop mem tstart tline (if c = ts_quote t then t\<lparr>ts_quote := NUL\<rparr> else t) nodes (advance p)
            else if c = DQUOTE \<or> c = CHR 0x27 then
              tag_loop mem tstart tline (t\<lparr>ts_quote := c\<rparr>) nodes (advance p)
            else if c = CHR ''='' then
              tag_loop mem tstart tline (t\<lparr>attr_name_end := p_pos p\<rparr>) nodes (advance p)
            else if c = CHR ''{'' then
              if p_pos p > tstart \<and> p_src p ! (p_pos p - 1) = CHR ''='' \<and> attr_name_start t < p_pos p - 1 then
                and_then (attr_quoted_interp mem p (flush_to t) tline (attr_name_start t) (attr_name_end t)) (\<lambda>ns p1.
                  tag_loop mem tstart tline (t\<lparr>flush_to := p_pos p1\<rparr>) (nodes @ ns) p1)
              else Error (perr p ''interpolation outside a quoted attribute value is not supported'')
            else if c = CHR ''?'' \<and> peek_at p 1 = CHR ''='' then
              and_then (boolean_attr mem p (flush_to t) tline (attr_name_start t)) (\<lambda>ns p1.
                tag_loop mem tstart tline (t\<lparr>flush_to := p_pos p1, attr_name_start := p_pos p1\<rparr>) (nodes @ ns) p1)
            else if c = CHR ''>'' then
              let p1 = advance p
              in and_then (append_text mem p1 (flush_to t) (p_pos p1) tline) (\<lambda>ns p2. Done (nodes @ ns) p2)
            else if is_space c then
              let p1 = advance p
              in tag_loop mem tstart tline (t\<lparr>attr_name_start := p_pos (skip_ws p1)\<rparr>) nodes p1
            else tag_loop mem tstart tline t nodes (advance p)))"
  by pat_completeness auto
termination
  by (relation "measure (\<lambda>(mem, tstart, tline, t, nodes, p). length (p_src p) - p_pos p)")
    (auto simp: advance_pos dest!: attr_Done intro!: diff_less_mono2)

declare tag_loop.simps [simp del]

lemma fine_tag_loop: "fine p (tag_loop mem tstart tline t nodes p)"
proof (induction "length (p_src p) - p_pos p" arbitrary: p t nodes rule: less_induct)
  case less
  show ?case
  proof (cases "p_pos p < length (p_src p)")
    case True
    then have ih: "fine p (tag_loop mem tstart tline t' ns q)" if "moved p q" "p_pos p < p_pos q" for q t' ns
      using fine_from [OF that(1) less [of q]] that by (simp add: moved_src diff_less_mono2)
    have "p_pos p < p_pos (advance p)" using True by (simp add: advance_pos)
    then have adv: "fine p (tag_loop mem tstart tline t' ns (advance p))" for t' ns by (rule ih [OF moved_advance])
    have step: "fine p (and_then x (\<lambda>ns p1. tag_loop mem tstart tline (f p1) (nodes @ ns) p1))"
      if "fine p x" "\<And>ns q. x = Done ns q \<Longrightarrow> p_pos p < p_pos q" for x f
      by (rule fine_then [OF that(1)], rule ih, assumption, rule that(2))
    note steps = step [OF fine_attr_interp [OF moved_refl] attr_interp_pos] step [OF fine_attr_quoted_interp [OF moved_refl] attr_quoted_interp_pos]
      step [OF fine_boolean_attr [OF moved_refl] boolean_attr_pos]
    have last: "fine p (and_then (append_text mem (advance p) i j tline) (\<lambda>ns p2. Done (nodes @ ns) p2))" for i j
      by (intro fine_intros)
    show ?thesis
      by (subst tag_loop.simps)
        (simp only: Let_def fine_perr moved_refl steps adv last if_True if_False if_bool_eq_conj simp_thms split: if_split)
  qed (subst tag_loop.simps, simp del: fine.simps add: fine_perr)
qed

lemma fine_tags [fine_intros]: "moved p q \<Longrightarrow> fine p (tag_loop mem tstart tline t nodes q)"
  by (rule fine_from [OF _ fine_tag_loop])
definition quoted :: "string \<Rightarrow> string" where
  "quoted s = [CHR 0x27] @ s @ [CHR 0x27]"

definition is_name_char :: "char \<Rightarrow> bool" where
  "is_name_char c \<longleftrightarrow> is_ident_char c \<or> c = CHR ''-''"

text \<open>Comments and the doctype; the cursor is at the exclamation mark.\<close>

definition at_markup_comment_end :: "Parser \<Rightarrow> bool" where
  "at_markup_comment_end p \<longleftrightarrow> peek p = CHR ''-'' \<and> peek_at p 1 = CHR ''-'' \<and> peek_at p 2 = CHR ''>''"

definition parse_markup_decl :: "allocator \<Rightarrow> Parser \<Rightarrow> nat \<Rightarrow> nat \<Rightarrow> Node list outcome" where
  "parse_markup_decl mem p tstart tline =
     (if peek_at p 1 = CHR ''-'' \<and> peek_at p 2 = CHR ''-'' then
        let p1 = skip_while (\<lambda>q. \<not> at_markup_comment_end q) p
        in if p_pos p1 \<ge> length (p_src p1) then Error (perr p1 ''unterminated <!-- comment'')
           else let p2 = advance_n p1 3 in append_text mem p2 tstart (p_pos p2) tline
      else
        let p1 = skip_while (\<lambda>q. peek q \<noteq> CHR ''>'') p
        in if p_pos p1 \<ge> length (p_src p1) then Error (perr p1 (''unterminated tag'' @ DASH @ ''missing '' @ quoted ''>''))
           else let p2 = advance p1 in append_text mem p2 tstart (p_pos p2) tline)"

text \<open>A closing tag, with the cursor at its slash, must match the innermost open one.\<close>

definition parse_close_tag :: "allocator \<Rightarrow> Parser \<Rightarrow> nat \<Rightarrow> nat \<Rightarrow> Node list outcome" where
  "parse_close_tag mem p tstart tline =
     (let p1 = advance p;
          p2 = skip_while (\<lambda>q. is_name_char (peek q)) p1;
          name = slice p2 (p_pos p1) (p_pos p2);
          p3 = skip_while (\<lambda>q. peek q \<noteq> CHR ''>'') p2
      in if p_pos p3 \<ge> length (p_src p3) then Error (perr p3 (''unterminated tag'' @ DASH @ ''missing '' @ quoted ''>''))
         else
           (let p4 = advance p3
            in if name = [] then Error (perr_at p4 tstart ''empty closing tag name'')
               else if is_void_tag name then
                 Error (perr_at p4 tstart (''</'' @ name @ ''>'' @ DASH @ ''void elements cannot have a closing tag''))
               else
                 (case p_tags p4 of
                    [] \<Rightarrow> Error (perr_at p4 tstart (''</'' @ name @ ''> closes nothing'' @ DASH @ ''no tag is open''))
                  | frame # below \<Rightarrow>
                      if length (tag_name frame) \<noteq> length name \<or> \<not> strncaseeq (tag_name frame) name (length name) then
                        Error (perr_at p4 tstart (''</'' @ name @ ''> closes nothing'' @ DASH @ ''expected </'' @ tag_name frame @
                          ''> (opened at line '' @ show_nat (tag_line frame) @ '')''))
                      else append_text mem (p4\<lparr>p_tags := below\<rparr>) tstart (p_pos p4) tline)))"

text \<open>The content of a script or style element, up to its closing tag, is text.\<close>

definition at_raw_end :: "string \<Rightarrow> Parser \<Rightarrow> bool" where
  "at_raw_end close p \<longleftrightarrow>
     peek p = CHR ''<'' \<and> p_pos p + length close \<le> length (p_src p) \<and>
     strncaseeq (drop (p_pos p) (p_src p)) close (length close)"

definition raw_content :: "allocator \<Rightarrow> Parser \<Rightarrow> string \<Rightarrow> Node list outcome" where
  "raw_content mem p name =
     (let p1 = skip_while (\<lambda>q. \<not> at_raw_end (''</'' @ name) q) p
      in if p_pos p1 \<ge> length (p_src p1) then Error (perr p1 (''missing </'' @ name @ ''> for the raw-text element''))
         else append_text mem p1 (p_pos p) (p_pos p1) (p_line p))"

text \<open>An opening tag, with the cursor at its name.\<close>

definition open_frame :: "Parser \<Rightarrow> string \<Rightarrow> nat \<Rightarrow> nat \<Rightarrow> CtmplError + Parser" where
  "open_frame p name tstart tline =
     (if is_void_tag name then Inr p
      else if p_pos p \<ge> 2 \<and> p_src p ! (p_pos p - 2) = CHR ''/'' \<and> p_src p ! (p_pos p - 1) = CHR ''>'' then
        Inl (perr_at p tstart (''<'' @ name @ ''/>'' @ DASH @ ''non-void elements need a real closing tag (browsers ignore the '' @
          quoted ''/'' @ '')''))
      else if length (p_tags p) = TAG_STACK_MAX then
        Inl (perr_at p tstart (''tags nested deeper than '' @ show_nat TAG_STACK_MAX @ DASH @ ''likely an unclosed tag''))
      else Inr (p\<lparr>p_tags := \<lparr>tag_name = name, tag_pos = tstart, tag_line = tline\<rparr> # p_tags p\<rparr>))"

definition parse_open_tag :: "allocator \<Rightarrow> Parser \<Rightarrow> nat \<Rightarrow> nat \<Rightarrow> Node list outcome" where
  "parse_open_tag mem p tstart tline =
     (if \<not> is_ident_start (peek p) then Error (perr p (''expected a tag name after '' @ quoted ''<''))
      else
        (let p1 = skip_while (\<lambda>q. is_name_char (peek q)) p;
             name = slice p1 (p_pos p) (p_pos p1)
         in if length name > TAG_NAME_MAX then
              Error (perr p1 (''tag name too long (max '' @ show_nat TAG_NAME_MAX @ '' characters)''))
            else
              and_then (tag_loop mem tstart tline
                  \<lparr>ts_quote = NUL, flush_to = tstart, attr_name_start = p_pos p1, attr_name_end = p_pos p1\<rparr> [] p1) (\<lambda>nodes p2.
                case open_frame p2 name tstart tline of
                  Inl e \<Rightarrow> Error e
                | Inr p3 \<Rightarrow>
                    if length name = 6 \<and> strncaseeq name ''script'' 6 then
                      and_then (raw_content mem p3 ''script'') (\<lambda>ns p4. Done (nodes @ ns) p4)
                    else if length name = 5 \<and> strncaseeq name ''style'' 5 then
                      and_then (raw_content mem p3 ''style'') (\<lambda>ns p4. Done (nodes @ ns) p4)
                    else Done nodes p3)))"

definition parse_element :: "allocator \<Rightarrow> Parser \<Rightarrow> Node list outcome" where
  "parse_element mem p =
     (let p1 = advance p
      in if peek p1 = CHR ''!'' then parse_markup_decl mem p1 (p_pos p) (p_line p)
         else if peek p1 = CHR ''/'' then parse_close_tag mem p1 (p_pos p) (p_line p)
         else parse_open_tag mem p1 (p_pos p) (p_line p))"

lemma moved_pop [fine_intros]: "p_tags q = frame # below \<Longrightarrow> moved p q \<Longrightarrow> moved p (q\<lparr>p_tags := below\<rparr>)"
  by (auto simp: moved_def well_def)

lemma moved_skip_from [fine_intros]: "moved p q \<Longrightarrow> moved p (skip_while c q)"
  by (rule moved_trans [OF _ moved_skip])

lemma moved_advance_from [fine_intros]: "moved p q \<Longrightarrow> moved p (advance q)"
  by (rule moved_trans [OF _ moved_advance])

lemma moved_advance_n_from [fine_intros]: "moved p q \<Longrightarrow> moved p (advance_n q n)"
  by (rule moved_trans [OF _ moved_advance_n])

lemma fine_markup_decl: "fine p (parse_markup_decl mem p s l)"
  by (auto simp: parse_markup_decl_def Let_def simp del: fine.simps intro!: fine_intros)

lemma fine_close_tag: "s < length (p_src p) \<Longrightarrow> fine p (parse_close_tag mem p s l)"
  by (auto simp: parse_close_tag_def Let_def simp del: fine.simps intro!: fine_intros split: list.split)

lemma open_frame_Inl: "open_frame q name s l = Inl e \<Longrightarrow> s < length (p_src q) \<Longrightarrow> p_src q = p_src p \<Longrightarrow> fine p (Error e)"
  by (auto simp: open_frame_def simp del: fine.simps split: if_splits intro: fine_perr_at)

lemma open_frame_Inr:
  "open_frame p name s l = Inr q \<Longrightarrow> s < length (p_src p) \<Longrightarrow> length name \<le> TAG_NAME_MAX \<Longrightarrow> moved p q \<and> p_pos q = p_pos p"
  by (auto simp: open_frame_def moved_def well_def frame_ok_def split: if_splits)

lemma open_frame_from:
  "open_frame q name s l = Inr r \<Longrightarrow> moved p q \<Longrightarrow> s < length (p_src p) \<Longrightarrow> length name \<le> TAG_NAME_MAX \<Longrightarrow> moved p r"
  using open_frame_Inr [of q name s l r] moved_trans moved_src [of p q] by auto

lemma fine_open_frame:
  assumes "moved p q" "s < length (p_src p)" "length name \<le> TAG_NAME_MAX" "\<And>r. moved p r \<Longrightarrow> fine p (k r)"
  shows "fine p (case open_frame q name s l of Inl e \<Rightarrow> Error e | Inr r \<Rightarrow> k r)"
proof (cases "open_frame q name s l")
  case (Inl e)
  then have "fine p (Error e)" using open_frame_Inl [OF Inl, of p] assms(1,2) moved_src [of p q] by simp
  then show ?thesis using Inl by (simp del: fine.simps)
next
  case (Inr r)
  then show ?thesis using open_frame_from [OF Inr assms(1-3)] assms(4) by (simp del: fine.simps)
qed

lemma fine_raw_content [fine_intros]: "moved p q \<Longrightarrow> fine p (raw_content mem q name)"
  by (auto simp: raw_content_def Let_def simp del: fine.simps intro!: fine_intros)

lemma fine_open_tag: "s < length (p_src p) \<Longrightarrow> fine p (parse_open_tag mem p s l)"
  by (auto simp: parse_open_tag_def Let_def simp del: fine.simps intro!: fine_intros fine_open_frame)

lemma fine_element [fine_intros]: "p_pos q < length (p_src q) \<Longrightarrow> moved p q \<Longrightarrow> fine p (parse_element mem q)"
  by (rule fine_from, assumption, rule fine_from [OF moved_advance])
    (auto simp: parse_element_def Let_def simp del: fine.simps intro: fine_markup_decl fine_close_tag fine_open_tag)

lemma parse_element_pos:
  assumes "parse_element mem p = Done ns q" "p_pos p < length (p_src p)"
  shows "p_pos p < p_pos q"
proof -
  have "fine (advance p) (parse_element mem p)"
    using assms(2) by (auto simp: parse_element_def Let_def simp del: fine.simps intro: fine_markup_decl fine_close_tag fine_open_tag)
  then show ?thesis using assms by (simp add: moved_def advance_pos)
qed

end
