(* ===== verification/Ctmpl_Program.thy ===== *)
theory Ctmpl_Program
  imports Ctmpl_Parse
begin

text \<open>
  The template compiler's parser above the tags: bodies with their text runs, component calls with child blocks, the
  statements, and the top level with its \<^verbatim>\<open>#\<close> lines, once handles and components. The theorems show that the parser
  always ends, that every error carries a true position, and what an accepted component looks like.
\<close>

section \<open>Bodies\<close>

definition rewind :: "Parser \<Rightarrow> Parser \<Rightarrow> Parser" where
  "rewind to p = p\<lparr>p_pos := p_pos to, p_line := p_line to, p_line_start := p_line_start to\<rparr>"

definition starts_keyword :: "Parser \<Rightarrow> nat \<Rightarrow> string \<Rightarrow> bool" where
  "starts_keyword p k kw \<longleftrightarrow>
     k + length kw \<le> length (p_src p) \<and> take (length kw) (drop k (p_src p)) = kw \<and>
     \<not> is_ident_char (if k + length kw < length (p_src p) then p_src p ! (k + length kw) else NUL)"

definition is_text_char :: "char \<Rightarrow> bool" where
  "is_text_char c \<longleftrightarrow> c \<notin> {NUL, CHR ''<'', CHR ''{'', CHR ''@'', CHR ''}''}"

text \<open>A run of text: the body ends (\<open>None\<close>) if only white space is before the closing brace.\<close>

definition text_run :: "allocator \<Rightarrow> Parser \<Rightarrow> (Node list option) outcome" where
  "text_run mem p =
     (let p1 = skip_while (\<lambda>q. is_text_char (peek q)) (advance p)
      in if peek p1 = NUL then Error (perr p1 (''unterminated block'' @ DASH @ ''missing '' @ quoted ''}''))
         else if peek p1 = CHR ''}'' then
           if list_all is_space (slice p1 (p_pos p) (p_pos p1)) then Done None p1
           else Error (perr p1 (''unexpected '' @ quoted ''}'' @ '' in text'' @ DASH @ ''escape braces with { '' @ [DQUOTE] @ ''}'' @
             [DQUOTE] @ '' }''))
         else and_then (append_text mem p1 (p_pos p) (p_pos p1) (p_line p)) (\<lambda>ns p2. Done (Some ns) p2))"

text \<open>What is wrong with a call of a built-in component.\<close>

definition builtin_error :: "Parser \<Rightarrow> string \<Rightarrow> string option \<Rightarrow> string option \<Rightarrow> Node list \<Rightarrow> CtmplError option" where
  "builtin_error p name args data_expr block =
     (if \<not> is_builtin_callee name then None
      else if data_expr \<noteq> None then Some (perr p (''with (...) is not valid for @'' @ name))
      else if name = ''raw'' then
        if args = None \<or> args = Some [] \<or> block \<noteq> [] then
          Some (perr p ''@raw expects exactly one argument and no child block'')
        else None
      else if args = None \<or> args = Some [] then Some (perr p (''@'' @ name @ '' expects an argument''))
      else if block = [] then Some (perr p (''@'' @ name @ '' requires a child block''))
      else None)"

definition call_args :: "allocator \<Rightarrow> Parser \<Rightarrow> (string option) outcome" where
  "call_args mem p =
     (if peek p \<noteq> CHR ''('' then Done None p
      else
        (let p1 = advance p
         in and_then (scan_c p1 SCAN_MATCH_PAREN) (\<lambda>stop p2.
            and_then (p_dup_trim mem p2 (slice p2 (p_pos p1) stop)) (\<lambda>a p3. Done (Some a) p3))))"

text \<open>\<^verbatim>\<open>with (expr)\<close> after a call; the word alone is text, and the cursor goes back behind the call.\<close>

definition call_data :: "allocator \<Rightarrow> Parser \<Rightarrow> (string option) outcome" where
  "call_data mem p =
     (case eat_keyword (skip_ws p) ''with'' of
        (found, p1) \<Rightarrow>
          if \<not> found then Done None p1
          else
            (let p2 = skip_ws p1
             in if peek p2 \<noteq> CHR ''('' then Done None (rewind p p2)
                else and_then (call_args mem p2) (\<lambda>d p3. Done d (skip_ws p3))))"

text \<open>The argument before the allocator is the fuel; \<open>encl\<close> is the parameter list of the enclosing component.\<close>

function parse_body :: "nat \<Rightarrow> allocator \<Rightarrow> string option \<Rightarrow> Node list \<Rightarrow> Parser \<Rightarrow> Node list outcome"
and parse_call :: "nat \<Rightarrow> allocator \<Rightarrow> string option \<Rightarrow> Parser \<Rightarrow> Node outcome"
and parse_if :: "nat \<Rightarrow> allocator \<Rightarrow> string option \<Rightarrow> Parser \<Rightarrow> Node outcome"
and parse_for :: "nat \<Rightarrow> allocator \<Rightarrow> string option \<Rightarrow> Parser \<Rightarrow> Node outcome" where
  "parse_body 0 mem encl nodes p = Out_of_fuel"
| "parse_body (Suc n) mem encl nodes p =
     (let c = peek p
      in if c = NUL then Error (perr p (''unterminated block'' @ DASH @ ''missing '' @ quoted ''}''))
         else if c = CHR ''}'' then Done nodes p
         else if c = CHR ''<'' then
           and_then (parse_element mem p) (\<lambda>ns p1. parse_body n mem encl (nodes @ ns) p1)
         else if c = CHR ''{'' then
           and_then (parse_interp mem p CTX_TEXT) (\<lambda>ns p1. parse_body n mem encl (nodes @ ns) p1)
         else if c = CHR ''@'' then
           and_then (parse_call n mem encl p) (\<lambda>x p1. parse_body n mem encl (nodes @ [x]) p1)
         else
           (let k = p_pos (skip_ws p)
            in if starts_keyword p k ''else'' then
                 Error (perr_at p k (''unexpected '' @ quoted ''else'' @ DASH @ ''no preceding '' @ quoted ''if''))
               else if starts_keyword p k ''if'' then
                 and_then (parse_if n mem encl (snd (eat_keyword (advance_n p (k - p_pos p)) ''if''))) (\<lambda>x p1.
                   parse_body n mem encl (nodes @ [x]) p1)
               else if starts_keyword p k ''for'' then
                 and_then (parse_for n mem encl (snd (eat_keyword (advance_n p (k - p_pos p)) ''for''))) (\<lambda>x p1.
                   parse_body n mem encl (nodes @ [x]) p1)
               else
                 and_then (text_run mem p) (\<lambda>r p1.
                   case r of None \<Rightarrow> Done nodes p1 | Some ns \<Rightarrow> parse_body n mem encl (nodes @ ns) p1)))"
| "parse_call 0 mem encl p = Out_of_fuel"
| "parse_call (Suc n) mem encl p =
     (let p1 = advance p
      in and_then (read_ident mem p1) (\<lambda>name p2.
         and_then (call_args mem p2) (\<lambda>args p3.
         and_then (call_data mem p3) (\<lambda>data_expr p4.
         and_then
           (if peek p4 = CHR ''{'' then
              and_then (parse_body n mem encl [] (advance p4)) (\<lambda>block p5.
                if peek p5 \<noteq> CHR ''}'' then Error (perr p5 (''expected '' @ quoted ''}'' @ '' to close the child block''))
                else Done block (advance p5))
            else Done [] (rewind p3 p4)) (\<lambda>block p6.
         case builtin_error p6 name args data_expr block of
           Some e \<Rightarrow> Error e
         | None \<Rightarrow>
             and_then (new_node mem p6) (\<lambda>_ p7. Done (N_CALL (p_line p1) name args data_expr block encl None) p7))))))"
| "parse_if 0 mem encl p = Out_of_fuel"
| "parse_if (Suc n) mem encl p =
     and_then (scan_c p SCAN_TO_BRACE) (\<lambda>stop p1.
     and_then (p_dup_trim mem p1 (slice p1 (p_pos p) stop)) (\<lambda>cond p2.
       if cond = [] then Error (perr p2 (''missing condition between '' @ quoted ''if'' @ '' and '' @ quoted ''{''))
       else
         and_then (new_node mem (advance p2)) (\<lambda>_ p3.
         and_then (parse_body n mem encl [] p3) (\<lambda>then_nodes p4.
           if peek p4 \<noteq> CHR ''}'' then Error (perr p4 (''expected '' @ quoted ''}'' @ '' to close the if-branch''))
           else
             (let p5 = advance p4
              in case eat_keyword (skip_ws p5) ''else'' of
                   (found, p6) \<Rightarrow>
                     if \<not> found then Done (N_IF (p_line p) cond then_nodes []) (rewind p5 p6)
                     else
                       (case eat_keyword (skip_ws p6) ''if'' of
                          (chained, p7) \<Rightarrow>
                            if chained then
                              and_then (parse_if n mem encl p7) (\<lambda>x p8. Done (N_IF (p_line p) cond then_nodes [x]) p8)
                            else if peek p7 = CHR ''{'' then
                              and_then (parse_body n mem encl [] (advance p7)) (\<lambda>o_nodes p8.
                                if peek p8 \<noteq> CHR ''}'' then
                                  Error (perr p8 (''expected '' @ quoted ''}'' @ '' to close the else-branch''))
                                else Done (N_IF (p_line p) cond then_nodes o_nodes) (advance p8))
                            else
                              Error (perr p7 (''expected '' @ quoted ''if'' @ '' or '' @ quoted ''{'' @ '' after '' @
                                quoted ''else''))))))))"
| "parse_for 0 mem encl p = Out_of_fuel"
| "parse_for (Suc n) mem encl p =
     and_then (scan_c p SCAN_TO_BRACE) (\<lambda>stop p1.
     and_then (p_dup_trim mem p1 (slice p1 (p_pos p) stop)) (\<lambda>head p2.
       if head = [] then Error (perr p2 (''missing for-head between '' @ quoted ''for'' @ '' and '' @ quoted ''{''))
       else
         and_then (new_node mem (advance p2)) (\<lambda>_ p3.
         and_then (parse_body n mem encl [] p3) (\<lambda>then_nodes p4.
           if peek p4 \<noteq> CHR ''}'' then Error (perr p4 (''expected '' @ quoted ''}'' @ '' to close the for-branch''))
           else Done (N_FOR (p_line p) head then_nodes) (advance p4)))))"
  by pat_completeness auto
termination
  by (relation "measure (\<lambda>x. case x of Inl (Inl (n, _)) \<Rightarrow> n | Inl (Inr (n, _)) \<Rightarrow> n | Inr (Inl (n, _)) \<Rightarrow> n | Inr (Inr (n, _)) \<Rightarrow> n)")
    simp_all

declare parse_body.simps [simp del] parse_call.simps [simp del] parse_if.simps [simp del] parse_for.simps [simp del]

section \<open>True positions\<close>

lemma moved_rewind: "moved p to \<Longrightarrow> moved p q \<Longrightarrow> moved p (rewind to q)"
  by (auto simp: rewind_def moved_def well_def)

lemma moved_eat: "moved p q \<Longrightarrow> moved p (snd (eat_keyword q kw))"
  using moved_keyword [of q kw] by (cases "eat_keyword q kw") (auto intro: moved_trans)

lemma moved_skip_ws_from [fine_intros]: "moved p q \<Longrightarrow> moved p (skip_ws q)"
  by (rule moved_trans [OF _ moved_skip_ws])

lemma fine_eat_keyword:
  assumes "moved p q" "\<And>found r. moved p r \<Longrightarrow> fine p (k found r)"
  shows "fine p (case eat_keyword q kw of (found, r) \<Rightarrow> k found r)"
  using assms moved_eat [OF assms(1), of kw] by (cases "eat_keyword q kw") simp

lemma fine_text_run [fine_intros]: "moved p q \<Longrightarrow> fine p (text_run mem q)"
  by (auto simp: text_run_def Let_def simp del: fine.simps intro!: fine_intros)

lemma fine_call_args [fine_intros]: "moved p q \<Longrightarrow> fine p (call_args mem q)"
  by (auto simp: call_args_def Let_def simp del: fine.simps intro!: fine_intros)

lemma fine_call_data [fine_intros]: "moved p q \<Longrightarrow> fine p (call_data mem q)"
  unfolding call_data_def Let_def
  by (rule fine_eat_keyword) (auto simp del: fine.simps intro!: fine_intros moved_rewind)

lemma fine_builtin_error: "moved p q \<Longrightarrow> builtin_error q name args d b = Some e \<Longrightarrow> fine p (Error e)"
  by (auto simp: builtin_error_def simp del: fine.simps intro: fine_perr split: if_splits)

lemma fine_parsers:
  "(\<forall>nodes p q. moved p q \<longrightarrow> fine p (parse_body n mem encl nodes q)) \<and> (\<forall>p q. moved p (advance q) \<longrightarrow> fine p (parse_call n mem encl q)) \<and>
   (\<forall>p q. moved p q \<longrightarrow> fine p (parse_if n mem encl q)) \<and> (\<forall>p q. moved p q \<longrightarrow> fine p (parse_for n mem encl q))"
proof (induction n)
  case 0
  show ?case by (simp add: parse_body.simps parse_call.simps parse_if.simps parse_for.simps)
next
  case (Suc n)
  then have b: "moved p q \<Longrightarrow> fine p (parse_body n mem encl nodes q)" and c: "moved p (advance q) \<Longrightarrow> fine p (parse_call n mem encl q)"
    and i: "moved p q \<Longrightarrow> fine p (parse_if n mem encl q)" and f: "moved p q \<Longrightarrow> fine p (parse_for n mem encl q)" for p q nodes
    by blast+
  have body: "fine p (parse_body (Suc n) mem encl nodes q)" if m: "moved p q" for p q nodes
  proof -
    have l: "peek q \<noteq> NUL \<Longrightarrow> p_pos q < length (p_src q)" by (auto simp: peek_def peek_at_def split: if_splits)
    have k: "starts_keyword q k s \<Longrightarrow> s \<noteq> [] \<Longrightarrow> k < length (p_src q)" for k s by (cases s) (auto simp: starts_keyword_def)
    note step = fine_then [OF fine_element [OF l m]] fine_then [OF fine_parse_interp [OF m]] fine_then [OF c [OF moved_advance_from [OF m]]]
      fine_then [OF i [OF moved_eat [OF moved_advance_n_from [OF m]]]] fine_then [OF f [OF moved_eat [OF moved_advance_n_from [OF m]]]]
      fine_then [OF fine_text_run [OF m]]
    show ?thesis unfolding parse_body.simps Let_def
      using m by (auto simp del: fine.simps split: option.split intro!: fine_perr fine_Done b step fine_perr_at intro: k simp: moved_src)
  qed
  have call: "fine p (parse_call (Suc n) mem encl q)" if m: "moved p (advance q)" for p q
    unfolding parse_call.simps Let_def
    using m by (auto simp del: fine.simps split: option.split intro!: fine_intros b moved_rewind intro: fine_builtin_error)
  have cond: "fine p (parse_if (Suc n) mem encl q)" if m: "moved p q" for p q
    unfolding parse_if.simps Let_def
    using m by (auto simp del: fine.simps intro!: fine_intros b i moved_rewind fine_eat_keyword)
  have loop: "fine p (parse_for (Suc n) mem encl q)" if m: "moved p q" for p q
    unfolding parse_for.simps Let_def
    using m by (auto simp del: fine.simps intro!: fine_intros b)
  show ?case using body call cond loop by blast
qed

section \<open>Enough fuel\<close>

text \<open>A step that ends has not run out of fuel.\<close>

fun ends :: "'a outcome \<Rightarrow> bool" where
  "ends Out_of_fuel = False"
| "ends (Error e) = True"
| "ends (Done a p) = True"

named_theorems ends_intros \<open>steps of the parser that end\<close>

lemma ends_value [ends_intros]: "ends (Error e)" "ends (Done a p)"
  by simp_all

lemma ends_then [ends_intros]:
  "ends x \<Longrightarrow> (\<And>a q. x = Done a q \<Longrightarrow> ends (k a q)) \<Longrightarrow> ends (and_then x k)"
  by (cases x) auto

lemma ends_dup_raw [ends_intros]: "ends (p_dup_raw mem p s)"
  by (simp add: p_dup_raw_def split: option.split)

lemma ends_dup_trim [ends_intros]: "ends (p_dup_trim mem p s)"
  by (auto simp: p_dup_trim_def intro: ends_intros)

lemma ends_ident [ends_intros]: "ends (read_ident mem p)"
  by (auto simp: read_ident_def Let_def intro: ends_intros)

lemma ends_new_node [ends_intros]: "ends (new_node mem p)"
  by (simp add: new_node_def split: option.split)

lemma ends_append_text [ends_intros]: "ends (append_text mem p i j line)"
  by (auto simp: append_text_def append_copy_def intro!: ends_intros)

lemma ends_append_copy [ends_intros]: "ends (append_copy mem p s line)"
  by (auto simp: append_copy_def intro!: ends_intros)

lemma ends_scan [ends_intros]: "ends (scan_c p mode)"
proof -
  have "ends (scan_loop mode depth p)" for depth
  proof (induction "length (p_src p) - p_pos p" arbitrary: p depth rule: less_induct)
    case less
    show ?case
    proof (cases rule: scan_step [of p mode depth])
      case (more q d)
      show ?thesis
      proof (cases "p_pos p < length (p_src p)")
        case True
        then have "length (p_src q) - p_pos q < length (p_src p) - p_pos p" using more(1,2) by (simp add: moved_src)
        from less [OF this] show ?thesis using more(3) by simp
      qed (subst scan_loop.simps, simp)
    qed simp_all
  qed
  then show ?thesis by (simp add: scan_c_def)
qed

lemma ends_interp [ends_intros]: "ends (parse_interp mem p ctx)"
  by (auto simp: parse_interp_def Let_def intro!: ends_intros)

lemma ends_attr [ends_intros]:
  "ends (attr_interp mem p i l s e)" "ends (attr_quoted_interp mem p i l s e)" "ends (boolean_attr mem p i l s)"
  by (auto simp: attr_interp_def attr_quoted_interp_def boolean_attr_def Let_def intro!: ends_intros split: sum.split)

lemma ends_tag_loop [ends_intros]: "ends (tag_loop mem tstart tline t nodes p)"
proof (induction "length (p_src p) - p_pos p" arbitrary: p t nodes rule: less_induct)
  case less
  show ?case
  proof (cases "p_pos p < length (p_src p)")
    case True
    then have ih: "ends (tag_loop mem tstart tline t' ns q)" if "p_src q = p_src p" "p_pos p < p_pos q" for q t' ns
      using less [of q] that by (simp add: diff_less_mono2)
    have "p_pos p < p_pos (advance p)" using True by (simp add: advance_pos)
    then have adv: "ends (tag_loop mem tstart tline t' ns (advance p))" for t' ns by (rule ih [OF advance_src])
    have step: "ends (and_then x (\<lambda>ns p1. tag_loop mem tstart tline (f p1) (nodes @ ns) p1))"
      if "ends x" "\<And>ns q. x = Done ns q \<Longrightarrow> p_src q = p_src p \<and> p_pos p < p_pos q" for x f
      by (rule ends_then [OF that(1)]) (use ih that(2) in blast)
    note steps = step [OF ends_attr(1) attr_Done(1)] step [OF ends_attr(2) attr_Done(2)] step [OF ends_attr(3) attr_Done(3)]
    have last: "ends (and_then (append_text mem (advance p) i j tline) (\<lambda>ns p2. Done (nodes @ ns) p2))" for i j
      by (intro ends_intros)
    show ?thesis
      by (subst tag_loop.simps)
        (simp only: Let_def ends.simps steps adv last if_True if_False if_bool_eq_conj simp_thms split: if_split)
  qed (subst tag_loop.simps, simp)
qed

lemma ends_element [ends_intros]: "ends (parse_element mem p)"
  by (auto simp: parse_element_def parse_markup_decl_def parse_close_tag_def parse_open_tag_def raw_content_def Let_def
      intro!: ends_intros split: list.split sum.split)

lemma ends_text_run [ends_intros]: "ends (text_run mem p)"
  by (auto simp: text_run_def Let_def intro!: ends_intros)

lemma ends_call_args [ends_intros]: "ends (call_args mem p)"
  by (auto simp: call_args_def Let_def intro!: ends_intros)

lemma ends_call_data [ends_intros]: "ends (call_data mem p)"
  by (auto simp: call_data_def Let_def intro!: ends_intros split: prod.split)

text \<open>What is left to read, and the steps that read at least one character.\<close>

abbreviation left :: "Parser \<Rightarrow> nat" where "left p \<equiv> length (p_src p) - p_pos p"

lemma moved_left: "moved p q \<Longrightarrow> left q \<le> left p"
  by (auto simp: moved_def)

lemma moved_left_less: "moved p q \<Longrightarrow> p_pos p < p_pos q \<Longrightarrow> p_pos p < length (p_src p) \<Longrightarrow> left q < left p"
  by (simp add: moved_def)

lemma advance_n_pos: "p_pos p + n \<le> length (p_src p) \<Longrightarrow> p_pos (advance_n p n) = p_pos p + n"
  by (induction n arbitrary: p) (auto simp: advance_pos)

lemma advance_n_add: "advance_n (advance_n p m) n = advance_n p (m + n)"
  by (induction m arbitrary: p) auto

lemma eat_at:
  assumes "starts_keyword p (p_pos (skip_ws p)) kw" "kw \<noteq> []"
  shows "moved (advance p) (snd (eat_keyword (advance_n p (p_pos (skip_ws p) - p_pos p)) kw))"
proof -
  let ?k = "p_pos (skip_ws p)"
  let ?q = "advance_n p (?k - p_pos p)"
  have k: "?k + length kw \<le> length (p_src p)" "p_pos p \<le> ?k"
    using assms(1) moved_skip_ws [of p] by (auto simp: starts_keyword_def moved_def)
  then have q: "p_pos ?q = ?k" by (subst advance_n_pos) auto
  have "fst (eat_keyword ?q kw)" using assms(1) q by (auto simp: eat_keyword_def starts_keyword_def peek_at_def Let_def)
  then have "snd (eat_keyword ?q kw) = advance_n p (?k - p_pos p + length kw)"
    by (auto simp: eat_keyword_def Let_def advance_n_add split: if_splits)
  moreover obtain m where "?k - p_pos p + length kw = Suc m" using assms(2) by (cases kw) auto
  ultimately show ?thesis by (simp add: moved_advance_n)
qed

lemma fine_parse:
  "moved p q \<Longrightarrow> fine p (parse_body n mem encl nodes q)" "moved p (advance q) \<Longrightarrow> fine p (parse_call n mem encl q)"
  "moved p q \<Longrightarrow> fine p (parse_if n mem encl q)" "moved p q \<Longrightarrow> fine p (parse_for n mem encl q)"
  using fine_parsers [of n mem encl] by blast+

lemma fine_text_run_from: "moved p (advance q) \<Longrightarrow> fine p (text_run mem q)"
  by (auto simp: text_run_def Let_def simp del: fine.simps intro!: fine_intros)

lemma fine_element_from: "moved p (advance q) \<Longrightarrow> p_pos q < length (p_src q) \<Longrightarrow> fine p (parse_element mem q)"
  by (rule fine_from, assumption)
    (auto simp: parse_element_def Let_def simp del: fine.simps intro: fine_markup_decl fine_close_tag fine_open_tag)

lemma fine_interp_from: "moved p (advance q) \<Longrightarrow> fine p (parse_interp mem q ctx)"
  by (auto simp: parse_interp_def Let_def simp del: fine.simps intro!: fine_intros)

lemma ends_step: "fine s x \<Longrightarrow> ends x \<Longrightarrow> (\<And>a q. moved s q \<Longrightarrow> ends (k a q)) \<Longrightarrow> ends (and_then x k)"
  by (cases x) auto

lemma peek_left: "peek p \<noteq> NUL \<Longrightarrow> p_pos p < length (p_src p)"
  by (auto simp: peek_def peek_at_def split: if_splits)

lemma advance_left: "peek p \<noteq> NUL \<Longrightarrow> left (advance p) < left p"
  using peek_left [of p] by (simp add: advance_pos)

lemma ends_eat:
  "moved s q \<Longrightarrow> (\<And>found r. moved s r \<Longrightarrow> ends (k found r)) \<Longrightarrow> ends (case eat_keyword q kw of (found, r) \<Rightarrow> k found r)"
  using moved_eat [of s q kw] by (cases "eat_keyword q kw") simp

lemma enough_fuel:
  "(\<forall>nodes p. 2 * left p + 1 \<le> n \<longrightarrow> ends (parse_body n mem encl nodes p)) \<and>
   (\<forall>p. peek p \<noteq> NUL \<and> 2 * left p \<le> n \<longrightarrow> ends (parse_call n mem encl p)) \<and>
   (\<forall>p. 2 * left p + 1 \<le> n \<longrightarrow> ends (parse_if n mem encl p)) \<and> (\<forall>p. 2 * left p + 1 \<le> n \<longrightarrow> ends (parse_for n mem encl p))"
proof (induction n)
  case 0
  have "p_pos p < length (p_src p)" if "peek p \<noteq> NUL" for p using that by (rule peek_left)
  then show ?case by fastforce
next
  case (Suc n)
  then have b: "2 * left p + 1 \<le> n \<Longrightarrow> ends (parse_body n mem encl nodes p)" and c: "peek p \<noteq> NUL \<Longrightarrow> 2 * left p \<le> n \<Longrightarrow> ends (parse_call n mem encl p)"
    and i: "2 * left p + 1 \<le> n \<Longrightarrow> ends (parse_if n mem encl p)" and f: "2 * left p + 1 \<le> n \<Longrightarrow> ends (parse_for n mem encl p)" for p nodes
    by blast+
  have body: "ends (parse_body (Suc n) mem encl nodes p)" if m: "2 * left p + 1 \<le> Suc n" for p nodes
  proof (cases "peek p = NUL")
    case False
    note l = advance_left [OF False]
    have more: "ends (parse_body n mem encl ns q)" if "moved (advance p) q" for q ns
      using moved_left [OF that] l m by (intro b) linarith
    have run: "ends (case r of None \<Rightarrow> Done nodes q | Some ns \<Rightarrow> parse_body n mem encl (nodes @ ns) q)"
      if "moved (advance p) q" for r q
      using more [OF that] by (cases r) auto
    let ?e = "\<lambda>kw. snd (eat_keyword (advance_n p (p_pos (skip_ws p) - p_pos p)) kw)"
    have e: "2 * left (?e kw) + 1 \<le> n" if "starts_keyword p (p_pos (skip_ws p)) kw" "kw \<noteq> []" for kw
      using moved_left [OF eat_at [OF that]] l m by linarith
    note step = ends_step [OF fine_element_from [OF moved_refl peek_left [OF False]] ends_element more]
      ends_step [OF fine_interp_from [OF moved_refl] ends_interp more]
      ends_step [OF fine_parse(2) [OF moved_refl] c [OF False] more] ends_step [OF fine_text_run_from [OF moved_refl] ends_text_run run]
      ends_step [OF fine_parse(3) [OF eat_at] i [OF e] more] ends_step [OF fine_parse(4) [OF eat_at] f [OF e] more]
    have "2 * left p \<le> n" using m by simp
    then show ?thesis unfolding parse_body.simps Let_def
      by (auto intro!: step)
  qed (simp add: parse_body.simps)
  have call: "ends (parse_call (Suc n) mem encl p)" if m: "2 * left p \<le> Suc n" "peek p \<noteq> NUL" for p
  proof -
    have "ends (parse_body n mem encl [] (advance q))" if "moved (advance p) q" "peek q = CHR ''{''" for q
      using moved_left [OF that(1)] advance_left [OF m(2)] advance_left [of q] that(2) m(1) by (intro b) simp
    then have block: "ends (if peek q = CHR ''{'' then and_then (parse_body n mem encl [] (advance q)) (\<lambda>b r.
          if peek r \<noteq> CHR ''}'' then Error (perr r msg) else Done b (advance r)) else Done [] t)"
      if "moved (advance p) q" for q t msg
      using that by (auto intro!: ends_then)
    show ?thesis unfolding parse_call.simps Let_def
      apply (rule ends_step [of "advance p", OF fine_ident [OF moved_refl] ends_ident])
      apply (rule ends_step [OF fine_call_args ends_call_args], assumption)
      apply (rule ends_step [OF fine_call_data ends_call_data], assumption)
      apply (rule ends_then, erule block)
      by (auto intro!: ends_intros split: option.split)
  qed
  have branch: "ends (parse_body n mem encl [] q)" "ends (parse_if n mem encl q)" if "moved p0 q" "2 * left p0 + 1 \<le> n" for p0 q
    using moved_left [OF that(1)] that(2) by (intro b i; linarith)+
  have block: "2 * left (advance p2) + 1 \<le> n"
    if "scan_c p SCAN_TO_BRACE = Done stop p1" "p_dup_trim mem p1 s = Done cond p2" "2 * left p + 1 \<le> Suc n" for p stop p1 s cond p2
  proof -
    have m1: "moved p p1" using that(1) fine_scan [OF moved_refl, of p SCAN_TO_BRACE] by simp
    have m2: "moved p1 p2" "p_pos p2 = p_pos p1" using dup_trim_Done [OF that(2)] by auto
    have "peek p1 = CHR ''{''" using scan_c_pos(4) [OF that(1)] by simp
    then have "peek p2 = CHR ''{''" using moved_src [OF m2(1)] m2(2) unfolding peek_def peek_at_def by (auto split: if_splits)
    moreover have "left p2 \<le> left p" using moved_left [OF m1] moved_left [OF m2(1)] by linarith
    ultimately show ?thesis using advance_left [of p2] that(3) by simp
  qed
  have cond: "ends (parse_if (Suc n) mem encl p)" if m: "2 * left p + 1 \<le> Suc n" for p
    unfolding parse_if.simps Let_def
    apply (rule ends_then [OF ends_scan])
    apply (rule ends_then [OF ends_dup_trim])
    apply (frule (1) block [OF _ _ m])
    subgoal for stop p1 head p2
      apply (cases "head = []", simp)
      apply (simp only: if_False)
      apply (rule ends_step [of "advance p2", OF fine_new_node [OF moved_refl] ends_new_node])
      apply (rule ends_step [OF fine_parse(1)], assumption, erule branch(1), assumption)
      by (auto intro!: ends_eat ends_then branch [of "advance p2"] moved_advance_from moved_skip_ws_from)
    done
  have loop: "ends (parse_for (Suc n) mem encl p)" if m: "2 * left p + 1 \<le> Suc n" for p
    unfolding parse_for.simps Let_def
    apply (rule ends_then [OF ends_scan])
    apply (rule ends_then [OF ends_dup_trim])
    apply (frule (1) block [OF _ _ m])
    subgoal for stop p1 head p2
      apply (cases "head = []", simp)
      apply (simp only: if_False)
      apply (rule ends_step [of "advance p2", OF fine_new_node [OF moved_refl] ends_new_node])
      by (auto intro!: ends_then branch [of "advance p2"])
    done
  show ?case using body call cond loop by blast
qed

section \<open>Top level\<close>

record Component =
  c_name :: string
  c_params :: string
  c_line :: nat
  c_body :: "Node list"

text \<open>What is collected of a file: the components, the \<^verbatim>\<open>#\<close> lines and the names of the once handles.\<close>

record TopLevel =
  comps :: "Component list"
  hash_lines :: "char list list"
  once_names :: "string list"

definition name_is_reserved :: "string \<Rightarrow> bool" where
  "name_is_reserved name \<longleftrightarrow>
     take 4 name = ''tpl_'' \<or>
     name \<in> set [''lit'', ''lit_n'', ''raw'', ''raw_n'', ''esc'', ''attr'', ''int'', ''fmt'', ''url'', ''ok'', ''str'', ''len'',
       ''fragment'', ''once'']"

definition parse_hash_line :: "allocator \<Rightarrow> TopLevel \<Rightarrow> Parser \<Rightarrow> TopLevel outcome" where
  "parse_hash_line mem t p =
     (let p1 = skip_while (\<lambda>q. peek q \<noteq> LF) p
      in and_then (p_dup_raw mem p1 (slice p1 (p_pos p) (p_pos p1))) (\<lambda>line p2.
           if mem ((length (hash_lines t) + 1) * 8) then Done (t\<lparr>hash_lines := hash_lines t @ [line]\<rparr>) p2
           else Error (perr p2 ''out of memory'')))"

definition parse_once :: "allocator \<Rightarrow> TopLevel \<Rightarrow> Parser \<Rightarrow> TopLevel outcome" where
  "parse_once mem t p =
     and_then (read_ident mem (skip_ws p)) (\<lambda>hname p1.
       if hname \<in> set (once_names t) then Error (perr p1 (''once handle '' @ quoted hname @ '' is already declared''))
       else if mem ((length (once_names t) + 1) * 8) then Done (t\<lparr>once_names := once_names t @ [hname]\<rparr>) p1
       else Error (perr p1 ''out of memory''))"

text \<open>\<^verbatim>\<open>sizeof(Component)\<close> is 40.\<close>

definition new_component :: "allocator \<Rightarrow> Parser \<Rightarrow> unit outcome" where
  "new_component mem p =
     (if \<not> mem 40 then Error (perr p ''out of memory'')
      else
        (case allocs_add mem p of
           None \<Rightarrow> Error (perr p ''out of memory'')
         | Some p1 \<Rightarrow> Done () p1))"

text \<open>The body of a component, which must close its tags.\<close>

definition component_body :: "nat \<Rightarrow> allocator \<Rightarrow> string \<Rightarrow> Parser \<Rightarrow> Node list outcome" where
  "component_body n mem params p =
     and_then (parse_body n mem (Some params) [] (p\<lparr>p_tags := []\<rparr>)) (\<lambda>body p1.
       case p_tags p1 of
         frame # _ \<Rightarrow>
           Error (perr_at p1 (tag_pos frame) (''unclosed <'' @ tag_name frame @ ''> (opened at line '' @ show_nat (tag_line frame) @
             '')'' @ DASH @ ''tags must be closed within the component''))
       | [] \<Rightarrow>
           if peek p1 \<noteq> CHR ''}'' then Error (perr p1 (''expected '' @ quoted ''}'' @ '' to close the component''))
           else Done body (advance p1))"

definition parse_component :: "nat \<Rightarrow> allocator \<Rightarrow> nat \<Rightarrow> Parser \<Rightarrow> Component outcome" where
  "parse_component n mem decl_line p =
     and_then (read_ident mem (skip_ws p)) (\<lambda>name p1.
       if name_is_reserved name then Error (perr p1 (''component name '' @ quoted name @ '' collides with the runtime''))
       else
         (let p2 = skip_ws p1
          in if peek p2 \<noteq> CHR ''('' then Error (perr p2 (''expected '' @ quoted ''('' @ '' after the component name''))
             else
               (let p3 = advance p2
                in and_then (scan_c p3 SCAN_MATCH_PAREN) (\<lambda>stop p4.
                   and_then (p_dup_trim mem p4 (slice p4 (p_pos p3) stop)) (\<lambda>params p5.
                     let p6 = skip_ws p5
                     in if peek p6 \<noteq> CHR ''{'' then Error (perr p6 (''expected '' @ quoted ''{'' @ '' to open the component body''))
                        else
                          and_then (new_component mem (advance p6)) (\<lambda>_ p7.
                          and_then (component_body n mem params p7) (\<lambda>body p8.
                            Done \<lparr>c_name = name, c_params = params, c_line = decl_line, c_body = body\<rparr> p8)))))))"

lemma eat_keyword_pos: "eat_keyword p kw = (found, q) \<Longrightarrow> found \<Longrightarrow> kw \<noteq> [] \<Longrightarrow> p_pos p < p_pos q"
  by (auto simp: eat_keyword_def Let_def advance_n_pos split: if_splits)

lemma moved_skip_ws_comments [fine_intros]: "moved p (skip_ws_comments p)"
proof (induction p rule: skip_ws_comments.induct)
  case (1 p)
  let ?q = "skip_while (\<lambda>q. \<not> at_comment_end q) (advance_n p 2)"
  let ?r = "if p_pos ?q < length (p_src ?q) then advance_n ?q 2 else ?q"
  have r: "moved p ?r" by (auto intro!: fine_intros)
  note ih = moved_trans [OF moved_advance 1(1)] moved_trans [OF moved_skip 1(2)] moved_trans [OF r 1(3) [OF _ _ _ refl]]
  show ?case
    apply (subst skip_ws_comments.simps)
    apply (unfold Let_def)
    apply (rule if_split [THEN iffD2], intro conjI impI)
     apply (erule ih(1))
    apply (rule if_split [THEN iffD2], intro conjI impI)
     apply (erule (1) ih(2))
    apply (rule if_split [THEN iffD2], intro conjI impI)
     apply (erule (2) ih(3))
    by (rule moved_refl)
qed

lemma well_no_tags: "moved p q \<Longrightarrow> moved p (q\<lparr>p_tags := []\<rparr>)"
  by (auto simp: moved_def well_def)

lemma fine_hash_line [fine_intros]: "moved p q \<Longrightarrow> fine p (parse_hash_line mem t q)"
  by (auto simp: parse_hash_line_def Let_def simp del: fine.simps intro!: fine_intros)

lemma fine_once [fine_intros]: "moved p q \<Longrightarrow> fine p (parse_once mem t q)"
  by (auto simp: parse_once_def Let_def simp del: fine.simps intro!: fine_intros)

lemma fine_new_component [fine_intros]: "moved p q \<Longrightarrow> fine p (new_component mem q)"
  by (rule fine_from) (auto simp: new_component_def moved_allocs intro: fine_perr split: option.split simp del: fine.simps(2))

lemma fine_unclosed:
  assumes "moved p q" "p_tags q = frame # below"
  shows "fine p (Error (perr_at q (tag_pos frame) msg))"
proof (cases "well p")
  case True
  then have "well q" using assms(1) by (simp add: moved_def)
  then show ?thesis using assms by (intro fine_perr_at) (auto simp: well_def frame_ok_def moved_src)
qed simp

lemma fine_component_body [fine_intros]: "moved p q \<Longrightarrow> fine p (component_body n mem params q)"
  by (auto simp: component_body_def simp del: fine.simps intro!: fine_intros fine_parse well_no_tags fine_unclosed split: list.split)

lemma fine_component [fine_intros]: "moved p q \<Longrightarrow> fine p (parse_component n mem l q)"
  by (auto simp: parse_component_def Let_def simp del: fine.simps intro!: fine_intros)

lemma hash_line_pos: "parse_hash_line mem t p = Done t1 q \<Longrightarrow> peek p = CHR ''#'' \<Longrightarrow> p_pos p < p_pos q"
  using skip_while_progress [of p "\<lambda>q. peek q \<noteq> LF"] peek_left [of p]
  by (auto simp: parse_hash_line_def Let_def and_then_Done dest!: dup_raw_Done split: if_splits)

function parse_top :: "nat \<Rightarrow> allocator \<Rightarrow> TopLevel \<Rightarrow> Parser \<Rightarrow> TopLevel outcome" where
  "parse_top n mem t p0 =
     (let p = skip_ws_comments p0
      in if p_pos p \<ge> length (p_src p) then Done t p
         else if peek p = CHR ''#'' then and_then (parse_hash_line mem t p) (\<lambda>t1 p1. parse_top n mem t1 p1)
         else
           (case eat_keyword p ''once'' of
              (found, p1) \<Rightarrow>
                if found then and_then (parse_once mem t p1) (\<lambda>t1 p2. parse_top n mem t1 p2)
                else
                  (case eat_keyword p1 ''component'' of
                     (found, p2) \<Rightarrow>
                       if \<not> found then
                         Error (perr p2 (''expected '' @ quoted ''component'' @ '', '' @ quoted ''once'' @ '' or '' @ quoted ''#<directive>''))
                       else
                         and_then (parse_component n mem (p_line p) p2) (\<lambda>c p3.
                           parse_top n mem (t\<lparr>comps := comps t @ [c]\<rparr>) p3))))"
  by pat_completeness auto
termination
proof (relation "measure (\<lambda>(n, mem, t, p). left p)", goal_cases)
  case (2 n mem t p0 p t1 p1)
  have "moved p p1" using fine_hash_line [OF moved_refl, of p mem t] 2(4) by simp
  then have "left p1 < left p" using hash_line_pos [OF 2(4,3)] 2(2) by (intro moved_left_less) auto
  moreover have "left p \<le> left p0" using 2(1) moved_left [OF moved_skip_ws_comments] by simp
  ultimately show ?case by simp
next
  case (3 n mem t p0 p found p1 t1 p2)
  have p: "left p \<le> left p0" "p_pos p < length (p_src p)" using 3(1,2) moved_left [OF moved_skip_ws_comments] by auto
  have e: "eat_keyword p ''once'' = (True, p1)" using 3(4,5) by simp
  then have "moved p p1" "p_pos p < p_pos p1" using moved_keyword eat_keyword_pos by blast+
  then have "left p1 < left p" using p(2) by (rule moved_left_less)
  moreover have "moved p1 p2" using fine_once [OF moved_refl, of p1 mem t] 3(6) by simp
  ultimately show ?case using p(1) moved_left [of p1 p2] by simp
next
  case (4 n mem t p0 p a p1 found p2 c p3)
  have p: "left p \<le> left p0" "p_pos p < length (p_src p)" using 4(1,2) moved_left [OF moved_skip_ws_comments] by auto
  have "moved p p1" "eat_keyword p1 ''component'' = (True, p2)"
    using moved_keyword [of p "''once''" a p1] 4(4,6,7) by auto
  then have "moved p p2" "p_pos p < p_pos p2"
    using moved_keyword [of p1] moved_trans eat_keyword_pos [of p1 "''component''" True p2] by (auto simp: moved_def intro: le_less_trans)
  then have "left p2 < left p" using p(2) by (rule moved_left_less)
  moreover have "moved p2 p3" using fine_component [OF moved_refl, of p2 n mem "p_line p"] 4(8) by simp
  ultimately show ?case using p(1) moved_left [of p2 p3] by simp
qed simp


declare parse_top.simps [simp del]

text \<open>Where the parser starts.\<close>

definition start_parser :: "char list \<Rightarrow> Parser" where
  "start_parser src = \<lparr>p_src = src, p_pos = 0, p_line = 1, p_line_start = 0, al_n = 0, al_cap = 0, p_tags = []\<rparr>"

definition empty_top :: TopLevel where
  "empty_top = \<lparr>comps = [], hash_lines = [], once_names = []\<rparr>"

text \<open>The fuel that is enough for every body of a source.\<close>

definition body_fuel :: "char list \<Rightarrow> nat" where
  "body_fuel src = 2 * length src + 1"

definition parse_file :: "allocator \<Rightarrow> char list \<Rightarrow> TopLevel outcome" where
  "parse_file mem src = parse_top (body_fuel src) mem empty_top (start_parser src)"

lemma fine_top: "moved q p \<Longrightarrow> fine q (parse_top n mem t p)"
proof (induction n mem t p arbitrary: q rule: parse_top.induct)
  case (1 n mem t p0)
  let ?p = "skip_ws_comments p0"
  have m: "moved q ?p" using 1(4) moved_trans moved_skip_ws_comments by blast
  show ?case
  proof (cases "p_pos ?p \<ge> length (p_src ?p)")
    case True
    then show ?thesis using m by (subst parse_top.simps) (simp add: Let_def)
  next
    case False
    note ih = 1(1-3) [OF refl False]
    show ?thesis
    proof (cases "peek ?p = CHR ''#''")
      case True
      then show ?thesis
        using False m ih(1) by (subst parse_top.simps) (auto simp: Let_def simp del: fine.simps intro!: fine_intros)
    next
      case n: False
      obtain f1 p1 where e1: "eat_keyword ?p ''once'' = (f1, p1)" by fastforce
      obtain f2 p2 where e2: "eat_keyword p1 ''component'' = (f2, p2)" by fastforce
      have "moved q p1" "moved q p2" using m moved_keyword [OF e1] moved_keyword [OF e2] moved_trans by blast+
      then show ?thesis
        using False n m e1 e2 ih(2) [OF n e1 [symmetric]] ih(3) [OF n e1 [symmetric] _ e2 [symmetric]]
        by (subst parse_top.simps) (auto simp: Let_def simp del: fine.simps intro!: fine_intros)
    qed
  qed
qed

lemma start_well: "well (start_parser src)"
  by (simp add: well_def start_parser_def)

text \<open>C26: whatever the source and whenever memory runs out, an error of the parser has a true position: its line is one more
  than the number of line breaks before some offset of the source, its column counts from that line's start.
\<close>

theorem errors_are_located: "case parse_file mem src of Error e \<Rightarrow> true_position src e | _ \<Rightarrow> True"
proof (cases "parse_file mem src")
  case (Error e)
  then have "fine (start_parser src) (Error e :: TopLevel outcome)"
    using fine_top [OF moved_refl, of "start_parser src" "body_fuel src" mem empty_top] by (simp add: parse_file_def)
  then show ?thesis using Error start_well [of src] by (simp add: start_parser_def)
qed simp_all

lemma ends_once [ends_intros]: "ends (parse_once mem t p)"
  by (auto simp: parse_once_def intro!: ends_intros)

lemma ends_hash_line [ends_intros]: "ends (parse_hash_line mem t p)"
  by (auto simp: parse_hash_line_def Let_def intro!: ends_intros)

lemma ends_new_component [ends_intros]: "ends (new_component mem p)"
  by (simp add: new_component_def split: option.split)

lemma ends_component_body:
  assumes "2 * length (p_src p) + 1 \<le> n"
  shows "ends (component_body n mem params p)"
proof -
  have "ends (parse_body n mem (Some params) [] (p\<lparr>p_tags := []\<rparr>))"
    using enough_fuel [of n mem "Some params"] assms by simp
  then show ?thesis by (auto simp: component_body_def intro!: ends_then split: list.split)
qed

lemma ends_component:
  assumes "2 * length (p_src p) + 1 \<le> n"
  shows "ends (parse_component n mem l p)"
proof -
  have "ends (component_body n mem params q)" if "moved p q" for params q
    using that assms by (intro ends_component_body) (simp add: moved_src)
  then show ?thesis unfolding parse_component_def Let_def
    by (auto simp del: fine.simps intro!: ends_step [of p] fine_intros ends_ident ends_scan ends_dup_trim ends_new_component ends_value)
qed

lemma ends_more:
  "fine s x \<Longrightarrow> ends x \<Longrightarrow> (\<And>a q. x = Done a q \<Longrightarrow> moved s q \<Longrightarrow> ends (k a q)) \<Longrightarrow> ends (and_then x k)"
  by (cases x) auto

lemma ends_top: "2 * length (p_src p) + 1 \<le> n \<Longrightarrow> ends (parse_top n mem t p)"
proof (induction n mem t p rule: parse_top.induct)
  case (1 n mem t p0)
  let ?p = "skip_ws_comments p0"
  have src: "p_src q = p_src p0" if "moved ?p q" for q
    using that moved_skip_ws_comments [of p0] by (simp add: moved_src)
  show ?case
  proof (cases "p_pos ?p \<ge> length (p_src ?p)")
    case False
    note ih = 1(1-3) [OF refl False]
    show ?thesis
    proof (cases "peek ?p = CHR ''#''")
      case True
      then show ?thesis using False ih(1) 1(4) src
        by (subst parse_top.simps)
          (auto simp: Let_def simp del: fine.simps intro!: ends_more [of ?p, OF fine_hash_line [OF moved_refl] ends_hash_line])
    next
      case n: False
      obtain f1 p1 where e1: "eat_keyword ?p ''once'' = (f1, p1)" by fastforce
      obtain f2 p2 where e2: "eat_keyword p1 ''component'' = (f2, p2)" by fastforce
      have "moved ?p p1" "moved ?p p2" using moved_keyword [OF e1] moved_keyword [OF e2] moved_trans by blast+
      then have m: "fine ?p (parse_once mem t p1)" "fine ?p (parse_component n mem (p_line ?p) p2)"
        and e: "ends (parse_component n mem (p_line ?p) p2)"
        using 1(4) src by (auto intro!: fine_once fine_component ends_component)
      show ?thesis
        using False n e1 e2 ih(2) [OF n e1 [symmetric]] ih(3) [OF n e1 [symmetric] _ e2 [symmetric]] 1(4) src
        by (subst parse_top.simps)
          (auto simp: Let_def simp del: fine.simps intro!: ends_more [OF m(1) ends_once] ends_more [OF m(2) e])
    qed
  qed (subst parse_top.simps, simp)
qed

text \<open>C22: the parser ends on every source, without running out of the fuel given to it: it returns the parsed file or
  reports an error.
\<close>

theorem parser_ends: "parse_file mem src \<noteq> Out_of_fuel"
  using ends_top [of "start_parser src" "body_fuel src" mem empty_top]
  by (auto simp: parse_file_def start_parser_def body_fuel_def)

end
