(* ===== verification/Ctmpl_Markup.thy ===== *)
theory Ctmpl_Markup
  imports Ctmpl_Program
begin

text \<open>
  The two checks of the template compiler on markup: the escaping context of an expression in an attribute value, with
  the spellings in which it is found and in which it is lost, and the discipline of the stack of open tags.
\<close>

section \<open>Attributes\<close>

text \<open>The context of an attribute by its name; scripts have none.\<close>

definition attr_class :: "string \<Rightarrow> NodeCtx option" where
  "attr_class name =
     (let n = map to_lower name
      in if (length n \<ge> 3 \<and> take 2 n = ''on'') \<or> take 6 n = ''hx-on:'' then None
         else if n \<in> set [''href'', ''src'', ''action'', ''formaction'', ''poster'', ''cite'', ''background''] then Some CTX_URL
         else if n = ''style'' then Some CTX_CSS
         else Some CTX_ATTR)"

definition script_error :: "string \<Rightarrow> string" where
  "script_error name =
     ''expressions in '' @ [CHR 0x27] @ name @ [CHR 0x27] @ '' attributes are not supported'' @ DASH @
     ''pass data via a data-* attribute and wire it up in a <script> block''"

definition attr_char :: "char \<Rightarrow> bool" where
  "attr_char c \<longleftrightarrow> c \<notin> {NUL, DQUOTE, CHR 0x27, CHR ''='', CHR ''{'', CHR ''?'', CHR ''>''} \<and> \<not> is_space c"

lemma strncaseeq_whole:
  assumes "take n s = name" "length name = n"
  shows "length a = n \<and> strncaseeq s a n \<longleftrightarrow> map to_lower a = map to_lower name"
proof -
  have "length a = n \<Longrightarrow> take n a = a" by simp
  moreover have "map to_lower a = map to_lower name \<Longrightarrow> length a = n" using assms(2) map_eq_imp_length_eq by blast
  ultimately show ?thesis using assms(1) by (auto simp: strncaseeq_def)
qed

lemma classify_attr_class:
  assumes "slice p i j = name" "j = i + length name" "name \<noteq> []" "list_all attr_char name" "length name < 2 ^ 63"
  shows "classify_attr p i j = (case attr_class name of None \<Rightarrow> Inl (perr p (script_error name)) | Some ctx \<Rightarrow> Inr ctx)"
proof -
  let ?s = "drop i (p_src p)"
  have n: "nat ((int j - int i) mod 2 ^ 64) = length name"
  proof -
    have "int j - int i = int (length name)" using assms(2) by simp
    moreover have "int (length name) mod 2 ^ 64 = int (length name)"
    proof (rule mod_pos_pos_trivial)
      have "length name < (2 ^ 64 :: nat)" using assms(5) by (rule less_trans) simp
      then have "int (length name) < int (2 ^ 64)" by (rule of_nat_less_iff [THEN iffD2])
      then show "int (length name) < 2 ^ 64" by (simp only: of_nat_power of_nat_numeral)
    qed simp
    ultimately show ?thesis by (simp only: nat_int)
  qed
  have t: "take (length name) ?s = name" using assms(1,2) by (simp add: slice_def)
  have "NUL \<notin> set name" using assms(4) unfolding list_all_iff attr_char_def by blast
  then have c: "cstr name = name" by (intro cstr_id) (simp only: is_cstr_def not_False_eq_True)
  have pre: "length name \<ge> k \<Longrightarrow> take k ?s = take k name" for k using t by (metis min.absorb1 take_take)
  have on: "length name \<ge> 3 \<Longrightarrow> strncaseeq ?s ''on'' 2 = (take 2 (map to_lower name) = ''on'')"
    using pre [of 2] by (simp add: strncaseeq_def take_map to_lower_def is_upper_def)
  have hx: "length name \<ge> 6 \<Longrightarrow> strncaseeq ?s ''hx-on:'' 6 = (take 6 (map to_lower name) = ''hx-on:'')"
    using pre [of 6] by (simp add: strncaseeq_def take_map to_lower_def is_upper_def)
  have hx_len: "take 6 (map to_lower name) = ''hx-on:'' \<Longrightarrow> 6 \<le> length name"
    by (drule arg_cong [of _ _ length]) simp
  have w: "(length a = length name \<and> strncaseeq ?s a (length name)) = (map to_lower name = a)" if "map to_lower a = a" for a
    using strncaseeq_whole [OF t refl, of a] that by auto
  have lists: "list_ex (\<lambda>a. length a = length name \<and> strncaseeq ?s a (length name)) as = (map to_lower name \<in> set as)"
    if "\<forall>a \<in> set as. map to_lower a = a" for as
    using w that by (auto simp: list_ex_iff)
  have urls: "list_ex (\<lambda>a. length a = length name \<and> strncaseeq ?s a (length name))
      [''href'', ''src'', ''action'', ''formaction'', ''poster'', ''cite'', ''background''] =
    (map to_lower name \<in> set [''href'', ''src'', ''action'', ''formaction'', ''poster'', ''cite'', ''background''])"
    by (rule lists) (simp add: to_lower_def is_upper_def)
  have css: "(length name = 5 \<and> strncaseeq ?s ''style'' 5) = (map to_lower name = ''style'')"
  proof -
    have "map to_lower ''style'' = ''style''" "length ''style'' = 5" by (simp_all add: to_lower_def is_upper_def)
    then show ?thesis using w [of "''style''"] by metis
  qed
  have scripts: "((length name \<ge> 3 \<and> strncaseeq ?s ''on'' 2) \<or> (length name \<ge> 6 \<and> strncaseeq ?s ''hx-on:'' 6)) =
    ((length (map to_lower name) \<ge> 3 \<and> take 2 (map to_lower name) = ''on'') \<or> take 6 (map to_lower name) = ''hx-on:'')"
    using on hx hx_len by auto
  have e: "\<not> j < i" "length name \<noteq> 0" using assms(2,3) by simp_all
  show ?thesis
    unfolding classify_attr_def attr_class_def Let_def n t c scripts urls css script_error_def
    by (simp only: e if_False option.case if_distrib [of "case_option a b" for a b])
qed

lemma ahead_run:
  assumes "ahead p = s @ r"
  shows "ahead (advance_n p (length s)) = r \<and> p_pos (advance_n p (length s)) = p_pos p + length s"
  using assms
proof (induction s arbitrary: p)
  case (Cons c s)
  then show ?case using ahead_Cons [of p c "s @ r"] by auto
qed simp

text \<open>One character of a tag outside of quotes.\<close>

lemma tag_plain:
  assumes "ahead p = c # r" "attr_char c" "ts_quote t = NUL"
  shows "tag_loop mem tstart tline t nodes p = tag_loop mem tstart tline t nodes (advance p)"
  using ahead_Cons [OF assms(1)] assms(2,3) by (subst tag_loop.simps) (simp add: attr_char_def Let_def not_le)

lemma tag_name_run:
  assumes "ahead p = s @ r" "list_all attr_char s" "ts_quote t = NUL"
  shows "tag_loop mem tstart tline t nodes p = tag_loop mem tstart tline t nodes (advance_n p (length s))"
  using assms
proof (induction s arbitrary: p)
  case (Cons c s)
  then show ?case using tag_plain [of p c "s @ r" t mem tstart tline nodes] ahead_Cons(3) [of p c "s @ r"] by simp
qed simp

lemma space_cases: "is_space c \<Longrightarrow> c \<notin> {NUL, DQUOTE, CHR 0x27, CHR ''='', CHR ''{'', CHR ''?'', CHR ''>''}"
  by (auto simp: is_space_def)

lemma tag_space:
  assumes "ahead p = c # d # r" "is_space c" "\<not> is_space d" "ts_quote t = NUL"
  shows "tag_loop mem tstart tline t nodes p =
    tag_loop mem tstart tline (t\<lparr>attr_name_start := p_pos p + 1\<rparr>) nodes (advance p)"
proof -
  note a = ahead_Cons [OF assms(1)]
  have "skip_ws (advance p) = advance p"
    using ahead_Cons(2) [OF a(3)] assms(3) by (simp add: skip_ws_def skip_while.simps [of _ "advance p"])
  then show ?thesis using a(1,2,4) assms(2,4) space_cases [OF assms(2)]
    by (subst tag_loop.simps) (simp add: Let_def not_le)
qed

lemma tag_equals:
  assumes "ahead p = CHR ''='' # r" "ts_quote t = NUL"
  shows "tag_loop mem tstart tline t nodes p = tag_loop mem tstart tline (t\<lparr>attr_name_end := p_pos p\<rparr>) nodes (advance p)"
  using ahead_Cons [OF assms(1)] assms(2) by (subst tag_loop.simps) (simp add: Let_def not_le)

lemma tag_quote:
  assumes "ahead p = q # r" "q = DQUOTE \<or> q = CHR 0x27" "ts_quote t = NUL"
  shows "tag_loop mem tstart tline t nodes p = tag_loop mem tstart tline (t\<lparr>ts_quote := q\<rparr>) nodes (advance p)"
  using ahead_Cons [OF assms(1)] assms(2,3) by (subst tag_loop.simps) (auto simp: Let_def not_le)

lemma tag_value_run:
  assumes "ahead p = s @ r" "q \<notin> set s" "CHR ''{'' \<notin> set s" "ts_quote t = q" "q \<noteq> NUL"
  shows "tag_loop mem tstart tline t nodes p = tag_loop mem tstart tline t nodes (advance_n p (length s))"
  using assms
proof (induction s arbitrary: p)
  case (Cons c s)
  have a: "ahead p = c # s @ r" using Cons.prems(1) by simp
  note a = ahead_Cons [OF this]
  have "tag_loop mem tstart tline t nodes p = tag_loop mem tstart tline t nodes (advance p)"
    using a(1,2) Cons.prems(2-5) by (subst tag_loop.simps) (auto simp: Let_def not_le)
  then show ?case using Cons.IH [OF a(3)] Cons.prems(2-5) by simp
qed simp

lemma tag_expression:
  assumes "ahead p = CHR ''{'' # r" "ts_quote t \<noteq> NUL"
    and "classify_attr p (attr_name_start t) (attr_name_end t) = c"
  shows "tag_loop mem tstart tline t nodes p =
    (case c of
       Inl e \<Rightarrow> Error e
     | Inr ctx \<Rightarrow>
         and_then (append_text mem p (flush_to t) (p_pos p) tline) (\<lambda>ns p1.
         and_then (parse_interp mem p1 ctx) (\<lambda>i p2.
         tag_loop mem tstart tline (t\<lparr>flush_to := p_pos p2\<rparr>) (nodes @ ns @ i) p2)))"
proof -
  have assoc: "and_then (and_then x f) k = and_then x (\<lambda>a q. and_then (f a q) k)" for x :: "'x outcome" and f :: "'x \<Rightarrow> Parser \<Rightarrow> 'y outcome" and k :: "'y \<Rightarrow> Parser \<Rightarrow> 'z outcome"
    by (cases x) auto
  show ?thesis using ahead_Cons [OF assms(1)] assms(2,3)
    by (subst tag_loop.simps) (auto simp: Let_def not_le attr_interp_def assoc split: sum.split)
qed
text \<open>C19: the escaping context of an expression in a quoted attribute value is the one of the attribute's name, when the
  name is followed by the equals sign and the quote at once: URL attributes get the URL writer, \<^verbatim>\<open>style\<close> the CSS writer, and
  an expression in \<^verbatim>\<open>on...\<close> or \<^verbatim>\<open>hx-on:...\<close> is rejected, whatever the case of the name and the text before the expression.
\<close>

theorem attribute_context:
  assumes "ahead p = ws # name @ ''='' @ q # value @ ''{'' @ rest" "is_space ws" "name \<noteq> []" "list_all attr_char name"
    and "length name < 2 ^ 63" "q = DQUOTE \<or> q = CHR 0x27" "q \<notin> set value" "CHR ''{'' \<notin> set value" "ts_quote t = NUL"
  defines "p1 \<equiv> advance_n p (length name + length value + 3)"
    and "t1 \<equiv> t\<lparr>attr_name_start := p_pos p + 1, attr_name_end := p_pos p + 1 + length name, ts_quote := q\<rparr>"
  shows "tag_loop mem tstart tline t nodes p =
    (case attr_class name of
       None \<Rightarrow> Error (perr p1 (script_error name))
     | Some ctx \<Rightarrow>
         and_then (append_text mem p1 (flush_to t) (p_pos p1) tline) (\<lambda>ns p2.
         and_then (parse_interp mem p2 ctx) (\<lambda>i p3.
         tag_loop mem tstart tline (t1\<lparr>flush_to := p_pos p3\<rparr>) (nodes @ ns @ i) p3)))"
proof -
  obtain c0 name' where name: "name = c0 # name'" using assms(3) by (cases name) auto
  then have c0: "\<not> is_space c0" using assms(4) by (simp add: attr_char_def)
  let ?r1 = "''='' @ q # value @ ''{'' @ rest"
  have a0: "ahead p = ws # c0 # name' @ ?r1" using assms(1) name by simp
  note p = ahead_Cons [OF assms(1)]
  let ?pn = "advance_n (advance p) (length name)"
  note n = ahead_run [OF p(3)]
  have en: "ahead ?pn = CHR ''='' # q # value @ ''{'' @ rest" using n by simp
  note e = ahead_Cons [OF en]
  note qq = ahead_Cons [OF e(3)]
  let ?pq = "advance (advance ?pn)"
  note v = ahead_run [OF qq(3)]
  have p1: "advance_n ?pq (length value) = p1"
    unfolding p1_def by (simp add: advance_n_add numeral_3_eq_3 flip: advance_n.simps)
  have pv: "ahead p1 = CHR ''{'' # rest" using v p1 by simp
  have start: "p_pos (advance p) = p_pos p + 1" "p_pos ?pn = p_pos p + 1 + length name"
    using p(4) n by simp_all
  have src: "p_src p1 = p_src p" by (simp add: p1_def)
  have "slice p1 (p_pos p + 1) (p_pos p + 1 + length name) = name"
    using p(3) src start(1) by (simp add: slice_def ahead_def)
  note cl = classify_attr_class [OF this refl assms(3,4,5)]
  have qn: "q \<noteq> NUL" using assms(6) by auto
  have "tag_loop mem tstart tline t nodes p = tag_loop mem tstart tline (t\<lparr>attr_name_start := p_pos p + 1\<rparr>) nodes (advance p)"
    by (rule tag_space [OF a0 assms(2) c0 assms(9)])
  also have "\<dots> = tag_loop mem tstart tline (t\<lparr>attr_name_start := p_pos p + 1\<rparr>) nodes ?pn"
    by (rule tag_name_run [OF p(3) assms(4)]) (simp add: assms(9))
  also have "\<dots> = tag_loop mem tstart tline (t\<lparr>attr_name_start := p_pos p + 1, attr_name_end := p_pos ?pn\<rparr>) nodes (advance ?pn)"
    by (subst tag_equals [OF en]) (simp_all add: assms(9))
  also have "\<dots> = tag_loop mem tstart tline t1 nodes ?pq"
    by (subst tag_quote [OF e(3) assms(6)]) (simp_all add: assms(9) t1_def start)
  also have "\<dots> = tag_loop mem tstart tline t1 nodes p1"
    using tag_value_run [OF qq(3) assms(7,8), of t1] qn p1 by (simp add: t1_def)
  finally show ?thesis
    using tag_expression [OF pv, of t1 "classify_attr p1 (p_pos p + 1) (p_pos p + 1 + length name)" mem tstart tline nodes] qn cl
    by (simp add: t1_def split: option.splits)
qed

theorem attribute_context_witness:
  "tag_loop (\<lambda>_. True) 0 1 \<lparr>ts_quote = NUL, flush_to = 0, attr_name_start = 2, attr_name_end = 2\<rparr> []
      ((start_parser (''<a onClick='' @ [DQUOTE] @ ''{x}'' @ [DQUOTE] @ ''>''))\<lparr>p_pos := 2\<rparr>) =
   Error (perr ((start_parser (''<a onClick='' @ [DQUOTE] @ ''{x}'' @ [DQUOTE] @ ''>''))\<lparr>p_pos := 12\<rparr>) (script_error ''onClick''))"
proof -
  let ?p = "(start_parser (''<a onClick='' @ [DQUOTE] @ ''{x}'' @ [DQUOTE] @ ''>''))\<lparr>p_pos := 2\<rparr>"
  let ?t = "\<lparr>ts_quote = NUL, flush_to = 0, attr_name_start = 2, attr_name_end = 2\<rparr>"
  have a: "ahead ?p = SP # ''onClick'' @ ''='' @ DQUOTE # [] @ ''{'' @ (''x}'' @ [DQUOTE] @ ''>'')"
    by (simp add: ahead_def start_parser_def)
  have c: "attr_class ''onClick'' = None" by (simp add: attr_class_def to_lower_def is_upper_def)
  have n: "advance_n ?p 10 = ?p\<lparr>p_pos := 12\<rparr>" by (simp add: start_parser_def advance_def eval_nat_numeral)
  show ?thesis
    using attribute_context [OF a, of ?t "\<lambda>_. True" 0 1 "[]"] c n by (simp add: is_space_def attr_char_def)
qed

text \<open>C27: with a space between the name and the equals sign, which HTML allows, the name of the attribute is lost: an
  expression in the value gets the writer of plain attributes, for every attribute, also where the documentation
  promises a URL or CSS writer or a rejection.
\<close>

theorem spaced_attribute_loses_context:
  assumes "ahead p = ws # name @ '' ='' @ q # value @ ''{'' @ rest" "is_space ws" "name \<noteq> []" "list_all attr_char name"
    and "q = DQUOTE \<or> q = CHR 0x27" "q \<notin> set value" "CHR ''{'' \<notin> set value" "ts_quote t = NUL"
  defines "p1 \<equiv> advance_n p (length name + length value + 4)"
    and "t1 \<equiv> t\<lparr>attr_name_start := p_pos p + length name + 2, attr_name_end := p_pos p + length name + 2, ts_quote := q\<rparr>"
  shows "tag_loop mem tstart tline t nodes p =
    and_then (append_text mem p1 (flush_to t) (p_pos p1) tline) (\<lambda>ns p2.
    and_then (parse_interp mem p2 CTX_ATTR) (\<lambda>i p3.
    tag_loop mem tstart tline (t1\<lparr>flush_to := p_pos p3\<rparr>) (nodes @ ns @ i) p3))"
proof -
  obtain c0 name' where name: "name = c0 # name'" using assms(3) by (cases name) auto
  then have c0: "\<not> is_space c0" using assms(4) by (simp add: attr_char_def)
  have a0: "ahead p = ws # c0 # name' @ '' ='' @ q # value @ ''{'' @ rest" using assms(1) name by simp
  note p = ahead_Cons [OF assms(1)]
  let ?pn = "advance_n (advance p) (length name)"
  note n = ahead_run [OF p(3)]
  have sn: "ahead ?pn = SP # CHR ''='' # q # value @ ''{'' @ rest" using n by simp
  note s = ahead_Cons [OF sn]
  note e = ahead_Cons [OF s(3)]
  note qq = ahead_Cons [OF e(3)]
  let ?pq = "advance (advance (advance ?pn))"
  note v = ahead_run [OF qq(3)]
  have "advance_n (advance_n p (Suc (length name))) (Suc (Suc (Suc (length value)))) = p1"
    unfolding p1_def advance_n_add by (simp add: eval_nat_numeral add.commute)
  then have p1: "advance_n ?pq (length value) = p1" by simp
  have pv: "ahead p1 = CHR ''{'' # rest" using v p1 by simp
  have pos: "p_pos (advance p) = p_pos p + 1" "p_pos ?pn + 1 = p_pos p + length name + 2" "p_pos (advance ?pn) = p_pos p + length name + 2"
    using p(4) n s(4) by simp_all
  have qn: "q \<noteq> NUL" using assms(5) by auto
  let ?t = "\<lambda>k. t\<lparr>attr_name_start := k\<rparr>"
  have "tag_loop mem tstart tline t nodes p = tag_loop mem tstart tline (?t (p_pos p + 1)) nodes (advance p)"
    by (rule tag_space [OF a0 assms(2) c0 assms(8)])
  also have "\<dots> = tag_loop mem tstart tline (?t (p_pos p + 1)) nodes ?pn"
    by (rule tag_name_run [OF p(3) assms(4)]) (simp add: assms(8))
  also have "\<dots> = tag_loop mem tstart tline (?t (p_pos p + length name + 2)) nodes (advance ?pn)"
    by (subst tag_space [OF sn]) (simp_all add: is_space_def assms(8) n p(4))
  also have "\<dots> = tag_loop mem tstart tline (t\<lparr>attr_name_start := p_pos p + length name + 2, attr_name_end := p_pos p + length name + 2\<rparr>) nodes (advance (advance ?pn))"
    by (subst tag_equals [OF s(3)]) (simp_all add: assms(8) t1_def pos(3))
  also have "\<dots> = tag_loop mem tstart tline t1 nodes ?pq"
    by (subst tag_quote [OF e(3) assms(5)]) (simp_all add: t1_def assms(8))
  also have "\<dots> = tag_loop mem tstart tline t1 nodes p1"
    using tag_value_run [OF qq(3) assms(6,7), of t1] qn p1 by (simp add: t1_def)
  finally show ?thesis
    using tag_expression [OF pv, of t1 "Inr CTX_ATTR" mem tstart tline nodes] qn by (simp add: t1_def classify_attr_def)
qed

theorem spaced_attribute_loses_context_witness:
  "\<exists>k. tag_loop (\<lambda>_. True) 0 1 \<lparr>ts_quote = NUL, flush_to = 0, attr_name_start = 2, attr_name_end = 2\<rparr> []
      ((start_parser (''<a href ='' @ [DQUOTE] @ ''{x}'' @ [DQUOTE] @ ''>''))\<lparr>p_pos := 2\<rparr>) =
    and_then (append_text (\<lambda>_. True) ((start_parser (''<a href ='' @ [DQUOTE] @ ''{x}'' @ [DQUOTE] @ ''>''))\<lparr>p_pos := 10\<rparr>) 0 10 1)
      (\<lambda>ns p2. and_then (parse_interp (\<lambda>_. True) p2 CTX_ATTR) (k ns))"
proof -
  let ?p = "(start_parser (''<a href ='' @ [DQUOTE] @ ''{x}'' @ [DQUOTE] @ ''>''))\<lparr>p_pos := 2\<rparr>"
  let ?t = "\<lparr>ts_quote = NUL, flush_to = 0, attr_name_start = 2, attr_name_end = 2\<rparr>"
  have a: "ahead ?p = SP # ''href'' @ '' ='' @ DQUOTE # [] @ ''{'' @ (''x}'' @ [DQUOTE] @ ''>'')"
    by (simp add: ahead_def start_parser_def)
  have n: "advance_n ?p 8 = ?p\<lparr>p_pos := 10\<rparr>" by (simp add: start_parser_def advance_def eval_nat_numeral)
  show ?thesis
    using spaced_attribute_loses_context [OF a, of ?t "\<lambda>_. True" 0 1 "[]"] n
    by (intro exI [of _ "\<lambda>ns i p3. tag_loop (\<lambda>_. True) 0 1
        \<lparr>ts_quote = DQUOTE, flush_to = p_pos p3, attr_name_start = 8, attr_name_end = 8\<rparr> (ns @ i) p3"])
      (simp add: is_space_def attr_char_def)
qed

end
