(* ===== verification/Ctmpl_Tree.thy ===== *)
theory Ctmpl_Tree
  imports Ctmpl_Emit
begin

text \<open>
  What the parser promises to the generator: the shape of the syntax tree of an accepted file. With it, generation is
  always defined: no missing argument, block or name is used. The last part is the whole compiler: what it writes for an
  accepted and for a rejected file, and how the functions of child blocks are numbered and ordered.
\<close>

section \<open>The shape of a tree\<close>

definition call_ok :: "string \<Rightarrow> string option \<Rightarrow> string option \<Rightarrow> Node list \<Rightarrow> bool" where
  "call_ok callee args data block \<longleftrightarrow>
     (is_builtin_callee callee \<longrightarrow> data = None \<and> args \<noteq> None \<and> args \<noteq> Some [] \<and> (block = []) = (callee = ''raw''))"

fun node_ok :: "Node \<Rightarrow> bool" where
  "node_ok (N_TEXT l s) = True"
| "node_ok (N_INTERP l e ctx children) = (e \<noteq> [] \<and> children = (e = ''children...'') \<and> (children \<longrightarrow> ctx = CTX_TEXT))"
| "node_ok (N_CALL l callee args data block encl g) =
     (call_ok callee args data block \<and> list_all node_ok block \<and> encl \<noteq> None \<and> g = None)"
| "node_ok (N_IF l c th ot) = (c \<noteq> [] \<and> list_all node_ok th \<and> list_all node_ok ot)"
| "node_ok (N_FOR l h th) = (h \<noteq> [] \<and> list_all node_ok th)"

definition component_ok :: "Component \<Rightarrow> bool" where
  "component_ok c \<longleftrightarrow> \<not> name_is_reserved (c_name c) \<and> list_all node_ok (c_body c)"

text \<open>A step whose value, if it gives one, has a property.\<close>

fun yields :: "('a \<Rightarrow> bool) \<Rightarrow> 'a outcome \<Rightarrow> bool" where
  "yields P Out_of_fuel = True"
| "yields P (Error e) = True"
| "yields P (Done a p) = P a"

named_theorems yields_intros \<open>steps of the parser that yield well-formed nodes\<close>

lemma yields_then: "(\<And>a q. x = Done a q \<Longrightarrow> yields P (k a q)) \<Longrightarrow> yields P (and_then x k)"
  by (cases x) auto

lemma yields_use: "yields Q x \<Longrightarrow> (\<And>a q. Q a \<Longrightarrow> yields P (k a q)) \<Longrightarrow> yields P (and_then x k)"
  by (cases x) auto

lemma yields_skip [yields_intros]:
  "(\<And>a q. yields P (k1 a q)) \<Longrightarrow> yields P (and_then (new_node mem p) k1)"
  "(\<And>a q. yields P (k2 a q)) \<Longrightarrow> yields P (and_then (scan_c p mode) k2)"
  "(\<And>a q. yields P (k3 a q)) \<Longrightarrow> yields P (and_then (p_dup_raw mem p s) k3)"
  "(\<And>a q. yields P (k4 a q)) \<Longrightarrow> yields P (and_then (p_dup_trim mem p s) k4)"
  "(\<And>a q. yields P (k5 a q)) \<Longrightarrow> yields P (and_then (read_ident mem p) k5)"
  "(\<And>a q. yields P (k6 a q)) \<Longrightarrow> yields P (and_then (call_args mem p) k6)"
  "(\<And>a q. yields P (k7 a q)) \<Longrightarrow> yields P (and_then (call_data mem p) k7)"
  by (auto intro: yields_then)

abbreviation nodes_ok :: "Node list \<Rightarrow> bool" where "nodes_ok \<equiv> list_all node_ok"

lemma yields_append_copy [yields_intros]: "yields nodes_ok (append_copy mem p s line)"
  by (auto simp: append_copy_def intro!: yields_intros)

lemma yields_append_text [yields_intros]: "yields nodes_ok (append_text mem p i j line)"
  by (auto simp: append_text_def intro!: yields_intros)

lemma yields_interp [yields_intros]: "yields nodes_ok (parse_interp mem p ctx)"
  by (auto simp: parse_interp_def Let_def intro!: yields_intros)

lemma yields_attr [yields_intros]:
  "yields nodes_ok (attr_interp mem p i l s e)" "yields nodes_ok (attr_quoted_interp mem p i l s e)" "yields nodes_ok (boolean_attr mem p i l s)"
  unfolding attr_interp_def attr_quoted_interp_def boolean_attr_def Let_def
  by (auto split: sum.split intro!: yields_use [OF yields_append_text] yields_use [OF yields_append_copy] yields_use [OF yields_interp] yields_intros)

lemma yields_tag_loop: "nodes_ok nodes \<Longrightarrow> yields nodes_ok (tag_loop mem tstart tline t nodes p)"
proof (induction "length (p_src p) - p_pos p" arbitrary: p t nodes rule: less_induct)
  case less
  show ?case
  proof (cases "p_pos p < length (p_src p)")
    case True
    then have ih: "yields nodes_ok (tag_loop mem tstart tline t' ns q)" if "p_src q = p_src p" "p_pos p < p_pos q" "nodes_ok ns" for q t' ns
      using less(1) [of q] that by (simp add: diff_less_mono2)
    have "p_pos p < p_pos (advance p)" using True by (simp add: advance_pos)
    then have adv: "yields nodes_ok (tag_loop mem tstart tline t' nodes (advance p))" for t'
      using ih [OF advance_src] less(2) by blast
    have step: "yields nodes_ok (and_then x (\<lambda>ns p1. tag_loop mem tstart tline (f p1) (nodes @ ns) p1))"
      if "yields nodes_ok x" "\<And>ns q. x = Done ns q \<Longrightarrow> p_src q = p_src p \<and> p_pos p < p_pos q" for x f
      using that less(2) ih by (cases x) auto
    note steps = step [OF yields_attr(1) attr_Done(1)] step [OF yields_attr(2) attr_Done(2)] step [OF yields_attr(3) attr_Done(3)]
    have last: "yields nodes_ok (and_then (append_text mem (advance p) i j tline) (\<lambda>ns p2. Done (nodes @ ns) p2))" for i j
      using less(2) by (intro yields_use [OF yields_append_text]) simp
    show ?thesis
      by (subst tag_loop.simps)
        (simp only: Let_def yields.simps steps adv last if_True if_False if_bool_eq_conj simp_thms split: if_split)
  qed (subst tag_loop.simps, simp)
qed

lemma yields_element [yields_intros]: "yields nodes_ok (parse_element mem p)"
proof -
  have tags: "yields nodes_ok (tag_loop mem s l t [] q)" for s l t q by (rule yields_tag_loop) simp
  have raw: "yields nodes_ok (raw_content mem q name)" for q name
    by (auto simp: raw_content_def Let_def intro!: yields_intros)
  show ?thesis
    by (auto simp: parse_element_def parse_markup_decl_def parse_close_tag_def parse_open_tag_def Let_def
        intro!: yields_append_text yields_use [OF tags] yields_use [OF raw] split: list.split sum.split)
qed

lemma builtin_error_None: "builtin_error p name args data block = None \<longleftrightarrow> call_ok name args data block"
  by (auto simp: builtin_error_def call_ok_def is_builtin_callee_def)

lemma yields_text_run: "yields (\<lambda>r. case r of None \<Rightarrow> True | Some ns \<Rightarrow> nodes_ok ns) (text_run mem p)"
  by (auto simp: text_run_def Let_def intro!: yields_use [OF yields_append_text])

lemma yields_parsers:
  "(\<forall>nodes p. nodes_ok nodes \<longrightarrow> yields nodes_ok (parse_body n mem (Some ps) nodes p)) \<and>
   (\<forall>p. yields node_ok (parse_call n mem (Some ps) p)) \<and>
   (\<forall>p. yields node_ok (parse_if n mem (Some ps) p)) \<and> (\<forall>p. yields node_ok (parse_for n mem (Some ps) p))"
proof (induction n)
  case 0
  show ?case by (simp add: parse_body.simps parse_call.simps parse_if.simps parse_for.simps)
next
  case (Suc n)
  then have b: "nodes_ok nodes \<Longrightarrow> yields nodes_ok (parse_body n mem (Some ps) nodes q)" and c: "yields node_ok (parse_call n mem (Some ps) q)"
    and i: "yields node_ok (parse_if n mem (Some ps) q)" and f: "yields node_ok (parse_for n mem (Some ps) q)" for q nodes
    by blast+
  have body: "yields nodes_ok (parse_body (Suc n) mem (Some ps) nodes q)" if m: "nodes_ok nodes" for q nodes
    unfolding parse_body.simps Let_def
    using m by (auto split: option.split intro!: b yields_use [OF yields_element] yields_use [OF yields_interp] yields_use [OF c]
        yields_use [OF i] yields_use [OF f] yields_use [OF yields_text_run])
  have block: "yields nodes_ok (if peek q = CHR ''{'' then and_then (parse_body n mem (Some ps) [] (advance q)) (\<lambda>b r.
      if peek r \<noteq> CHR ''}'' then Error (perr r msg) else Done b (advance r)) else Done [] t)" for q t msg
    by (auto intro!: yields_use [OF b])
  have call: "yields node_ok (parse_call (Suc n) mem (Some ps) q)" for q
    unfolding parse_call.simps Let_def
    by (auto split: option.split simp: builtin_error_None intro!: yields_intros yields_use [OF block])
  have cond: "yields node_ok (parse_if (Suc n) mem (Some ps) q)" for q
    unfolding parse_if.simps Let_def
    by (auto split: prod.split intro!: yields_use [OF b] yields_use [OF i] yields_intros)
  have loop: "yields node_ok (parse_for (Suc n) mem (Some ps) q)" for q
    unfolding parse_for.simps Let_def
    by (auto intro!: yields_use [OF b] yields_intros)
  show ?case using body call cond loop by blast
qed
lemma yields_component: "yields component_ok (parse_component n mem l p)"
proof -
  have body: "yields nodes_ok (component_body n mem params q)" for params q
    using yields_parsers [of n mem params]
    by (auto simp: component_body_def split: list.split intro!: yields_use [of nodes_ok])
  have new: "(\<And>a q. yields P (k a q)) \<Longrightarrow> yields P (and_then (new_component mem p) k)" for P p and k :: "unit \<Rightarrow> Parser \<Rightarrow> Component outcome"
    by (rule yields_then)
  show ?thesis unfolding parse_component_def Let_def
    by (auto simp: component_ok_def intro!: yields_intros new yields_use [OF body])
qed

lemma yields_top: "list_all component_ok (comps t) \<Longrightarrow> yields (\<lambda>t. list_all component_ok (comps t)) (parse_top n mem t p)"
proof (induction n mem t p rule: parse_top.induct)
  case (1 n mem t p0)
  let ?p = "skip_ws_comments p0"
  have keep: "parse_hash_line mem t q = Done t1 r \<Longrightarrow> comps t1 = comps t" "parse_once mem t q = Done t1 r \<Longrightarrow> comps t1 = comps t" for q t1 r
    by (auto simp: parse_hash_line_def parse_once_def Let_def and_then_Done split: if_splits)
  have step: "(\<And>t1 r. parse_hash_line mem t q = Done t1 r \<Longrightarrow> comps t1 = comps t \<Longrightarrow> yields P (k t1 r)) \<Longrightarrow>
      yields P (and_then (parse_hash_line mem t q) k)"
    "(\<And>t1 r. parse_once mem t q = Done t1 r \<Longrightarrow> comps t1 = comps t \<Longrightarrow> yields P (k t1 r)) \<Longrightarrow>
      yields P (and_then (parse_once mem t q) k)"
    "(\<And>c r. parse_component n mem l q = Done c r \<Longrightarrow> component_ok c \<Longrightarrow> yields P (k2 c r)) \<Longrightarrow>
      yields P (and_then (parse_component n mem l q) k2)"
    for q l P and k :: "TopLevel \<Rightarrow> Parser \<Rightarrow> TopLevel outcome" and k2 :: "Component \<Rightarrow> Parser \<Rightarrow> TopLevel outcome"
    using keep yields_component [of n mem l q] by (auto intro!: yields_then)
  show ?case
  proof (cases "p_pos ?p \<ge> length (p_src ?p)")
    case True
    then show ?thesis using 1(4) by (subst parse_top.simps) (simp add: Let_def)
  next
    case False
    note ih = 1(1-3) [OF refl False]
    show ?thesis
    proof (cases "peek ?p = CHR ''#''")
      case True
      then show ?thesis
        using False ih(1) 1(4) by (subst parse_top.simps) (auto simp: Let_def intro!: step)
    next
      case n: False
      obtain f1 p1 where e1: "eat_keyword ?p ''once'' = (f1, p1)" by fastforce
      obtain f2 p2 where e2: "eat_keyword p1 ''component'' = (f2, p2)" by fastforce
      show ?thesis
        using False n e1 e2 ih(2) [OF n e1 [symmetric]] ih(3) [OF n e1 [symmetric] _ e2 [symmetric]] 1(4)
        by (subst parse_top.simps) (auto simp: Let_def intro!: step)
    qed
  qed
qed

text \<open>C23: the tree of an accepted file is well-formed: interpolations, conditions and loop heads are not empty, child content
  is only rendered in text, a built-in component is called with an argument, without child data, and with a child block
  if and only if it takes one, every call knows its component, and no component has a name of the runtime.
\<close>

theorem parsed_tree_well_formed:
  "case parse_file mem src of Done t p \<Rightarrow> list_all component_ok (comps t) | _ \<Rightarrow> True"
  using yields_top [of empty_top "body_fuel src" mem "start_parser src"]
  by (cases "parse_file mem src") (simp_all add: parse_file_def empty_top_def)

section \<open>Generation is defined\<close>

text \<open>A tree whose calls with child blocks have their names.\<close>

fun ready :: "Node \<Rightarrow> bool" where
  "ready (N_TEXT l s) = True"
| "ready (N_INTERP l e ctx children) = True"
| "ready (N_CALL l callee args data block encl g) =
     ((is_builtin_callee callee \<longrightarrow> args \<noteq> None) \<and> (\<not> is_builtin_callee callee \<and> block \<noteq> [] \<longrightarrow> g \<noteq> None) \<and> list_all ready block)"
| "ready (N_IF l c th ot) = (list_all ready th \<and> list_all ready ot)"
| "ready (N_FOR l h th) = list_all ready th"

fun lambda_ready :: "Node \<Rightarrow> bool" where
  "lambda_ready (N_CALL l callee args data block encl g) = (g \<noteq> None \<and> list_all ready block)"
| "lambda_ready n = False"

lemma add_lambda_Some:
  "add_lambda mem mk (ls, cap) = Some (n, ls1, cap1) \<Longrightarrow>
     n = mk (lambda_name (length ls + 1)) \<and> ls1 = ls @ [mk (lambda_name (length ls + 1))]"
  by (auto simp: add_lambda_def Let_def split: if_splits)

lemma collect_lambdas_Nil: "collect_lambdas mem ns st = Some ([], st1) \<Longrightarrow> ns = []"
  by (cases ns; cases "hd ns") (auto simp: bind_eq_Some_conv)

lemma collect_lambdas_ready:
  "collect_lambdas mem ns st = Some (ns1, st1) \<Longrightarrow> nodes_ok ns \<Longrightarrow> list_all lambda_ready (fst st) \<Longrightarrow>
     list_all ready ns1 \<and> list_all lambda_ready (fst st1) \<and> (ns1 = []) = (ns = [])"
proof (induction mem ns st arbitrary: ns1 st1 rule: collect_lambdas.induct)
  case (4 mem l c th ot ns st)
  then show ?case by (fastforce simp: bind_eq_Some_conv)
next
  case (5 mem l h th ns st)
  then show ?case by (fastforce simp: bind_eq_Some_conv)
next
  case (6 mem l callee args data block encl g ns st)
  obtain block1 ls cap1 where b: "collect_lambdas mem block st = Some (block1, ls, cap1)"
    using 6(3) by (auto simp: bind_eq_Some_conv)
  have rb: "list_all ready block1" "list_all lambda_ready ls" "(block1 = []) = (block = [])"
    using 6(1) [OF b] 6(4,5) by auto
  let ?mk = "\<lambda>name. N_CALL l callee args data block1 encl (Some name)"
  obtain n1 ls2 cap2 where n: "(if block \<noteq> [] \<and> \<not> is_builtin_callee callee then add_lambda mem ?mk (ls, cap1)
      else Some (N_CALL l callee args data block1 encl g, ls, cap1)) = Some (n1, ls2, cap2)"
    and r: "map_option (\<lambda>(ns1, st3). (n1 # ns1, st3)) (collect_lambdas mem ns (ls2, cap2)) = Some (ns1, st1)"
    using 6(3) b by (auto simp: bind_eq_Some_conv)
  have "ready n1 \<and> list_all lambda_ready ls2"
    using n rb 6(4) add_lambda_Some [of mem ?mk ls cap1 n1 ls2 cap2] by (auto simp: call_ok_def split: if_splits)
  then show ?case using r 6(2) [OF b refl n refl] 6(4) by auto
qed auto
definition written :: "emission \<Rightarrow> bool" where
  "written e \<longleftrightarrow> (\<exists>s. e = Written s)"

lemma written_simps [simp]: "written (Written s)" "written (followed_by x y) \<longleftrightarrow> written x \<and> written y"
  "written (emit_all es) \<longleftrightarrow> list_all written es"
proof -
  show w: "written (Written s)" for s by (simp add: written_def)
  show f: "written (followed_by x y) \<longleftrightarrow> written x \<and> written y" for x y by (cases x; cases y) (auto simp: written_def)
  show "written (emit_all es) \<longleftrightarrow> list_all written es" by (induction es) (auto simp: emit_all_def w f)
qed

abbreviation plenty :: allocator where "plenty \<equiv> \<lambda>_. True"

lemma putn_plenty: "\<not> sb_failed sb \<Longrightarrow> \<not> sb_failed (sb_putn plenty sb s)"
  by (simp add: sb_putn_def Let_def)

lemma chars_plenty: "\<not> sb_failed sb \<Longrightarrow> \<not> sb_failed (foldl (emit_c_char plenty) sb s)"
proof (induction s arbitrary: sb)
  case (Cons c s)
  have "\<not> sb_failed (emit_c_char plenty sb c)" unfolding emit_c_char_def using Cons.prems by (rule putn_plenty)
  then show ?case using Cons.IH by simp
qed simp

lemma merge_plenty: "\<not> sb_failed sb \<Longrightarrow> \<not> sb_failed (fst (merge_texts plenty sb n ns))"
proof (induction "plenty" sb n ns rule: merge_texts.induct)
  case (1 sb n l s ns)
  have "\<not> sb_failed (foldl (emit_c_char plenty) sb s)" using 1(2) by (rule chars_plenty)
  then show ?case using 1(1) [OF refl refl] by (simp add: Let_def)
qed simp_all

lemma merge_rest: "list_all P ns \<Longrightarrow> list_all P (snd (merge_texts mem sb n ns))"
  by (induction mem sb n ns rule: merge_texts.induct) (auto simp: Let_def)

lemma literal_plenty: "\<not> sb_failed sb \<Longrightarrow> written (emit_literal depth plenty sb)"
  using putn_plenty [of sb "[NUL]"] by (simp add: emit_literal_def Let_def)

lemma written_needed [simp]: "written (needed a k) \<longleftrightarrow> (\<exists>s. a = Some s \<and> written (k s))"
  by (cases a) (auto simp: written_def)

lemma written_nodes:
  "list_all ready ns \<Longrightarrow> written (emit_nodes plenty in_name depth ns)"
  "list_all ready th \<Longrightarrow> list_all ready ot \<Longrightarrow> written (emit_if_chain plenty in_name depth first line cond th ot)"
  "ready (N_CALL line callee args data block encl g) \<Longrightarrow> written (emit_call plenty in_name depth line callee args data block encl g)"
proof (induction plenty in_name depth ns and plenty in_name depth first line cond th ot
    and plenty in_name depth line callee args data block encl g rule: emit_nodes_emit_if_chain_emit_call.induct)
  case (2 in_name depth l s ns)
  obtain sb rest where m: "merge_texts plenty empty_sb 0 (N_TEXT l s # ns) = (sb, rest)" by fastforce
  have "\<not> sb_failed sb" "list_all ready rest"
    using merge_plenty [of empty_sb 0 "N_TEXT l s # ns"] merge_rest [OF 2(2), of plenty empty_sb 0] m by (auto simp: empty_sb_def)
  then show ?case using 2(1) [OF m [symmetric]] m by (simp add: emit_nodes.simps(2) literal_plenty del: merge_texts.simps)
next
  case (7 in_name depth first line cond th ot)
  then show ?case by (subst emit_if_chain.simps) (auto split: list.split Node.split)
next
  case (8 in_name depth line callee args data block encl g)
  then show ?case by (subst emit_call.simps) (auto simp: is_builtin_callee_def)
qed (auto simp: emit_nodes.simps)
lemma written_lambda: "lambda_ready n \<Longrightarrow> written (emit_lambda plenty in_name n)"
  by (cases n) (auto simp: emit_lambda_def Let_def written_nodes(1))

lemma written_component: "list_all ready (c_body c) \<Longrightarrow> written (emit_component plenty in_name c)"
  by (simp add: emit_component_def written_nodes(1))

lemma collect_plenty: "collect_lambdas plenty ns st \<noteq> None"
proof (induction plenty ns st rule: collect_lambdas.induct)
  case (6 l callee args data block encl g ns st)
  obtain b1 ls cap where b: "collect_lambdas plenty block st = Some (b1, ls, cap)" using 6(1) by auto
  let ?mk = "\<lambda>name. N_CALL l callee args data b1 encl (Some name)"
  obtain n1 st2 where n: "(if block \<noteq> [] \<and> \<not> is_builtin_callee callee then add_lambda plenty ?mk (ls, cap)
      else Some (N_CALL l callee args data b1 encl g, ls, cap)) = Some (n1, st2)"
    by (cases "block \<noteq> [] \<and> \<not> is_builtin_callee callee") (auto simp: add_lambda_def Let_def)
  show ?case using 6(2) [OF b refl n refl] b n by auto
qed fastforce+

lemma collect_components_ready:
  "list_all component_ok cs \<Longrightarrow> list_all lambda_ready (fst st) \<Longrightarrow>
     \<exists>cs1 st1. collect_components plenty cs st = Some (cs1, st1) \<and> list_all (\<lambda>c. list_all ready (c_body c)) cs1 \<and>
       list_all lambda_ready (fst st1)"
proof (induction plenty cs st rule: collect_components.induct)
  case (2 c cs st)
  obtain body st1 where b: "collect_lambdas plenty (c_body c) st = Some (body, st1)" using collect_plenty [of "c_body c" st] by auto
  then have "list_all ready body" "list_all lambda_ready (fst st1)"
    using collect_lambdas_ready [OF b] 2(2,3) by (auto simp: component_ok_def)
  then show ?case using 2(1) [OF b refl] 2(2) b by auto
qed simp

lemma written_source:
  assumes "list_all component_ok (comps t)"
  shows "written (emit_source plenty in_name stem t)"
proof -
  obtain cs ls cap where "collect_components plenty (comps t) ([], 0) = Some (cs, ls, cap)"
    "list_all (\<lambda>c. list_all ready (c_body c)) cs" "list_all lambda_ready ls"
    using collect_components_ready [OF assms, of "([], 0)"] by auto
  then show ?thesis
    by (auto simp: emit_source_def list_all_iff intro: written_lambda written_component)
qed

text \<open>C20: with enough memory the compiler generates both files exactly for the sources that its parser accepts with at least
  one component, and the header declares those components. A rejected source leaves both files empty and reports the
  position of the error, or that there is no component. No part of a tree is used that is not there.
\<close>

theorem compile_decided:
  "case parse_file plenty src of
     Done t p \<Rightarrow>
       if comps t = [] then ctmpl_compile plenty (Some src) (Some name) True = Rejected (plain_error ''no components found'') [] []
       else \<exists>c. ctmpl_compile plenty (Some src) (Some name) True = Compiled (header_text name (guard_of (stem_of_base (path_base name))) t) c
   | Error e \<Rightarrow>
       \<exists>e1. ctmpl_compile plenty (Some src) (Some name) True = Rejected e1 [] [] \<and> err_line e1 = err_line e \<and> err_col e1 = err_col e
   | Out_of_fuel \<Rightarrow> False"
proof (cases "parse_file plenty src")
  case Out_of_fuel
  then show ?thesis using ends_top [of "start_parser src" "body_fuel src" plenty empty_top]
    by (simp add: parse_file_def start_parser_def body_fuel_def)
next
  case (Done t p)
  have "list_all component_ok (comps t)"
    using yields_top [of empty_top "body_fuel src" plenty "start_parser src"] Done by (simp add: parse_file_def empty_top_def)
  then obtain c where c: "emit_source plenty name (stem_of_base (path_base name)) t = Written c"
    using written_source unfolding written_def by blast
  have "\<exists>r. allocs_add plenty q = Some r" for q by (simp add: allocs_add_def Let_def)
  then obtain p1 p2 where "allocs_add plenty p = Some p1" "allocs_add plenty p1 = Some p2" by blast
  then show ?thesis using Done c by (simp add: ctmpl_compile_def generate_def stem_name_def guard_name_def)
qed (simp add: ctmpl_compile_def)

section \<open>The functions of child blocks\<close>

text \<open>The names a sequence of statements refers to: blocks of built-in components are part of it, other blocks are not.\<close>

fun refers :: "Node list \<Rightarrow> string list" where
  "refers [] = []"
| "refers (N_CALL l callee args data block encl g # ns) =
     (if is_builtin_callee callee then refers block else case g of None \<Rightarrow> [] | Some name \<Rightarrow> [name]) @ refers ns"
| "refers (N_IF l c th ot # ns) = refers th @ refers ot @ refers ns"
| "refers (N_FOR l h th # ns) = refers th @ refers ns"
| "refers (n # ns) = refers ns"

text \<open>The \<open>i\<close>-th collected call has the \<open>i\<close>-th name, and its block refers to earlier names only.\<close>

definition names_below :: "nat \<Rightarrow> string list \<Rightarrow> bool" where
  "names_below n names \<longleftrightarrow> (\<forall>name \<in> set names. \<exists>j < n. name = lambda_name (j + 1))"

definition lambda_in_order :: "nat \<Rightarrow> Node \<Rightarrow> bool" where
  "lambda_in_order i n \<longleftrightarrow>
     (case n of
        N_CALL l callee args data block encl g \<Rightarrow> g = Some (lambda_name (i + 1)) \<and> names_below i (refers block)
      | _ \<Rightarrow> False)"

definition lambdas_in_order :: "Node list \<Rightarrow> bool" where
  "lambdas_in_order ls \<longleftrightarrow> (\<forall>i < length ls. lambda_in_order i (ls ! i))"

lemma names_below_mono: "names_below m names \<Longrightarrow> m \<le> n \<Longrightarrow> names_below n names"
  unfolding names_below_def using order_less_le_trans by blast

lemma names_below_Nil [simp]: "names_below n []"
  by (simp add: names_below_def)

lemma names_below_append [simp]: "names_below n (xs @ ys) \<longleftrightarrow> names_below n xs \<and> names_below n ys"
  by (auto simp: names_below_def)

lemma lambdas_in_order_snoc:
  "lambdas_in_order (ls @ [n]) \<longleftrightarrow> lambdas_in_order ls \<and> lambda_in_order (length ls) n"
  by (auto simp: lambdas_in_order_def nth_append less_Suc_eq)

lemma refers_Cons: "refers (n # ns) = refers [n] @ refers ns"
  by (cases n) auto

lemma collect_in_order:
  "collect_lambdas mem ns st = Some (ns1, st1) \<Longrightarrow> nodes_ok ns \<Longrightarrow> lambdas_in_order (fst st) \<Longrightarrow>
     lambdas_in_order (fst st1) \<and> length (fst st) \<le> length (fst st1) \<and> names_below (length (fst st1)) (refers ns1)"
proof (induction mem ns st arbitrary: ns1 st1 rule: collect_lambdas.induct)
  case (4 mem l c th ot ns st)
  obtain ot1 st2 th1 st3 ns2 where e: "collect_lambdas mem ot st = Some (ot1, st2)" "collect_lambdas mem th st2 = Some (th1, st3)"
    "collect_lambdas mem ns st3 = Some (ns2, st1)" "ns1 = N_IF l c th1 ot1 # ns2"
    using 4(4) by (auto simp: bind_eq_Some_conv)
  have o: "lambdas_in_order (fst st2)" "length (fst st) \<le> length (fst st2)" "names_below (length (fst st2)) (refers ot1)"
    using 4(1) [OF e(1)] 4(5,6) by auto
  have t: "lambdas_in_order (fst st3)" "length (fst st2) \<le> length (fst st3)" "names_below (length (fst st3)) (refers th1)"
    using 4(2) [OF e(1) refl e(2)] 4(5) o(1) by auto
  have n: "lambdas_in_order (fst st1)" "length (fst st3) \<le> length (fst st1)" "names_below (length (fst st1)) (refers ns2)"
    using 4(3) [OF e(1) refl e(2) refl e(3)] 4(5) t(1) by auto
  show ?case using o t n e(4) by (auto intro: names_below_mono)
next
  case (5 mem l h th ns st)
  obtain th1 st2 ns2 where e: "collect_lambdas mem th st = Some (th1, st2)" "collect_lambdas mem ns st2 = Some (ns2, st1)"
    "ns1 = N_FOR l h th1 # ns2"
    using 5(3) by (auto simp: bind_eq_Some_conv)
  have t: "lambdas_in_order (fst st2)" "length (fst st) \<le> length (fst st2)" "names_below (length (fst st2)) (refers th1)"
    using 5(1) [OF e(1)] 5(4,5) by auto
  have n: "lambdas_in_order (fst st1)" "length (fst st2) \<le> length (fst st1)" "names_below (length (fst st1)) (refers ns2)"
    using 5(2) [OF e(1) refl e(2)] 5(4) t(1) by auto
  show ?case using t n e(3) by (auto intro: names_below_mono)
next
  case (6 mem l callee args data block encl g ns st)
  obtain b1 ls cap where b: "collect_lambdas mem block st = Some (b1, ls, cap)"
    using 6(3) by (auto simp: bind_eq_Some_conv)
  have ob: "lambdas_in_order ls" "length (fst st) \<le> length ls" "names_below (length ls) (refers b1)" "(b1 = []) = (block = [])"
    using 6(1) [OF b] 6(4,5) collect_lambdas_Nil [of mem block st] b by auto
  let ?mk = "\<lambda>name. N_CALL l callee args data b1 encl (Some name)"
  obtain n1 ls2 cap2 where n: "(if block \<noteq> [] \<and> \<not> is_builtin_callee callee then add_lambda mem ?mk (ls, cap)
      else Some (N_CALL l callee args data b1 encl g, ls, cap)) = Some (n1, ls2, cap2)"
    and r: "map_option (\<lambda>(ns1, st3). (n1 # ns1, st3)) (collect_lambdas mem ns (ls2, cap2)) = Some (ns1, st1)"
    using 6(3) b by (auto simp: bind_eq_Some_conv)
  have o: "lambdas_in_order ls2" "length ls \<le> length ls2" "names_below (length ls2) (refers [n1])"
    using n ob(1-3) 6(4) add_lambda_Some [of mem ?mk ls cap n1 ls2 cap2]
    by (auto simp: lambdas_in_order_snoc lambda_in_order_def names_below_def split: if_splits)
  obtain ns2 where e: "collect_lambdas mem ns (ls2, cap2) = Some (ns2, st1)" "ns1 = n1 # ns2" using r by auto
  have "lambdas_in_order (fst st1)" "length ls2 \<le> length (fst st1)" "names_below (length (fst st1)) (refers ns2)"
    using 6(2) [OF b refl n refl e(1)] 6(4) o(1) by auto
  then show ?case using o(2,3) ob(2) e(2) refers_Cons [of n1 ns2] names_below_mono [OF o(3)] by simp
qed auto

text \<open>C24: the functions of child blocks are numbered in the order in which they are generated, and the function of a block
  refers only to functions generated before it, so that the generated code defines each before its use.
\<close>

theorem lambdas_defined_before_use:
  "case parse_file mem src of
     Done t p \<Rightarrow>
       (case collect_components mem (comps t) ([], 0) of
          Some (cs, ls, cap) \<Rightarrow> lambdas_in_order ls \<and> list_all (\<lambda>c. names_below (length ls) (refers (c_body c))) cs
        | None \<Rightarrow> True)
   | _ \<Rightarrow> True"
proof (cases "parse_file mem src")
  case (Done t p)
  then have ok: "list_all component_ok (comps t)"
    using yields_top [of empty_top "body_fuel src" mem "start_parser src"] by (simp add: parse_file_def empty_top_def)
  have "collect_components mem cs st = Some (cs1, st1) \<Longrightarrow> list_all component_ok cs \<Longrightarrow> lambdas_in_order (fst st) \<Longrightarrow>
      lambdas_in_order (fst st1) \<and> length (fst st) \<le> length (fst st1) \<and>
      list_all (\<lambda>c. names_below (length (fst st1)) (refers (c_body c))) cs1" for cs st cs1 st1
  proof (induction mem cs st arbitrary: cs1 st1 rule: collect_components.induct)
    case (2 mem c cs st)
    obtain body st2 cs2 where e: "collect_lambdas mem (c_body c) st = Some (body, st2)"
      "collect_components mem cs st2 = Some (cs2, st1)" "cs1 = c\<lparr>c_body := body\<rparr> # cs2"
      using 2(2) by (auto simp: bind_eq_Some_conv)
    have b: "lambdas_in_order (fst st2)" "length (fst st) \<le> length (fst st2)" "names_below (length (fst st2)) (refers body)"
      using collect_in_order [OF e(1)] 2(3,4) by (auto simp: component_ok_def)
    then show ?case using 2(1) [OF e(1) refl e(2)] 2(3) e(3) by (auto intro: names_below_mono)
  qed auto
  note order = this [of "comps t" "([], 0)"]
  have "lambdas_in_order []" by (simp add: lambdas_in_order_def)
  then show ?thesis using Done order ok by (auto split: option.split)
qed simp_all

end
