(* ===== verification/Ctmpl_Cli.thy ===== *)
theory Ctmpl_Cli
  imports Ctmpl_Tree
begin

text \<open>
  The command line of the template compiler, \<^verbatim>\<open>ctmpl_main.c\<close>: arguments, output paths, and the run on a file system with the
  exit codes 0 (compiled), 1 (rejected) and 2 (usage, memory, or files). The theorem says what a run leaves behind.

  The file system maps paths to contents; reading a file either fails or gives its whole content, and a file that can be
  opened can be written. Messages to the terminal are left out.
\<close>

section \<open>Arguments\<close>

datatype cli = Usage | Run string "string option"

fun parse_args :: "string option \<Rightarrow> string option \<Rightarrow> string list \<Rightarrow> cli" where
  "parse_args input outdir [] = (case input of None \<Rightarrow> Usage | Some i \<Rightarrow> Run i outdir)"
| "parse_args input outdir (a # as) =
     (if a = ''-o'' then (case as of [] \<Rightarrow> Usage | d # rest \<Rightarrow> parse_args input (Some d) rest)
      else if a = ''-h'' \<or> a = ''--help'' then Usage
      else if a \<noteq> [] \<and> hd a = CHR ''-'' then Usage
      else if input = None then parse_args (Some a) outdir as
      else Usage)"

section \<open>Paths\<close>

definition file_base :: "string \<Rightarrow> string" where
  "file_base path = rev (takeWhile (\<lambda>c. c \<noteq> CHR ''/'') (rev path))"

definition stem_of :: "allocator \<Rightarrow> string \<Rightarrow> string option" where
  "stem_of mem path =
     (let s = stem_of_base (file_base path) in if mem (length s + 1) then Some s else None)"

text \<open>Trailing slashes of the directory go, but not its first character.\<close>

definition join_dir :: "allocator \<Rightarrow> string \<Rightarrow> string \<Rightarrow> string option" where
  "join_dir mem dir file =
     (let d = take 1 dir @ rstrip (\<lambda>c. c = CHR ''/'') (drop 1 dir)
      in if mem (length d + length file + 2) then Some (d @ ''/'' @ file) else None)"

definition output_paths :: "allocator \<Rightarrow> string \<Rightarrow> string option \<Rightarrow> string \<Rightarrow> (string \<times> string) option" where
  "output_paths mem input outdir stem =
     (let h = stem @ ''_templ.h''; c = stem @ ''_templ.c'';
          dir_len = length input - length (file_base input);
          join = (\<lambda>dir. Option.bind (join_dir mem dir h) (\<lambda>hp. map_option (\<lambda>cp. (hp, cp)) (join_dir mem dir c)))
      in if \<not> mem (length stem + 9) then None
         else
           (case outdir of
              Some dir \<Rightarrow> join dir
            | None \<Rightarrow>
                if dir_len = 0 then Some (h, c)
                else if \<not> mem (dir_len + 1) then None
                else join (take (dir_len - 1) input)))"

section \<open>The run\<close>

type_synonym files = "string \<Rightarrow> (char list) option"

definition main :: "allocator \<Rightarrow> (string \<Rightarrow> bool) \<Rightarrow> files \<Rightarrow> string list \<Rightarrow> (nat \<times> files) option" where
  "main mem can_write fs args =
     (case parse_args None None args of
        Usage \<Rightarrow> Some (2, fs)
      | Run input outdir \<Rightarrow>
          (case fs input of
             None \<Rightarrow> Some (2, fs)
           | Some src \<Rightarrow>
               if \<not> mem (length src + 1) then Some (2, fs)
               else
                 (case Option.bind (stem_of mem input) (output_paths mem input outdir) of
                    None \<Rightarrow> Some (2, fs)
                  | Some (h_path, c_path) \<Rightarrow>
                      if \<not> can_write h_path \<or> \<not> can_write c_path then
                        Some (2, \<lambda>f. if (f = h_path \<and> can_write h_path) \<or> (f = c_path \<and> can_write c_path) then None else fs f)
                      else
                        (case ctmpl_compile mem (Some src) (Some input) True of
                           Compiled h c \<Rightarrow> Some (0, fs(h_path := Some h, c_path := Some c))
                         | Rejected e h c \<Rightarrow> Some (1, fs(h_path := None, c_path := None))
                         | Compile_undefined \<Rightarrow> None))))"

text \<open>The exit code says what a run leaves behind. With 0 the two output files hold what the compiler generated for the
  input; with 1 the compiler has rejected the input, and the two output files are gone; with 2 at most output files
  that were opened are gone. No other file changes.
\<close>

theorem run_leaves_no_partial_output:
  "case main mem can_write fs args of
     None \<Rightarrow> True
   | Some (code, fs1) \<Rightarrow>
       if code = 2 then \<exists>h_path c_path. \<forall>f. fs1 f = fs f \<or> (f \<in> {h_path, c_path} \<and> can_write f \<and> fs1 f = None)
       else
         \<exists>input outdir src h_path c_path. parse_args None None args = Run input outdir \<and> fs input = Some src \<and>
           Option.bind (stem_of mem input) (output_paths mem input outdir) = Some (h_path, c_path) \<and>
           (case ctmpl_compile mem (Some src) (Some input) True of
              Compiled h c \<Rightarrow> code = 0 \<and> fs1 = fs(h_path := Some h, c_path := Some c)
            | Rejected e h c \<Rightarrow> code = 1 \<and> fs1 = fs(h_path := None, c_path := None)
            | Compile_undefined \<Rightarrow> False)"
proof (cases "parse_args None None args")
  case (Run input outdir)
  show ?thesis
  proof (cases "fs input")
    case src: (Some src)
    show ?thesis
    proof (cases "Option.bind (stem_of mem input) (output_paths mem input outdir)")
      case (Some paths)
      then show ?thesis using Run src
        by (cases paths; cases "ctmpl_compile mem (Some src) (Some input) True")
          (auto simp: main_def)
    qed (use Run src in \<open>simp add: main_def\<close>)
  qed (use Run in \<open>simp add: main_def\<close>)
qed (simp add: main_def)

end
